(* ===== verification/Model.thy ===== *)
theory Model
  imports Uma_Prelude
begin

text \<open>
  The records of \<open>model.rs\<close> and \<open>uma/events/common.rs\<close>: a decoded oracle event,
  its market enrichment, the deduplication key, and the conversion to and from
  the protobuf message \<open>pb::UmaEvent\<close>.  The generated protobuf module is not part
  of the repository: the numbers of its enums are the fields of \<open>pb_enums\<close>, and
  \<open>pb_enums_ok\<close> is what prost documents of them (\<open>try_from\<close> inverts \<open>as i32\<close>).
\<close>

subsection \<open>On-chain data\<close>

record chain_log =
  block_number :: u64
  transaction_hash :: bytes
  log_index :: u32
  upstream_received_at_us :: u64
  removed :: bool

record polymarket_ancillary =
  question_id :: bytes
  anc_market_id :: "u64 option"

record price_request =
  requester :: bytes
  request_condition_id :: bytes
  ancillary :: polymarket_ancillary
  proposed_price :: bytes

record propose_price =
  propose_chain :: chain_log
  propose_request :: price_request

record dispute_price =
  dispute_chain :: chain_log
  dispute_request :: price_request

datatype uma_event = ProposePrice propose_price | DisputePrice dispute_price

datatype event_kind = Propose | Dispute

fun event_kind_of :: "uma_event \<Rightarrow> event_kind" where
  "event_kind_of (ProposePrice _) = Propose"
| "event_kind_of (DisputePrice _) = Dispute"

fun event_chain :: "uma_event \<Rightarrow> chain_log" where
  "event_chain (ProposePrice e) = propose_chain e"
| "event_chain (DisputePrice e) = dispute_chain e"

fun event_request :: "uma_event \<Rightarrow> price_request" where
  "event_request (ProposePrice e) = propose_request e"
| "event_request (DisputePrice e) = dispute_request e"

definition unwrap_or_default :: "u64 option \<Rightarrow> u64" where
  "unwrap_or_default v = (case v of None \<Rightarrow> 0 | Some x \<Rightarrow> x)"

definition event_market_id :: "uma_event \<Rightarrow> u64" where
  "event_market_id e = unwrap_or_default (anc_market_id (ancillary (event_request e)))"

subsection \<open>Enumerations and their protobuf twins\<close>

datatype pb_event_type = PbEventUnspecified | PbPropose | PbDispute

datatype price_outcome = OutcomeUnspecified | Token0 | Token1 | Tie

datatype pb_price_outcome = PbOutcomeUnspecified | PbToken0 | PbToken1 | PbTie

datatype category =
    CatUnspecified | Sports | Esports | Politics | Crypto | Culture | Weather | CatOther | Mentions

datatype pb_category =
    PbCatUnspecified | PbSports | PbEsports | PbPolitics | PbCrypto | PbCulture | PbWeather
  | PbCatOther | PbMentions

datatype bet_type =
    BetUnspecified | Moneyline | Spread | OverUnder | GameWinner | Outright | SportsProp
  | TempHigh | TempLow | Precipitation | Storm | WeatherOther
  | PriceTarget | PriceThreshold | UpDown | CryptoProp
  | ElectionWinner | FedRateDecision | TweetCount | PoliticsProp
  | AwardWinner | MediaMetricRange | CultureProp
  | MentionTerm | MentionCount | MentionProp

datatype pb_bet_type =
    PbBetUnspecified | PbMoneyline | PbSpread | PbOverUnder | PbGameWinner | PbOutright | PbSportsProp
  | PbTempHigh | PbTempLow | PbPrecipitation | PbStorm | PbWeatherOther
  | PbPriceTarget | PbPriceThreshold | PbUpDown | PbCryptoProp
  | PbElectionWinner | PbFedRateDecision | PbTweetCount | PbPoliticsProp
  | PbAwardWinner | PbMediaMetricRange | PbCultureProp
  | PbMentionTerm | PbMentionCount | PbMentionProp

text \<open>
  The generated enums: \<open>as\<close> is the cast \<open>as i32\<close>, \<open>try\<close> is \<open>try_from(i32)\<close>.
\<close>

record pb_enums =
  event_type_as :: "pb_event_type \<Rightarrow> i32"
  event_type_try :: "i32 \<Rightarrow> pb_event_type option"
  price_outcome_as :: "pb_price_outcome \<Rightarrow> i32"
  price_outcome_try :: "i32 \<Rightarrow> pb_price_outcome option"
  category_as :: "pb_category \<Rightarrow> i32"
  category_try :: "i32 \<Rightarrow> pb_category option"
  bet_type_as :: "pb_bet_type \<Rightarrow> i32"
  bet_type_try :: "i32 \<Rightarrow> pb_bet_type option"
  status_hit :: i32
  status_miss :: i32

definition pb_enums_ok :: "pb_enums \<Rightarrow> bool" where
  "pb_enums_ok P \<longleftrightarrow>
     (\<forall>v. event_type_try P (event_type_as P v) = Some v) \<and>
     (\<forall>v. price_outcome_try P (price_outcome_as P v) = Some v) \<and>
     (\<forall>v. category_try P (category_as P v) = Some v) \<and>
     (\<forall>v. bet_type_try P (bet_type_as P v) = Some v) \<and>
     status_hit P \<noteq> status_miss P"

definition event_kind_to_proto :: "pb_enums \<Rightarrow> event_kind \<Rightarrow> i32" where
  "event_kind_to_proto P k = event_type_as P (case k of Propose \<Rightarrow> PbPropose | Dispute \<Rightarrow> PbDispute)"

definition event_kind_from_proto :: "pb_enums \<Rightarrow> i32 \<Rightarrow> event_kind option" where
  "event_kind_from_proto P n =
     (case event_type_try P n of
        None \<Rightarrow> None
      | Some PbPropose \<Rightarrow> Some Propose
      | Some PbDispute \<Rightarrow> Some Dispute
      | Some PbEventUnspecified \<Rightarrow> None)"

definition price_outcome_to_proto :: "pb_enums \<Rightarrow> price_outcome \<Rightarrow> i32" where
  "price_outcome_to_proto P v = price_outcome_as P
     (case v of OutcomeUnspecified \<Rightarrow> PbOutcomeUnspecified
      | Token0 \<Rightarrow> PbToken0 | Token1 \<Rightarrow> PbToken1 | Tie \<Rightarrow> PbTie)"

definition price_outcome_from_proto :: "pb_enums \<Rightarrow> i32 \<Rightarrow> price_outcome" where
  "price_outcome_from_proto P n =
     (case (case price_outcome_try P n of None \<Rightarrow> PbOutcomeUnspecified | Some v \<Rightarrow> v) of
        PbToken0 \<Rightarrow> Token0 | PbToken1 \<Rightarrow> Token1 | PbTie \<Rightarrow> Tie
      | PbOutcomeUnspecified \<Rightarrow> OutcomeUnspecified)"

definition category_to_proto :: "pb_enums \<Rightarrow> category \<Rightarrow> i32" where
  "category_to_proto P v = category_as P
     (case v of CatUnspecified \<Rightarrow> PbCatUnspecified | Sports \<Rightarrow> PbSports | Esports \<Rightarrow> PbEsports
      | Politics \<Rightarrow> PbPolitics | Crypto \<Rightarrow> PbCrypto | Culture \<Rightarrow> PbCulture
      | Weather \<Rightarrow> PbWeather | CatOther \<Rightarrow> PbCatOther | Mentions \<Rightarrow> PbMentions)"

definition category_from_proto :: "pb_enums \<Rightarrow> i32 \<Rightarrow> category" where
  "category_from_proto P n =
     (case (case category_try P n of None \<Rightarrow> PbCatUnspecified | Some v \<Rightarrow> v) of
        PbSports \<Rightarrow> Sports | PbEsports \<Rightarrow> Esports | PbPolitics \<Rightarrow> Politics
      | PbCrypto \<Rightarrow> Crypto | PbCulture \<Rightarrow> Culture | PbWeather \<Rightarrow> Weather
      | PbCatOther \<Rightarrow> CatOther | PbMentions \<Rightarrow> Mentions | PbCatUnspecified \<Rightarrow> CatUnspecified)"

definition bet_type_to_proto :: "pb_enums \<Rightarrow> bet_type \<Rightarrow> i32" where
  "bet_type_to_proto P v = bet_type_as P
     (case v of BetUnspecified \<Rightarrow> PbBetUnspecified
      | Moneyline \<Rightarrow> PbMoneyline | Spread \<Rightarrow> PbSpread | OverUnder \<Rightarrow> PbOverUnder
      | GameWinner \<Rightarrow> PbGameWinner | Outright \<Rightarrow> PbOutright | SportsProp \<Rightarrow> PbSportsProp
      | TempHigh \<Rightarrow> PbTempHigh | TempLow \<Rightarrow> PbTempLow | Precipitation \<Rightarrow> PbPrecipitation
      | Storm \<Rightarrow> PbStorm | WeatherOther \<Rightarrow> PbWeatherOther
      | PriceTarget \<Rightarrow> PbPriceTarget | PriceThreshold \<Rightarrow> PbPriceThreshold
      | UpDown \<Rightarrow> PbUpDown | CryptoProp \<Rightarrow> PbCryptoProp
      | ElectionWinner \<Rightarrow> PbElectionWinner | FedRateDecision \<Rightarrow> PbFedRateDecision
      | TweetCount \<Rightarrow> PbTweetCount | PoliticsProp \<Rightarrow> PbPoliticsProp
      | AwardWinner \<Rightarrow> PbAwardWinner | MediaMetricRange \<Rightarrow> PbMediaMetricRange
      | CultureProp \<Rightarrow> PbCultureProp
      | MentionTerm \<Rightarrow> PbMentionTerm | MentionCount \<Rightarrow> PbMentionCount
      | MentionProp \<Rightarrow> PbMentionProp)"

definition bet_type_from_proto :: "pb_enums \<Rightarrow> i32 \<Rightarrow> bet_type" where
  "bet_type_from_proto P n =
     (case (case bet_type_try P n of None \<Rightarrow> PbBetUnspecified | Some v \<Rightarrow> v) of
        PbMoneyline \<Rightarrow> Moneyline | PbSpread \<Rightarrow> Spread | PbOverUnder \<Rightarrow> OverUnder
      | PbGameWinner \<Rightarrow> GameWinner | PbOutright \<Rightarrow> Outright | PbSportsProp \<Rightarrow> SportsProp
      | PbTempHigh \<Rightarrow> TempHigh | PbTempLow \<Rightarrow> TempLow | PbPrecipitation \<Rightarrow> Precipitation
      | PbStorm \<Rightarrow> Storm | PbWeatherOther \<Rightarrow> WeatherOther
      | PbPriceTarget \<Rightarrow> PriceTarget | PbPriceThreshold \<Rightarrow> PriceThreshold
      | PbUpDown \<Rightarrow> UpDown | PbCryptoProp \<Rightarrow> CryptoProp
      | PbElectionWinner \<Rightarrow> ElectionWinner | PbFedRateDecision \<Rightarrow> FedRateDecision
      | PbTweetCount \<Rightarrow> TweetCount | PbPoliticsProp \<Rightarrow> PoliticsProp
      | PbAwardWinner \<Rightarrow> AwardWinner | PbMediaMetricRange \<Rightarrow> MediaMetricRange
      | PbCultureProp \<Rightarrow> CultureProp
      | PbMentionTerm \<Rightarrow> MentionTerm | PbMentionCount \<Rightarrow> MentionCount
      | PbMentionProp \<Rightarrow> MentionProp | PbBetUnspecified \<Rightarrow> BetUnspecified)"

subsection \<open>Which outcome a proposed price selects\<close>

definition from_propose_price :: "bytes \<Rightarrow> price_outcome" where
  "from_propose_price price =
     (let token0 = replicate 24 0 @ to_be_bytes 8 (1000000000000000000 :: u64);
          tie = replicate 24 0 @ to_be_bytes 8 (500000000000000000 :: u64)
      in if list_all (\<lambda>b. b = 0) price then Token1
         else if price = token0 then Token0
         else if price = tie then Tie
         else OutcomeUnspecified)"

subsection \<open>Event records\<close>

record market_enrichment =
  me_market_id :: u64
  me_condition_id :: bytes
  token_ids :: "bytes list"
  tag_ids :: "u32 list"
  me_category :: category
  me_bet_type :: bet_type
  neg_risk :: bool

record event_key =
  key_transaction_hash :: bytes
  key_log_index :: u32
  key_removed :: bool

record event_record =
  sequence :: u64
  event :: uma_event
  enrichment :: "market_enrichment option"
  price_outcome :: price_outcome

definition key_of :: "event_record \<Rightarrow> event_key" where
  "key_of r = \<lparr> key_transaction_hash = transaction_hash (event_chain (event r)),
                key_log_index = log_index (event_chain (event r)),
                key_removed = removed (event_chain (event r)) \<rparr>"

definition resolved_condition_id :: "event_record \<Rightarrow> bytes" where
  "resolved_condition_id r =
     (case enrichment r of
        Some en \<Rightarrow> me_condition_id en
      | None \<Rightarrow> request_condition_id (event_request (event r)))"

record pb_uma_event =
  pb_sequence :: u64
  pb_event_type :: i32
  pb_transaction_hash :: bytes
  pb_log_index :: u32
  pb_market_id :: u64
  pb_condition_id :: bytes
  pb_token_ids :: "bytes list"
  pb_tag_ids :: "u32 list"
  pb_upstream_received_at_us :: u64
  pb_removed :: bool
  pb_enrichment_status :: i32
  pb_price_outcome :: i32
  pb_category :: i32
  pb_bet_type :: i32
  pb_neg_risk :: bool

definition to_proto :: "pb_enums \<Rightarrow> event_record \<Rightarrow> pb_uma_event" where
  "to_proto P r =
     (let en = enrichment r; chain = event_chain (event r)
      in \<lparr> pb_sequence = sequence r,
           pb_event_type = event_kind_to_proto P (event_kind_of (event r)),
           pb_transaction_hash = transaction_hash chain,
           pb_log_index = log_index chain,
           pb_market_id = event_market_id (event r),
           pb_condition_id = resolved_condition_id r,
           pb_token_ids = (case en of Some v \<Rightarrow> token_ids v | None \<Rightarrow> []),
           pb_tag_ids = (case en of Some v \<Rightarrow> tag_ids v | None \<Rightarrow> []),
           pb_upstream_received_at_us = upstream_received_at_us chain,
           pb_removed = removed chain,
           pb_enrichment_status = (case en of Some _ \<Rightarrow> status_hit P | None \<Rightarrow> status_miss P),
           pb_price_outcome = price_outcome_to_proto P (price_outcome r),
           pb_category = category_to_proto P (case en of Some v \<Rightarrow> me_category v | None \<Rightarrow> CatUnspecified),
           pb_bet_type = bet_type_to_proto P (case en of Some v \<Rightarrow> me_bet_type v | None \<Rightarrow> BetUnspecified),
           pb_neg_risk = (case en of Some v \<Rightarrow> neg_risk v | None \<Rightarrow> False) \<rparr>)"

definition fixed :: "nat \<Rightarrow> bytes \<Rightarrow> bytes option" where
  "fixed n v = (if length v = n then Some v else None)"

definition from_proto :: "pb_enums \<Rightarrow> pb_uma_event \<Rightarrow> event_record option" where
  "from_proto P v =
     (case fixed 32 (pb_condition_id v) of
        None \<Rightarrow> None
      | Some cid \<Rightarrow>
          (let en = (if pb_enrichment_status v = status_hit P
                     then Some \<lparr> me_market_id = pb_market_id v,
                                 me_condition_id = cid,
                                 token_ids = List.map_filter (fixed 32) (pb_token_ids v),
                                 tag_ids = pb_tag_ids v,
                                 me_category = category_from_proto P (pb_category v),
                                 me_bet_type = bet_type_from_proto P (pb_bet_type v),
                                 neg_risk = pb_neg_risk v \<rparr>
                     else None)
           in case event_kind_from_proto P (pb_event_type v) of
                None \<Rightarrow> None
              | Some kind \<Rightarrow>
                  (case fixed 32 (pb_transaction_hash v) of
                     None \<Rightarrow> None
                   | Some tx \<Rightarrow>
                       (let chain = \<lparr> block_number = 0,
                                      transaction_hash = tx,
                                      log_index = pb_log_index v,
                                      upstream_received_at_us = pb_upstream_received_at_us v,
                                      removed = pb_removed v \<rparr>;
                            request = \<lparr> requester = replicate 20 0,
                                        request_condition_id = cid,
                                        ancillary = \<lparr> question_id = replicate 32 0,
                                                      anc_market_id = (if pb_market_id v \<noteq> 0
                                                        then Some (pb_market_id v) else None) \<rparr>,
                                        proposed_price = replicate 32 0 \<rparr>
                        in Some \<lparr> sequence = pb_sequence v,
                                  event = (case kind of
                                      Propose \<Rightarrow> ProposePrice \<lparr> propose_chain = chain, propose_request = request \<rparr>
                                    | Dispute \<Rightarrow> DisputePrice \<lparr> dispute_chain = chain, dispute_request = request \<rparr>),
                                  enrichment = en,
                                  price_outcome = price_outcome_from_proto P (pb_price_outcome v) \<rparr>))))"

subsection \<open>Decimal rendering of a 256-bit integer\<close>

text \<open>One pass of the schoolbook division by ten over the bytes, most significant first.\<close>

fun div10_pass :: "u16 \<Rightarrow> bytes \<Rightarrow> bytes \<times> u16" where
  "div10_pass remainder [] = ([], remainder)"
| "div10_pass remainder (byte # rest) =
     (let current = or (push_bit 8 remainder) (ucast byte);
          (bs, r) = div10_pass (current mod 10) rest
      in (ucast (current div 10) # bs, r))"

lemma unat_div10_current:
  assumes "unat remainder < 10"
  shows "unat (or (push_bit 8 remainder) (ucast (byte :: u8)) :: u16) = unat remainder * 256 + unat byte"
proof -
  have "and (push_bit 8 remainder) (ucast byte :: u16) = 0"
    by (rule bit_word_eqI) (auto simp: bit_simps dest: bit_imp_le_length)
  then have "(or (push_bit 8 remainder) (ucast byte) :: u16) = push_bit 8 remainder + ucast byte"
    by (simp add: disjunctive_add_eq_or)
  moreover have "unat (push_bit 8 remainder) = unat remainder * 256"
    using assms by (simp add: push_bit_eq_mult unat_word_ariths)
  moreover have "unat (ucast byte :: u16) = unat byte"
    by (simp add: unat_ucast_up)
  ultimately show ?thesis
    using assms unat_byte_lt [of byte] by (simp add: unat_word_ariths)
qed

lemma div10_pass_correct:
  assumes "unat r < 10" "div10_pass r bs = (q, r')"
  shows "unat r * 256 ^ length bs + be_nat bs = be_nat q * 10 + unat r' \<and> unat r' < 10 \<and> length q = length bs"
  using assms
proof (induction bs arbitrary: r q)
  case (Cons b bs)
  define cur where "cur = (or (push_bit 8 r) (ucast b) :: u16)"
  obtain q1 where q: "q = ucast (cur div 10) # q1" and q1: "div10_pass (cur mod 10) bs = (q1, r')"
    using Cons.prems by (auto simp: Let_def cur_def split: prod.splits)
  have cur: "unat cur = unat r * 256 + unat b"
    using unat_div10_current [OF Cons.prems(1)] by (simp add: cur_def)
  have m: "unat (cur mod 10) = unat cur mod 10" and d: "unat (cur div 10) = unat cur div 10"
    by (simp_all add: unat_mod unat_div)
  have "unat cur div 10 < 256" using cur Cons.prems(1) unat_byte_lt [of b] by simp
  then have u: "unat (ucast (cur div 10) :: u8) = unat cur div 10"
    by (simp add: d unsigned_ucast_eq take_bit_eq_mod)
  have IH: "unat (cur mod 10) * 256 ^ length bs + be_nat bs = be_nat q1 * 10 + unat r'"
      "unat r' < 10" "length q1 = length bs"
    using Cons.IH [OF _ q1] by (simp_all add: m)
  have "unat r * 256 ^ length (b # bs) + be_nat (b # bs) = unat cur * 256 ^ length bs + be_nat bs"
    using be_nat_append [of "[b]" bs] cur by (simp add: be_nat_def algebra_simps)
  also have "unat cur = unat cur div 10 * 10 + unat cur mod 10" by simp
  finally have "unat r * 256 ^ length (b # bs) + be_nat (b # bs)
      = (unat cur div 10 * 256 ^ length bs) * 10 + (unat cur mod 10 * 256 ^ length bs + be_nat bs)"
    by (simp only: algebra_simps)
  also have "\<dots> = (unat cur div 10 * 256 ^ length bs + be_nat q1) * 10 + unat r'"
    using IH m by simp
  also have "unat cur div 10 * 256 ^ length bs + be_nat q1 = be_nat q"
    using be_nat_append [of "[ucast (cur div 10)]" q1] u IH(3) by (simp add: q be_nat_def)
  finally show ?case using IH q by simp
qed auto

function decimal_digits :: "bytes \<Rightarrow> bytes \<Rightarrow> bytes" where
  "decimal_digits working digits =
     (if list_ex (\<lambda>b. b \<noteq> 0) working
      then (let (w, remainder) = div10_pass 0 working
            in decimal_digits w (digits @ [48 + ucast remainder]))
      else digits)"
  by pat_completeness auto

lemma div10_pass_decreases:
  assumes "list_ex (\<lambda>b. b \<noteq> 0) bs" "div10_pass 0 bs = (q, r)"
  shows "be_nat q < be_nat bs"
proof -
  have "be_nat bs = be_nat q * 10 + unat r"
    using div10_pass_correct [OF _ assms(2)] by simp
  moreover have "be_nat bs \<noteq> 0"
    using assms(1) by (auto simp: be_nat_zero_iff list_ex_iff)
  ultimately show ?thesis by linarith
qed

termination decimal_digits
  by (relation "measure (\<lambda>(w, _). be_nat w)") (auto intro: div10_pass_decreases [OF _ sym])

declare decimal_digits.simps [simp del]

definition uint256_decimal :: "bytes \<Rightarrow> string" where
  "uint256_decimal value =
     (if list_all (\<lambda>b. b = 0) value then ''0''
      else map (\<lambda>b. char_of (unat b)) (rev (decimal_digits value [])))"

subsection \<open>Properties\<close>

lemma enum_round_trips [codec_simps]:
  assumes "pb_enums_ok P"
  shows "event_kind_from_proto P (event_kind_to_proto P k) = Some k"
    and "price_outcome_from_proto P (price_outcome_to_proto P v) = v"
    and "category_from_proto P (category_to_proto P c) = c"
    and "bet_type_from_proto P (bet_type_to_proto P b) = b"
proof -
  have ok: "event_type_try P (event_type_as P e) = Some e"
      "price_outcome_try P (price_outcome_as P o') = Some o'"
      "category_try P (category_as P c') = Some c'"
      "bet_type_try P (bet_type_as P b') = Some b'" for e o' c' b'
    using assms by (simp_all add: pb_enums_ok_def)
  show "event_kind_from_proto P (event_kind_to_proto P k) = Some k"
    by (cases k) (simp_all add: event_kind_from_proto_def event_kind_to_proto_def ok)
  show "price_outcome_from_proto P (price_outcome_to_proto P v) = v"
    by (cases v) (simp_all add: price_outcome_from_proto_def price_outcome_to_proto_def ok)
  show "category_from_proto P (category_to_proto P c) = c"
    by (cases c) (simp_all add: category_from_proto_def category_to_proto_def ok)
  show "bet_type_from_proto P (bet_type_to_proto P b) = b"
    by (cases b) (simp_all add: bet_type_from_proto_def bet_type_to_proto_def ok)
qed

text \<open>The Rust arrays \<open>[u8; 32]\<close> of a record are byte strings of that length.\<close>

definition record_widths :: "event_record \<Rightarrow> bool" where
  "record_widths r \<longleftrightarrow>
     length (transaction_hash (event_chain (event r))) = 32 \<and>
     length (request_condition_id (event_request (event r))) = 32 \<and>
     (case enrichment r of None \<Rightarrow> True
      | Some en \<Rightarrow> length (me_condition_id en) = 32 \<and> list_all (\<lambda>t. length t = 32) (token_ids en))"

lemma map_filter_fixed: "list_all (\<lambda>t. length t = n) ts \<Longrightarrow> List.map_filter (fixed n) ts = ts"
  by (induction ts) (auto simp: List.map_filter_def fixed_def)

lemma length_resolved_condition_id: "record_widths r \<Longrightarrow> length (resolved_condition_id r) = 32"
  by (auto simp: record_widths_def resolved_condition_id_def split: option.splits)

lemma from_to_proto:
  assumes "pb_enums_ok P" "record_widths r"
  obtains r' where "from_proto P (to_proto P r) = Some r'"
    and "sequence r' = sequence r" "key_of r' = key_of r"
    and "event_kind_of (event r') = event_kind_of (event r)"
    and "event_market_id (event r') = event_market_id (event r)"
    and "upstream_received_at_us (event_chain (event r')) = upstream_received_at_us (event_chain (event r))"
    and "enrichment r' = map_option (\<lambda>en. en\<lparr>me_market_id := event_market_id (event r)\<rparr>) (enrichment r)"
    and "resolved_condition_id r' = resolved_condition_id r"
    and "price_outcome r' = price_outcome r"
proof -
  have tx: "length (transaction_hash (event_chain (event r))) = 32"
    using assms(2) by (simp add: record_widths_def)
  have hm: "status_hit P \<noteq> status_miss P" using assms(1) by (simp add: pb_enums_ok_def)
  have ids: "enrichment r = Some en \<Longrightarrow> List.map_filter (fixed 32) (token_ids en) = token_ids en" for en
    using assms(2) by (intro map_filter_fixed) (simp add: record_widths_def)
  obtain r' where r': "from_proto P (to_proto P r) = Some r'"
    using assms tx length_resolved_condition_id [OF assms(2)]
    by (auto simp: from_proto_def to_proto_def fixed_def codec_simps Let_def)
  show ?thesis
    by (rule that [OF r'];
        insert r' assms tx hm ids length_resolved_condition_id [OF assms(2)];
        cases "enrichment r"; cases "event_kind_of (event r)";
        auto simp: from_proto_def to_proto_def fixed_def codec_simps Let_def key_of_def
          event_market_id_def unwrap_or_default_def resolved_condition_id_def)
qed

text \<open>
  C3: writing a record to its protobuf message and reading it back gives a record
  with the same message again (so a replayed event is re-broadcast byte for
  byte), the same deduplication key and sequence.
\<close>

theorem proto_round_trip:
  assumes "pb_enums_ok P" "record_widths r"
  shows "\<exists>r'. from_proto P (to_proto P r) = Some r' \<and> to_proto P r' = to_proto P r \<and>
    key_of r' = key_of r \<and> sequence r' = sequence r \<and> price_outcome r' = price_outcome r"
proof -
  obtain r' where r': "from_proto P (to_proto P r) = Some r'"
    and eqs: "sequence r' = sequence r" "key_of r' = key_of r"
      "event_kind_of (event r') = event_kind_of (event r)"
      "event_market_id (event r') = event_market_id (event r)"
      "upstream_received_at_us (event_chain (event r')) = upstream_received_at_us (event_chain (event r))"
      "enrichment r' = map_option (\<lambda>en. en\<lparr>me_market_id := event_market_id (event r)\<rparr>) (enrichment r)"
      "resolved_condition_id r' = resolved_condition_id r"
      "price_outcome r' = price_outcome r"
    by (rule from_to_proto [OF assms])
  have "to_proto P r' = to_proto P r"
    using eqs by (cases "enrichment r") (auto simp: to_proto_def key_of_def Let_def)
  with r' eqs show ?thesis by auto
qed

text \<open>A numbering of the protobuf enums, in declaration order, for the witnesses.\<close>

fun position :: "'a list \<Rightarrow> 'a \<Rightarrow> nat" where
  "position [] x = 0"
| "position (y # ys) x = (if x = y then 0 else Suc (position ys x))"

definition number_as :: "'a list \<Rightarrow> 'a \<Rightarrow> i32" where
  "number_as vs v = of_nat (position vs v)"

definition number_try :: "'a list \<Rightarrow> i32 \<Rightarrow> 'a option" where
  "number_try vs n = (if unat n < length vs then Some (vs ! unat n) else None)"

lemma position_less: "x \<in> set vs \<Longrightarrow> position vs x < length vs \<and> vs ! position vs x = x"
  by (induction vs) auto

lemma number_try_as:
  assumes "v \<in> set vs" "length vs < 2 ^ 32"
  shows "number_try vs (number_as vs v) = Some v"
proof -
  have "position vs v < length vs" "vs ! position vs v = v"
    using position_less [OF assms(1)] by auto
  moreover from this assms(2) have "unat (of_nat (position vs v) :: i32) = position vs v"
    by (simp add: unat_of_nat)
  ultimately show ?thesis by (simp add: number_try_def number_as_def)
qed

definition all_event_types :: "pb_event_type list" where
  "all_event_types = [PbEventUnspecified, PbPropose, PbDispute]"

definition all_price_outcomes :: "pb_price_outcome list" where
  "all_price_outcomes = [PbOutcomeUnspecified, PbToken0, PbToken1, PbTie]"

definition all_categories :: "pb_category list" where
  "all_categories = [PbCatUnspecified, PbSports, PbEsports, PbPolitics, PbCrypto, PbCulture,
     PbWeather, PbCatOther, PbMentions]"

definition all_bet_types :: "pb_bet_type list" where
  "all_bet_types = [PbBetUnspecified, PbMoneyline, PbSpread, PbOverUnder, PbGameWinner, PbOutright,
     PbSportsProp, PbTempHigh, PbTempLow, PbPrecipitation, PbStorm, PbWeatherOther, PbPriceTarget,
     PbPriceThreshold, PbUpDown, PbCryptoProp, PbElectionWinner, PbFedRateDecision, PbTweetCount,
     PbPoliticsProp, PbAwardWinner, PbMediaMetricRange, PbCultureProp, PbMentionTerm,
     PbMentionCount, PbMentionProp]"

definition sample_enums :: pb_enums where
  "sample_enums =
     \<lparr> event_type_as = number_as all_event_types, event_type_try = number_try all_event_types,
       price_outcome_as = number_as all_price_outcomes, price_outcome_try = number_try all_price_outcomes,
       category_as = number_as all_categories, category_try = number_try all_categories,
       bet_type_as = number_as all_bet_types, bet_type_try = number_try all_bet_types,
       status_hit = 1, status_miss = 2 \<rparr>"

lemma all_listed:
  "e \<in> set all_event_types" "v \<in> set all_price_outcomes" "c \<in> set all_categories"
  "b \<in> set all_bet_types"
     apply (cases e; simp add: all_event_types_def)
    apply (cases v; simp add: all_price_outcomes_def)
   apply (cases c; simp add: all_categories_def)
  apply (cases b; simp add: all_bet_types_def)
  done

lemma sample_enums_ok: "pb_enums_ok sample_enums"
proof -
  have "length all_event_types < 2 ^ 32" "length all_price_outcomes < 2 ^ 32"
    "length all_categories < 2 ^ 32" "length all_bet_types < 2 ^ 32"
    by (simp_all add: all_event_types_def all_price_outcomes_def all_categories_def all_bet_types_def)
  then show ?thesis
    by (simp add: pb_enums_ok_def sample_enums_def number_try_as all_listed)
qed

definition sample_chain :: "u8 \<Rightarrow> u64 \<Rightarrow> chain_log" where
  "sample_chain tx block =
     \<lparr> block_number = block, transaction_hash = replicate 32 tx, log_index = 3,
       upstream_received_at_us = 8, removed = False \<rparr>"

definition sample_request :: "u64 option \<Rightarrow> price_request" where
  "sample_request m =
     \<lparr> requester = replicate 20 6, request_condition_id = replicate 32 10,
       ancillary = \<lparr> question_id = replicate 32 3, anc_market_id = m \<rparr>,
       proposed_price = replicate 32 5 \<rparr>"

definition sample_enrichment :: market_enrichment where
  "sample_enrichment =
     \<lparr> me_market_id = 4, me_condition_id = replicate 32 11, token_ids = [replicate 32 1, replicate 32 2],
       tag_ids = [7], me_category = Sports, me_bet_type = Moneyline, neg_risk = True \<rparr>"

definition sample_record :: "u64 \<Rightarrow> u8 \<Rightarrow> market_enrichment option \<Rightarrow> event_record" where
  "sample_record n tx en =
     \<lparr> sequence = n,
       event = ProposePrice \<lparr> propose_chain = sample_chain tx 10, propose_request = sample_request (Some 4) \<rparr>,
       enrichment = en, price_outcome = Token0 \<rparr>"

lemma sample_record_widths: "record_widths (sample_record n tx (Some sample_enrichment))"
  by (simp add: record_widths_def sample_record_def sample_chain_def sample_request_def sample_enrichment_def)

theorem proto_round_trip_witness:
  "pb_enums_ok sample_enums \<and> record_widths (sample_record 5 1 (Some sample_enrichment)) \<and>
   (\<exists>r'. from_proto sample_enums (to_proto sample_enums (sample_record 5 1 (Some sample_enrichment))) = Some r' \<and>
     to_proto sample_enums r' = to_proto sample_enums (sample_record 5 1 (Some sample_enrichment)) \<and>
     key_of r' = key_of (sample_record 5 1 (Some sample_enrichment)) \<and> sequence r' = 5 \<and>
     price_outcome r' = Token0)"
  using proto_round_trip [OF sample_enums_ok sample_record_widths [of 5 1]] sample_enums_ok
    sample_record_widths [of 5 1]
  by (simp add: sample_record_def)

subsubsection \<open>Prices and decimal strings\<close>

text \<open>
  the outcome of a proposed price is decided by its value alone: 0 is the
  second token, 10 to the 18 the first, half of that a tie, and no other
  256-bit value gives a signal.
\<close>

theorem from_propose_price_value:
  assumes "length price = 32"
  shows "from_propose_price price =
    (if be_nat price = 0 then Token1
     else if be_nat price = 10 ^ 18 then Token0
     else if be_nat price = 5 * 10 ^ 17 then Tie
     else OutcomeUnspecified)"
proof -
  have word: "be_nat (replicate 24 0 @ to_be_bytes 8 (w :: u64)) = unat w" for w
    using be_nat_zero_iff [of "replicate 24 0"]
    by (simp add: be_nat_append be_nat_to_be_bytes)
  have eq: "price = replicate 24 0 @ to_be_bytes 8 (w :: u64) \<longleftrightarrow> be_nat price = unat w" for w
    using be_nat_inj [of price "replicate 24 0 @ to_be_bytes 8 w"] assms word [of w] by auto
  have zero: "list_all (\<lambda>b. b = 0) price \<longleftrightarrow> be_nat price = 0"
    by (simp add: be_nat_zero_iff list_all_iff)
  show ?thesis
    unfolding from_propose_price_def Let_def eq zero by simp
qed

theorem from_propose_price_value_witness:
  "from_propose_price (replicate 24 0 @ to_be_bytes 8 (10 ^ 18 :: u64)) = Token0"
  using from_propose_price_value [of "replicate 24 0 @ to_be_bytes 8 (10 ^ 18 :: u64)"]
    be_nat_zero_iff [of "replicate 24 0"]
  by (simp add: be_nat_append be_nat_to_be_bytes)

text \<open>The value of a decimal numeral, and what makes it canonical.\<close>

definition decimal_value :: "string \<Rightarrow> nat" where
  "decimal_value s = foldl (\<lambda>a c. a * 10 + (of_char c - 48)) 0 s"

definition is_digit :: "char \<Rightarrow> bool" where
  "is_digit c \<longleftrightarrow> 48 \<le> (of_char c :: nat) \<and> (of_char c :: nat) \<le> 57"

definition canonical_decimal :: "string \<Rightarrow> bool" where
  "canonical_decimal s \<longleftrightarrow> list_all is_digit s \<and> s \<noteq> [] \<and> (hd s = CHR ''0'' \<longrightarrow> s = ''0'')"

definition digit_char :: "u8 \<Rightarrow> char" where
  "digit_char b = char_of (unat b)"

lemma digit_byte:
  assumes "unat (r :: u16) < 10"
  shows "unat (48 + ucast r :: u8) = 48 + unat r"
  using assms by (simp add: unat_word_ariths unsigned_ucast_eq take_bit_eq_mod)

lemma decimal_value_snoc: "decimal_value (s @ [c]) = decimal_value s * 10 + (of_char c - 48)"
  by (simp add: decimal_value_def)

lemma decimal_digits_acc:
  "decimal_digits w (ds @ es) = ds @ decimal_digits w es"
proof (induction w es arbitrary: ds rule: decimal_digits.induct)
  case (1 w es)
  then show ?case
    by (subst (1 2) decimal_digits.simps) (auto split: prod.splits)
qed

lemma decimal_digits_step:
  assumes "be_nat w \<noteq> 0"
  obtains q r where "div10_pass 0 w = (q, r)" "be_nat w = be_nat q * 10 + unat r" "unat r < 10"
    "be_nat q < be_nat w" "decimal_digits w [] = (48 + ucast r) # decimal_digits q []"
proof -
  obtain q r where d: "div10_pass 0 w = (q, r)" by (cases "div10_pass 0 w")
  have ex: "list_ex (\<lambda>b. b \<noteq> 0) w"
    using assms by (auto simp: be_nat_zero_iff list_ex_iff)
  have "decimal_digits w [] = decimal_digits q [48 + ucast r]"
    by (subst decimal_digits.simps) (simp add: ex d)
  also have "\<dots> = (48 + ucast r) # decimal_digits q []"
    using decimal_digits_acc [of q "[48 + ucast r]" "[]"] by simp
  finally show ?thesis
    using that [OF d _ _ div10_pass_decreases [OF ex d]] div10_pass_correct [OF _ d] by simp
qed

lemma decimal_digits_correct:
  "decimal_value (map digit_char (rev (decimal_digits w []))) = be_nat w \<and>
   list_all is_digit (map digit_char (rev (decimal_digits w []))) \<and>
   (be_nat w \<noteq> 0 \<longrightarrow> decimal_digits w [] \<noteq> [] \<and> last (decimal_digits w []) \<noteq> 48)"
proof (induction "be_nat w" arbitrary: w rule: less_induct)
  case less
  show ?case
  proof (cases "be_nat w = 0")
    case True
    then have "decimal_digits w [] = []"
      by (subst decimal_digits.simps) (auto simp: be_nat_zero_iff list_ex_iff)
    with True show ?thesis by (simp add: decimal_value_def)
  next
    case False
    obtain q and r :: u16 where w: "be_nat w = be_nat q * 10 + unat r" "unat r < 10" "be_nat q < be_nat w"
      and d: "decimal_digits w [] = (48 + ucast r) # decimal_digits q []"
      using decimal_digits_step [OF False] by blast
    have c: "of_char (digit_char (48 + ucast r)) = 48 + unat r"
      using w(2) by (simp add: digit_char_def digit_byte)
    have z: "be_nat q = 0 \<Longrightarrow> decimal_digits q [] = [] \<and> (48 + ucast r :: u8) \<noteq> 48"
      using w digit_byte [OF w(2)] False
      by (subst decimal_digits.simps) (auto simp: be_nat_zero_iff list_ex_iff)
    note IH = less [OF w(3)]
    have "decimal_value (map digit_char (rev (decimal_digits w []))) = be_nat w"
      using IH w(1) by (simp add: d decimal_value_snoc c)
    moreover have "list_all is_digit (map digit_char (rev (decimal_digits w [])))"
      using IH w(2) by (simp add: d is_digit_def c)
    moreover have "last (decimal_digits w []) \<noteq> 48"
      using IH z by (cases "be_nat q = 0") (auto simp: d)
    ultimately show ?thesis by (simp add: d)
  qed
qed

lemma uint256_decimal_value:
  "canonical_decimal (uint256_decimal v) \<and> decimal_value (uint256_decimal v) = be_nat v"
proof (cases "be_nat v = 0")
  case True
  then show ?thesis
    by (simp add: uint256_decimal_def canonical_decimal_def decimal_value_def is_digit_def
        be_nat_zero_iff list_all_iff)
next
  case False
  then have u: "uint256_decimal v = map digit_char (rev (decimal_digits v []))"
    by (auto simp: uint256_decimal_def be_nat_zero_iff list_all_iff digit_char_def)
  note c = decimal_digits_correct [of v]
  have "hd (uint256_decimal v) = digit_char (last (decimal_digits v []))"
    using c False by (simp add: u hd_map hd_rev)
  moreover have "digit_char (last (decimal_digits v [])) \<noteq> CHR ''0''"
  proof
    assume "digit_char (last (decimal_digits v [])) = CHR ''0''"
    then have "of_char (digit_char (last (decimal_digits v []))) = (48 :: nat)" by simp
    then have "unat (last (decimal_digits v [])) = 48"
      using unat_byte_lt [of "last (decimal_digits v [])"] by (simp add: digit_char_def)
    then have "last (decimal_digits v []) = 48" by (simp add: word_unat_eq_iff)
    with c False show False by simp
  qed
  ultimately show ?thesis
    using c False by (simp add: canonical_decimal_def u)
qed

text \<open>
  C4: the decimal rendering of a 256-bit integer is canonical (digits only, no
  leading zero) and denotes exactly that integer, whatever its 32 bytes are.
\<close>

theorem uint256_decimal_correct:
  "canonical_decimal (uint256_decimal v) \<and> decimal_value (uint256_decimal v) = be_nat v"
  by (rule uint256_decimal_value)

end
