(* ===== verification/Wire.thy ===== *)
theory Wire
  imports Model
begin

text \<open>
  \<open>wire.rs\<close>: the frame a subscriber receives, a twelve-byte header followed by a
  protobuf batch, compressed from a configured size on.  The generated encoder of
  \<open>pb::UmaBatch\<close>, the zstd crate and the clock are parameters.
\<close>

definition MAGIC :: bytes where
  "MAGIC = [85, 77, 65, 49]"

definition HEADER_LEN :: nat where
  "HEADER_LEN = 12"

definition FLAG_ZSTD :: u8 where
  "FLAG_ZSTD = 1"

definition SCHEMA_VERSION :: u8 where
  "SCHEMA_VERSION = 1"

record wire_config =
  zstd_threshold :: nat
  max_decompressed_bytes :: nat

record wire_frame =
  batch_sequence :: u64
  first_sequence :: u64
  last_sequence :: u64
  frame_bytes :: bytes

datatype wire_error = EmptyBatch | Oversized | ZstdFailed

record pb_uma_batch =
  pb_schema_version :: u32
  pb_batch_sequence :: u64
  pb_sent_at_us :: u64
  pb_events :: "pb_uma_event list"

text \<open>What the frame encoder calls outside the repository.\<close>

record wire_env =
  pb_numbers :: pb_enums
  encode_batch :: "pb_uma_batch \<Rightarrow> bytes"
  zstd_encode :: "bytes \<Rightarrow> bytes option"

definition frame_header :: "u8 \<Rightarrow> nat \<Rightarrow> bytes" where
  "frame_header flags payload_len =
     MAGIC @ [flags] @ [SCHEMA_VERSION] @ to_be_bytes 2 (0 :: u16) @ to_be_bytes 4 (of_nat payload_len :: u32)"

definition encode_frame ::
  "wire_env \<Rightarrow> u64 \<Rightarrow> u64 \<Rightarrow> event_record list \<Rightarrow> wire_config \<Rightarrow> wire_error + wire_frame" where
  "encode_frame E now bseq events config =
     (case events of
        [] \<Rightarrow> Inl EmptyBatch
      | _ \<Rightarrow>
          (let first = sequence (hd events);
               last = sequence (last events);
               batch = \<lparr> pb_schema_version = ucast SCHEMA_VERSION, pb_batch_sequence = bseq,
                         pb_sent_at_us = now, pb_events = map (to_proto (pb_numbers E)) events \<rparr>;
               payload = encode_batch E batch
           in if length payload > max_decompressed_bytes config then Inl Oversized
              else case (if length payload \<ge> zstd_threshold config
                         then map_option (\<lambda>body. (FLAG_ZSTD, body)) (zstd_encode E payload)
                         else Some (0, payload)) of
                     None \<Rightarrow> Inl ZstdFailed
                   | Some (flags, body) \<Rightarrow>
                       Inr \<lparr> batch_sequence = bseq, first_sequence = first, last_sequence = last,
                             frame_bytes = frame_header flags (length payload) @ body \<rparr>))"

lemma length_frame_header [simp]: "length (frame_header flags n) = HEADER_LEN"
  by (simp add: frame_header_def MAGIC_def HEADER_LEN_def)

lemma encode_frame_Inr:
  assumes "encode_frame E now b evs cfg = Inr f"
  shows "evs \<noteq> []" "batch_sequence f = b" "first_sequence f = sequence (hd evs)"
    "last_sequence f = sequence (last evs)"
  using assms by (auto simp: encode_frame_def Let_def split: list.splits if_splits option.splits)

end
