(* ===== verification/Ring_Queue.thy ===== *)
theory Ring_Queue
  imports Uma_Prelude
begin

text \<open>
  The contract shared by every bounded queue of the program: the event ring and
  the frame ring of \<open>hub.rs\<close>, the edge's replay ring, the console's feed, the
  window of recent enrichment results and the journal loaded at start.  A queue
  admits an element or leaves its state alone; an admitted element goes to the
  back, and the oldest elements beyond the capacity go.
\<close>

fun admitted :: "('a \<Rightarrow> 's \<Rightarrow> bool) \<Rightarrow> ('a \<Rightarrow> 's \<Rightarrow> 's) \<Rightarrow> 's \<Rightarrow> 'a list \<Rightarrow> 'a list" where
  "admitted acc psh s [] = []"
| "admitted acc psh s (x # xs) =
     (if acc x s then x # admitted acc psh (psh x s) xs else admitted acc psh s xs)"

lemma admitted_all: "(\<And>x s. acc x s) \<Longrightarrow> admitted acc psh s xs = xs"
  by (induction xs arbitrary: s) auto

locale bounded_ring =
  fixes items :: "'s \<Rightarrow> 'a list"
    and capacity_of :: "'s \<Rightarrow> nat"
    and accepts :: "'a \<Rightarrow> 's \<Rightarrow> bool"
    and psh :: "'a \<Rightarrow> 's \<Rightarrow> 's"
    and invar :: "'s \<Rightarrow> bool"
  assumes invar_length: "invar s \<Longrightarrow> length (items s) \<le> capacity_of s"
    and invar_psh: "invar s \<Longrightarrow> invar (psh x s)"
    and capacity_psh: "capacity_of (psh x s) = capacity_of s"
    and items_accepted:
      "\<lbrakk> invar s; accepts x s \<rbrakk> \<Longrightarrow> items (psh x s) = take_last (capacity_of s) (items s @ [x])"
    and psh_refused: "\<not> accepts x s \<Longrightarrow> psh x s = s"
begin

lemma invar_fold: "invar s \<Longrightarrow> invar (fold psh xs s)"
  by (induction xs arbitrary: s) (auto intro: invar_psh)

lemma capacity_fold: "capacity_of (fold psh xs s) = capacity_of s"
  by (induction xs arbitrary: s) (auto simp: capacity_psh)

text \<open>A queue always holds exactly the newest elements it admitted, in order.\<close>

lemma items_fold:
  "invar s \<Longrightarrow>
   items (fold psh xs s) = take_last (capacity_of s) (items s @ admitted accepts psh s xs)"
proof (induction xs arbitrary: s)
  case Nil
  then show ?case by (simp add: take_last_all invar_length)
next
  case (Cons x xs)
  show ?case
  proof (cases "accepts x s")
    case True
    have "items (fold psh xs (psh x s))
        = take_last (capacity_of s) (take_last (capacity_of s) (items s @ [x]) @ admitted accepts psh (psh x s) xs)"
      using Cons.IH [OF invar_psh [OF Cons.prems]] items_accepted [OF Cons.prems True]
      by (simp add: capacity_psh)
    with True show ?thesis by (simp add: take_last_append_take_last)
  next
    case False
    with Cons show ?thesis by (simp add: psh_refused)
  qed
qed

lemma fold_bounded: "invar s \<Longrightarrow> length (items (fold psh xs s)) \<le> capacity_of s"
  using invar_length [OF invar_fold] capacity_fold by metis

text \<open>An admitted element stays until a full capacity of newer ones was admitted.\<close>

lemma retained:
  assumes "invar s" "accepts x s" "length (admitted accepts psh (psh x s) xs) < capacity_of s"
  shows "x \<in> set (items (fold psh xs (psh x s)))"
proof -
  have "items (fold psh (x # xs) s)
      = take_last (capacity_of s) (items s @ x # admitted accepts psh (psh x s) xs)"
    using items_fold [OF assms(1), of "x # xs"] assms(2) by simp
  with in_take_last [OF assms(3)] show ?thesis by simp
qed

end

text \<open>The loop \<open>while len > cap { pop_front }\<close> and the test \<open>if len == cap { pop_front }\<close>.\<close>

fun pop_while_over :: "nat \<Rightarrow> 'a list \<Rightarrow> 'a list" where
  "pop_while_over cap [] = []"
| "pop_while_over cap (x # xs) = (if length (x # xs) > cap then pop_while_over cap xs else x # xs)"

lemma pop_while_over [ring_simps]: "pop_while_over cap xs = take_last cap xs"
  by (induction xs) (auto simp: take_last_def Suc_diff_le)

end
