(* ===== verification/Hub.thy ===== *)
theory Hub
  imports Wire Ring_Queue
begin

text \<open>
  \<open>hub.rs\<close>: the ring of decoded events with its deduplication keys, and the ring
  of encoded frames with the replay floor that tells a cursor that missed frames
  from one that missed nothing.  The value of each \<open>watch\<close> channel is a field.
\<close>

subsection \<open>EventHub\<close>

record event_hub =
  eh_capacity :: nat
  eh_events :: "event_record list"
  eh_keys :: "event_key set"
  eh_latest :: u64

definition event_hub_new :: "nat \<Rightarrow> event_hub" where
  "event_hub_new capacity = \<lparr> eh_capacity = max capacity 1, eh_events = [], eh_keys = {}, eh_latest = 0 \<rparr>"

definition event_hub_contains :: "event_key \<Rightarrow> event_hub \<Rightarrow> bool" where
  "event_hub_contains key h \<longleftrightarrow> key \<in> eh_keys h"

fun evict_events :: "nat \<Rightarrow> event_record list \<Rightarrow> event_key set \<Rightarrow> event_record list \<times> event_key set" where
  "evict_events cap [] keys = ([], keys)"
| "evict_events cap (e # es) keys =
     (if length (e # es) > cap then evict_events cap es (keys - {key_of e}) else (e # es, keys))"

definition event_hub_insert :: "event_record \<Rightarrow> event_hub \<Rightarrow> bool \<times> event_hub" where
  "event_hub_insert e h =
     (if key_of e \<in> eh_keys h then (False, h)
      else let (events, keys) = evict_events (eh_capacity h) (eh_events h @ [e]) (insert (key_of e) (eh_keys h))
           in (True, h\<lparr> eh_events := events, eh_keys := keys, eh_latest := sequence e \<rparr>))"

definition event_hub_bounds :: "event_hub \<Rightarrow> u64 \<times> u64" where
  "event_hub_bounds h =
     (case eh_events h of [] \<Rightarrow> (0, 0)
      | _ \<Rightarrow> (sequence (hd (eh_events h)), sequence (last (eh_events h))))"

definition event_hub_snapshot :: "event_hub \<Rightarrow> event_record list" where
  "event_hub_snapshot h = eh_events h"

subsection \<open>FrameHub\<close>

datatype frame_read_error = Lagged

record frame_hub =
  fh_capacity :: nat
  fh_frames :: "wire_frame list"
  replay_floor :: u64
  fh_latest :: u64

definition resuming_after :: "nat \<Rightarrow> u64 \<Rightarrow> frame_hub" where
  "resuming_after capacity last_broadcast =
     \<lparr> fh_capacity = max capacity 1, fh_frames = [], replay_floor = last_broadcast, fh_latest = 0 \<rparr>"

definition frame_hub_new :: "nat \<Rightarrow> frame_hub" where
  "frame_hub_new capacity = resuming_after capacity 0"

fun evict_frames :: "nat \<Rightarrow> wire_frame list \<Rightarrow> u64 \<Rightarrow> wire_frame list \<times> u64" where
  "evict_frames cap [] floor = ([], floor)"
| "evict_frames cap (f # fs) floor =
     (if length (f # fs) > cap then evict_frames cap fs (max floor (last_sequence f)) else (f # fs, floor))"

definition publish :: "wire_frame \<Rightarrow> frame_hub \<Rightarrow> frame_hub" where
  "publish frame h =
     (let (frames, floor) = evict_frames (fh_capacity h) (fh_frames h @ [frame]) (replay_floor h)
      in h\<lparr> fh_frames := frames, replay_floor := floor, fh_latest := last_sequence frame \<rparr>)"

definition frames_after :: "u64 \<Rightarrow> frame_hub \<Rightarrow> frame_read_error + wire_frame list" where
  "frames_after seq h =
     (if 0 < seq \<and> seq < replay_floor h then Inl Lagged
      else Inr (filter (\<lambda>f. last_sequence f > seq) (fh_frames h)))"

subsection \<open>The event ring keeps the newest distinct events\<close>

definition event_hub_ok :: "event_hub \<Rightarrow> bool" where
  "event_hub_ok h \<longleftrightarrow> 0 < eh_capacity h \<and> length (eh_events h) \<le> eh_capacity h \<and>
     eh_keys h = key_of ` set (eh_events h) \<and> distinct (map key_of (eh_events h))"

lemma event_hub_new_ok [simp]: "event_hub_ok (event_hub_new cap)"
  by (simp add: event_hub_ok_def event_hub_new_def)

lemma evict_events_eq:
  "distinct (map key_of es) \<Longrightarrow> evict_events cap es (key_of ` set es)
     = (take_last cap es, key_of ` set (take_last cap es))"
proof (induction es)
  case (Cons e es)
  show ?case
  proof (cases "length (e # es) > cap")
    case True
    then have "take_last cap (e # es) = take_last cap es"
      by (simp add: take_last_def Suc_diff_le)
    moreover have "insert (key_of e) (key_of ` set es) - {key_of e} = key_of ` set es"
      using Cons.prems by auto
    ultimately show ?thesis using True Cons by simp
  qed (simp add: take_last_def)
qed simp

lemma event_hub_insert_fresh:
  assumes "event_hub_ok h" "key_of e \<notin> eh_keys h"
  shows "event_hub_insert e h = (True, h\<lparr> eh_events := take_last (eh_capacity h) (eh_events h @ [e]),
      eh_keys := key_of ` set (take_last (eh_capacity h) (eh_events h @ [e])), eh_latest := sequence e \<rparr>)"
proof -
  have "evict_events (eh_capacity h) (eh_events h @ [e]) (insert (key_of e) (eh_keys h))
      = (take_last (eh_capacity h) (eh_events h @ [e]), key_of ` set (take_last (eh_capacity h) (eh_events h @ [e])))"
    using assms evict_events_eq [of "eh_events h @ [e]"] by (auto simp: event_hub_ok_def)
  with assms(2) show ?thesis by (simp add: event_hub_insert_def)
qed

lemma event_hub_insert_known: "key_of e \<in> eh_keys h \<Longrightarrow> event_hub_insert e h = (False, h)"
  by (simp add: event_hub_insert_def)

lemmas event_hub_insert_cases = event_hub_insert_fresh event_hub_insert_known

lemma event_hub_insert_ok: "event_hub_ok h \<Longrightarrow> event_hub_ok (snd (event_hub_insert e h))"
proof (cases "key_of e \<in> eh_keys h")
  case False
  assume ok: "event_hub_ok h"
  let ?es = "take_last (eh_capacity h) (eh_events h @ [e])"
  have "distinct (map key_of ?es)"
    unfolding map_take_last using ok False
    by (intro distinct_take_last) (auto simp: event_hub_ok_def)
  with ok False show ?thesis
    by (simp add: event_hub_insert_fresh) (simp add: event_hub_ok_def)
qed (simp add: event_hub_insert_known)

lemma event_hub_ok_length: "event_hub_ok h \<Longrightarrow> length (eh_events h) \<le> eh_capacity h"
  by (simp add: event_hub_ok_def)

lemma eh_capacity_insert [simp]: "eh_capacity (snd (event_hub_insert e h)) = eh_capacity h"
  by (simp add: event_hub_insert_def split: prod.splits)

interpretation eh: bounded_ring eh_events eh_capacity "\<lambda>e h. \<not> event_hub_contains (key_of e) h"
  "\<lambda>e h. snd (event_hub_insert e h)" event_hub_ok
  by unfold_locales
    (auto simp: event_hub_ok_length event_hub_insert_ok event_hub_contains_def event_hub_insert_cases)

text \<open>
  C2: over any sequence of inserts the event hub answers \<open>true\<close> exactly for events
  whose key is not among the retained ones, holds at most its capacity, holds no
  key twice, and \<open>contains\<close> is membership among the retained events.
\<close>

theorem event_hub_deduplicates:
  assumes "h = fold (\<lambda>e h. snd (event_hub_insert e h)) es (event_hub_new cap)"
  shows "(fst (event_hub_insert e h) \<longleftrightarrow> key_of e \<notin> key_of ` set (event_hub_snapshot h)) \<and>
    length (event_hub_snapshot h) \<le> max cap 1 \<and>
    distinct (map key_of (event_hub_snapshot h)) \<and>
    (event_hub_contains k h \<longleftrightarrow> k \<in> key_of ` set (event_hub_snapshot h)) \<and>
    suffix (event_hub_snapshot h)
      (admitted (\<lambda>e h. \<not> event_hub_contains (key_of e) h) (\<lambda>e h. snd (event_hub_insert e h))
        (event_hub_new cap) es)"
proof (intro conjI)
  have ok: "event_hub_ok h" unfolding assms by (rule eh.invar_fold) simp
  then show "distinct (map key_of (event_hub_snapshot h))"
      and "event_hub_contains k h \<longleftrightarrow> k \<in> key_of ` set (event_hub_snapshot h)"
    by (simp_all add: event_hub_ok_def event_hub_snapshot_def event_hub_contains_def)
  show "fst (event_hub_insert e h) \<longleftrightarrow> key_of e \<notin> key_of ` set (event_hub_snapshot h)"
    using ok event_hub_insert_fresh [of h e] event_hub_insert_known [of e h]
    by (cases "key_of e \<in> eh_keys h") (auto simp: event_hub_ok_def event_hub_snapshot_def)
  show "length (event_hub_snapshot h) \<le> max cap 1"
    using eh.fold_bounded [OF event_hub_new_ok, of es cap] unfolding assms
    by (simp add: event_hub_snapshot_def event_hub_new_def)
  show "suffix (event_hub_snapshot h)
           (admitted (\<lambda>e h. \<not> event_hub_contains (key_of e) h) (\<lambda>e h. snd (event_hub_insert e h))
             (event_hub_new cap) es)"
    unfolding assms event_hub_snapshot_def eh.items_fold [OF event_hub_new_ok]
    by (simp add: event_hub_new_def)
qed

text \<open>An event just accepted is found again until \<open>cap\<close> newer ones were accepted.\<close>

lemma event_hub_remembers:
  assumes "event_hub_ok h" "\<not> event_hub_contains (key_of e) h" "length es < eh_capacity h"
  shows "event_hub_contains (key_of e) (fold (\<lambda>e h. snd (event_hub_insert e h)) es (snd (event_hub_insert e h)))"
proof -
  let ?acc = "\<lambda>e h. \<not> event_hub_contains (key_of e) h" and ?psh = "\<lambda>e h. snd (event_hub_insert e h)"
  have "length (admitted ?acc ?psh s xs) \<le> length xs" for s and xs :: "event_record list"
    by (induction xs arbitrary: s) (auto simp: le_SucI)
  with assms(3) have "length (admitted ?acc ?psh (?psh e h) es) < eh_capacity h"
    by (metis le_less_trans)
  then have "e \<in> set (eh_events (fold ?psh es (?psh e h)))"
    by (rule eh.retained [OF assms(1,2)])
  moreover have "event_hub_ok (fold ?psh es (?psh e h))"
    by (rule eh.invar_fold) (rule event_hub_insert_ok [OF assms(1)])
  ultimately show ?thesis by (simp add: event_hub_ok_def event_hub_contains_def)
qed

subsection \<open>The frame ring answers a cursor exactly\<close>

lemma evict_frames_eq:
  "evict_frames cap fs floor =
     (take_last cap fs, fold (\<lambda>f m. max m (last_sequence f)) (take (length fs - cap) fs) floor)"
proof (induction fs arbitrary: floor)
  case (Cons f fs)
  show ?case
  proof (cases "length (f # fs) > cap")
    case True
    then have "length (f # fs) - cap = Suc (length fs - cap)" by simp
    with True Cons show ?thesis by (simp add: take_last_def)
  qed (simp add: take_last_def)
qed simp

definition frame_hub_ok :: "frame_hub \<Rightarrow> bool" where
  "frame_hub_ok h \<longleftrightarrow> 0 < fh_capacity h \<and> length (fh_frames h) \<le> fh_capacity h"

lemma publish_simps [ring_simps]:
  "fh_capacity (publish f h) = fh_capacity h"
  "fh_frames (publish f h) = take_last (fh_capacity h) (fh_frames h @ [f])"
  "replay_floor (publish f h) = fold (\<lambda>f m. max m (last_sequence f))
     (take (Suc (length (fh_frames h)) - fh_capacity h) (fh_frames h @ [f])) (replay_floor h)"
  "fh_latest (publish f h) = last_sequence f"
  by (simp_all add: publish_def evict_frames_eq)

interpretation fh: bounded_ring fh_frames fh_capacity "\<lambda>_ _. True" publish frame_hub_ok
  by unfold_locales (auto simp: frame_hub_ok_def ring_simps)

lemma resuming_after_ok [simp]: "frame_hub_ok (resuming_after cap n)"
  by (simp add: frame_hub_ok_def resuming_after_def)

lemma fh_frames_fold:
  "fh_frames (fold publish fs (resuming_after cap n)) = take_last (max cap 1) fs"
  using fh.items_fold [OF resuming_after_ok, of fs cap n]
  by (simp add: admitted_all resuming_after_def)

text \<open>The floor is the newest sequence that was broadcast and is gone.\<close>

abbreviation raise_floor :: "wire_frame list \<Rightarrow> u64 \<Rightarrow> u64" where
  "raise_floor \<equiv> fold (\<lambda>f m. max m (last_sequence f))"

lemma evict_in_two_steps:
  "take (length xs - c) xs @ take (length (take_last c xs @ ys) - c) (take_last c xs @ ys)
     = take (length (xs @ ys) - c) (xs @ ys)"
proof -
  let ?k = "length xs - c" and ?j = "length (take_last c xs @ ys) - c"
  have "length (xs @ ys) - c = ?k + ?j" by (simp add: min_def)
  then have "take (length (xs @ ys) - c) (xs @ ys) = take ?k (xs @ ys) @ take ?j (drop ?k (xs @ ys))"
    by (simp only: take_add)
  moreover have "take ?k (xs @ ys) = take ?k xs" "drop ?k (xs @ ys) = take_last c xs @ ys"
    by (simp_all add: take_last_def)
  ultimately show ?thesis by (simp only:)
qed

lemma replay_floor_fold_from:
  "replay_floor (fold publish fs h) =
     raise_floor (take (length (fh_frames h @ fs) - fh_capacity h) (fh_frames h @ fs)) (replay_floor h)"
  if "frame_hub_ok h"
  using that
proof (induction fs arbitrary: h)
  case Nil
  then show ?case by (simp add: frame_hub_ok_def)
next
  case (Cons f fs)
  let ?xs = "fh_frames h @ [f]" and ?c = "fh_capacity h"
  have "replay_floor (fold publish (f # fs) h) =
      raise_floor (take (length (take_last ?c ?xs @ fs) - ?c) (take_last ?c ?xs @ fs))
        (raise_floor (take (length ?xs - ?c) ?xs) (replay_floor h))"
    using Cons.IH [OF fh.invar_psh [OF Cons.prems]] by (simp add: publish_simps)
  also have "\<dots> = raise_floor (take (length ?xs - ?c) ?xs @
      take (length (take_last ?c ?xs @ fs) - ?c) (take_last ?c ?xs @ fs)) (replay_floor h)"
    by (simp only: fold_append o_apply)
  finally show ?case
    by (simp only: evict_in_two_steps append_assoc append_Cons append_Nil)
qed

lemma replay_floor_fold:
  "replay_floor (fold publish fs (resuming_after cap n)) = raise_floor (take (length fs - max cap 1) fs) n"
  using replay_floor_fold_from [OF resuming_after_ok, of fs cap n] by (simp add: resuming_after_def)

lemma less_raise_floor: "s < raise_floor fs n \<longleftrightarrow> s < n \<or> (\<exists>f\<in>set fs. s < last_sequence f)"
  by (induction fs arbitrary: n) (auto simp: less_max_iff_disj)

lemma frames_after_read:
  assumes "h = fold publish fs (resuming_after cap recovered)" "0 < seq"
  shows "frames_after seq h =
      (if seq < recovered \<or> (\<exists>f\<in>set (take (length fs - max cap 1) fs). seq < last_sequence f)
       then Inl Lagged else Inr (filter (\<lambda>f. seq < last_sequence f) fs)) \<and>
    frames_after 0 h = Inr (filter (\<lambda>f. 0 < last_sequence f) (take_last (max cap 1) fs))"
proof (intro conjI)
  let ?gone = "take (length fs - max cap 1) fs"
  have "filter (\<lambda>f. seq < last_sequence f) fs = filter (\<lambda>f. seq < last_sequence f) (take_last (max cap 1) fs)"
    if "\<forall>f\<in>set ?gone. \<not> seq < last_sequence f"
    using that take_last_drops [of fs "max cap 1"]
    by (metis append_Nil filter_append filter_False)
  then show "frames_after seq h =
    (if seq < recovered \<or> (\<exists>f\<in>set ?gone. seq < last_sequence f)
     then Inl Lagged else Inr (filter (\<lambda>f. seq < last_sequence f) fs))"
    using assms by (auto simp: frames_after_def fh_frames_fold replay_floor_fold less_raise_floor)
  show "frames_after 0 h = Inr (filter (\<lambda>f. 0 < last_sequence f) (take_last (max cap 1) fs))"
    by (simp add: frames_after_def assms(1) fh_frames_fold)
qed

text \<open>
  C1: reading after a cursor is exact.  Whatever frames were published, a cursor
  is refused precisely when some frame past it was broadcast and is gone (evicted
  here, or sent by the previous process); otherwise it receives every frame past
  it that was ever published, in order.  Cursor 0 receives what the ring has.
\<close>

theorem frames_after_exact:
  assumes "h = fold publish fs (resuming_after cap recovered)" "0 < seq"
  shows "frames_after seq h =
      (if seq < recovered \<or> (\<exists>f\<in>set (take (length fs - max cap 1) fs). seq < last_sequence f)
       then Inl Lagged else Inr (filter (\<lambda>f. seq < last_sequence f) fs)) \<and>
    frames_after 0 h = Inr (filter (\<lambda>f. 0 < last_sequence f) (take_last (max cap 1) fs))"
  by (rule frames_after_read [OF assms])

definition sample_frame :: "u64 \<Rightarrow> u64 \<Rightarrow> wire_frame" where
  "sample_frame b n = \<lparr> batch_sequence = b, first_sequence = n, last_sequence = n, frame_bytes = [] \<rparr>"

theorem event_hub_deduplicates_witness:
  "fst (event_hub_insert (sample_record 9 1 None)
      (fold (\<lambda>e h. snd (event_hub_insert e h)) [sample_record 1 1 None, sample_record 2 2 None] (event_hub_new 5)))
   \<longleftrightarrow> key_of (sample_record 9 1 None) \<notin> key_of ` set (event_hub_snapshot
      (fold (\<lambda>e h. snd (event_hub_insert e h)) [sample_record 1 1 None, sample_record 2 2 None] (event_hub_new 5)))"
  using event_hub_deduplicates [OF refl] by (rule conjunct1)

theorem frames_after_exact_witness:
  "(0::u64) < 2 \<and>
   frames_after 2 (fold publish [sample_frame 1 1, sample_frame 2 2, sample_frame 3 5] (resuming_after 2 0))
     = Inr [sample_frame 3 5] \<and>
   frames_after 1 (fold publish [sample_frame 1 1, sample_frame 2 2, sample_frame 3 5] (resuming_after 1 0))
     = Inl Lagged"
  using frames_after_exact [OF refl, of 2 "[sample_frame 1 1, sample_frame 2 2, sample_frame 3 5]" 2 0]
    frames_after_exact [OF refl, of 1 "[sample_frame 1 1, sample_frame 2 2, sample_frame 3 5]" 1 0]
  by (simp add: sample_frame_def)

end
