(* ===== verification/Uma_Events.thy ===== *)
theory Uma_Events
  imports Model
begin

text \<open>
  \<open>uma/events\<close>: decoding a \<open>ProposePrice\<close> or \<open>DisputePrice\<close> log into an event.
  Slices are read with the 64-bit offsets of the code, whose additions wrap in a
  release build.  The hex and Keccak crates are parameters (\<open>crypto\<close>); UTF-8
  validation, number parsing and string search are the standard library's and
  are written out.  A Rust string is the list of its bytes.
\<close>

record crypto =
  hex_encode :: "bytes \<Rightarrow> string"
  hex_decode :: "string \<Rightarrow> bytes option"
  keccak256 :: "bytes \<Rightarrow> bytes"

text \<open>What the two crates document.\<close>

definition crypto_ok :: "crypto \<Rightarrow> bool" where
  "crypto_ok C \<longleftrightarrow>
     (\<forall>bs. hex_decode C (hex_encode C bs) = Some bs) \<and>
     (\<forall>bs c. c \<in> set (hex_encode C bs) \<longrightarrow> c \<noteq> CHR ''x'') \<and>
     (\<forall>bs. length (keccak256 C bs) = 32)"

subsection \<open>Logs and errors\<close>

definition TOPIC_PROPOSE_PRICE :: string where
  "TOPIC_PROPOSE_PRICE = ''0x6e51dd00371aabffa82cd401592f76ed51e98a9ea4b58751c70463a2c78b5ca1''"

definition TOPIC_DISPUTE_PRICE :: string where
  "TOPIC_DISPUTE_PRICE = ''0x5165909c3d1c01c5d1e121ac6f6d01dda1ba24bc9e1f975b5a375339c15be7f3''"

record rpc_log =
  log_address :: string
  log_topics :: "string list"
  log_data :: string
  log_block_number :: string
  log_block_hash :: string
  log_transaction_hash :: string
  log_transaction_index :: "string option"
  log_log_index :: string
  log_removed :: bool

datatype decode_error =
    Emitter | Topic | Hex string | Number string | ShortData | DynamicOffset
  | AncillaryUtf8 | MissingMarketId

subsection \<open>Standard library: slices, prefixes, numbers, UTF-8\<close>

text \<open>\<open>slice.get(a..b)\<close>: none when the range is reversed or runs past the end.\<close>

definition slice_get :: "'a list \<Rightarrow> u64 \<Rightarrow> u64 \<Rightarrow> 'a list option" where
  "slice_get data a b =
     (if a \<le> b \<and> unat b \<le> length data then Some (take (unat b - unat a) (drop (unat a) data)) else None)"

definition strip_prefix :: "'a list \<Rightarrow> 'a list \<Rightarrow> 'a list option" where
  "strip_prefix p s = (if take (length p) s = p then Some (drop (length p) s) else None)"

definition strip_0x :: "string \<Rightarrow> string" where
  "strip_0x value =
     (case strip_prefix ''0x'' value of
        Some r \<Rightarrow> r
      | None \<Rightarrow> (case strip_prefix ''0X'' value of Some r \<Rightarrow> r | None \<Rightarrow> value))"

text \<open>\<open>trim_start_matches\<close> removes the pattern as often as it occurs.\<close>

fun trim_start_0x :: "string \<Rightarrow> string" where
  "trim_start_0x (c # d # s) = (if c = CHR ''0'' \<and> d = CHR ''x'' then trim_start_0x s else c # d # s)"
| "trim_start_0x s = s"

definition to_ascii_lowercase :: "string \<Rightarrow> string" where
  "to_ascii_lowercase s =
     map (\<lambda>c. if 65 \<le> (of_char c :: nat) \<and> (of_char c :: nat) \<le> 90 then char_of ((of_char c :: nat) + 32) else c) s"

definition hex_digit :: "char \<Rightarrow> nat option" where
  "hex_digit c =
     (let n = of_char c :: nat
      in if 48 \<le> n \<and> n \<le> 57 then Some (n - 48)
         else if 97 \<le> n \<and> n \<le> 102 then Some (n - 87)
         else if 65 \<le> n \<and> n \<le> 70 then Some (n - 55)
         else None)"

text \<open>\<open>from_str_radix\<close> and \<open>parse\<close> for \<open>u64\<close>: digits only after one optional plus sign, no overflow.\<close>

fun radix_digits :: "nat \<Rightarrow> (char \<Rightarrow> nat option) \<Rightarrow> nat \<Rightarrow> string \<Rightarrow> nat option" where
  "radix_digits base digit acc [] = Some acc"
| "radix_digits base digit acc (c # cs) =
     (case digit c of
        None \<Rightarrow> None
      | Some d \<Rightarrow> if acc * base + d < 2 ^ 64 then radix_digits base digit (acc * base + d) cs else None)"

definition u64_from_str :: "nat \<Rightarrow> (char \<Rightarrow> nat option) \<Rightarrow> string \<Rightarrow> u64 option" where
  "u64_from_str base digit s =
     (let ds = (if s \<noteq> [] \<and> hd s = CHR ''+'' then tl s else s)
      in if ds = [] then None else map_option of_nat (radix_digits base digit 0 ds))"

definition dec_digit :: "char \<Rightarrow> nat option" where
  "dec_digit c = (let n = of_char c :: nat in if 48 \<le> n \<and> n \<le> 57 then Some (n - 48) else None)"

text \<open>\<open>std::str::from_utf8\<close>: the well-formed byte sequences of the Unicode standard.\<close>

definition byte_in :: "nat \<Rightarrow> nat \<Rightarrow> u8 \<Rightarrow> bool" where
  "byte_in lo hi b \<longleftrightarrow> lo \<le> unat b \<and> unat b \<le> hi"

fun utf8_tail :: "bytes \<Rightarrow> bytes option" where
  "utf8_tail [] = None"
| "utf8_tail (b # bs) = (if byte_in 0x80 0xBF b then Some bs else None)"

definition utf8_second :: "u8 \<Rightarrow> u8 \<Rightarrow> bool" where
  "utf8_second a b \<longleftrightarrow>
     (if unat a = 0xE0 then byte_in 0xA0 0xBF b
      else if unat a = 0xED then byte_in 0x80 0x9F b
      else if unat a = 0xF0 then byte_in 0x90 0xBF b
      else if unat a = 0xF4 then byte_in 0x80 0x8F b
      else byte_in 0x80 0xBF b)"

fun utf8_char :: "bytes \<Rightarrow> bytes option" where
  "utf8_char [] = None"
| "utf8_char [a] = (if byte_in 0 0x7F a then Some [] else None)"
| "utf8_char (a # b # bs) =
     (if byte_in 0 0x7F a then Some (b # bs)
      else if \<not> utf8_second a b then None
      else if byte_in 0xC2 0xDF a then Some bs
      else if byte_in 0xE0 0xEF a then utf8_tail bs
      else if byte_in 0xF0 0xF4 a then Option.bind (utf8_tail bs) utf8_tail
      else None)"

lemma utf8_tail_shorter: "utf8_tail bs = Some r \<Longrightarrow> length r < length bs"
  by (cases bs) (auto split: if_splits)

lemma utf8_char_shorter: "utf8_char bs = Some r \<Longrightarrow> length r < length bs"
  by (cases bs rule: utf8_char.cases)
    (auto split: if_splits Option.bind_splits dest!: utf8_tail_shorter)

function utf8_valid :: "bytes \<Rightarrow> bool" where
  "utf8_valid bs =
     (if bs = [] then True else case utf8_char bs of None \<Rightarrow> False | Some r \<Rightarrow> utf8_valid r)"
  by pat_completeness auto
termination utf8_valid
  by (relation "measure length") (auto dest: utf8_char_shorter)

declare utf8_valid.simps [simp del]

subsection \<open>Hex fields\<close>

definition decode_hex :: "crypto \<Rightarrow> string \<Rightarrow> string \<Rightarrow> decode_error + bytes" where
  "decode_hex C value field = ok_or (hex_decode C (strip_0x value)) (Hex field)"

definition decode_fixed :: "crypto \<Rightarrow> nat \<Rightarrow> string \<Rightarrow> string \<Rightarrow> decode_error + bytes" where
  "decode_fixed C n value field =
     and_then (decode_hex C value field) (\<lambda>bs. ok_or (fixed n bs) (Hex field))"

definition parse_hex_u64 :: "string \<Rightarrow> string \<Rightarrow> decode_error + u64" where
  "parse_hex_u64 value field = ok_or (u64_from_str 16 hex_digit (strip_0x value)) (Number field)"

subsection \<open>ABI words\<close>

definition abi_word :: "bytes \<Rightarrow> nat \<Rightarrow> bytes" where
  "abi_word data index = take 32 (drop (index * 32) data)"

definition word_u64 :: "bytes \<Rightarrow> nat \<Rightarrow> string \<Rightarrow> decode_error + u64" where
  "word_u64 data index field =
     (let value = abi_word data index
      in if list_ex (\<lambda>b. b \<noteq> 0) (take 24 value) then Inl (Number field)
         else Inr (of_nat (be_nat (drop 24 value))))"

definition dynamic_word :: "bytes \<Rightarrow> nat \<Rightarrow> decode_error + bytes" where
  "dynamic_word data index =
     and_then (word_u64 data index ''dynamic offset'') (\<lambda>offset.
     and_then (ok_or (slice_get data offset (offset + 32)) DynamicOffset) (\<lambda>length_word.
       if list_ex (\<lambda>b. b \<noteq> 0) (take 24 length_word) then Inl DynamicOffset
       else (let len = of_nat (be_nat (drop 24 length_word)) :: u64
             in ok_or (slice_get data (offset + 32) (offset + 32 + len)) DynamicOffset)))"

definition topic_address :: "crypto \<Rightarrow> string \<Rightarrow> decode_error + bytes" where
  "topic_address C value = and_then (decode_fixed C 32 value ''topic'') (\<lambda>topic. Inr (drop 12 topic))"

definition derive_binary_condition_id :: "crypto \<Rightarrow> bytes \<Rightarrow> bytes \<Rightarrow> bytes" where
  "derive_binary_condition_id C req qid = keccak256 C (req @ qid @ replicate 31 0 @ [2])"

subsection \<open>Ancillary data\<close>

definition is_ascii_whitespace :: "u8 \<Rightarrow> bool" where
  "is_ascii_whitespace b \<longleftrightarrow> unat b \<in> {32, 9, 10, 12, 13}"

definition is_ascii_digit :: "u8 \<Rightarrow> bool" where
  "is_ascii_digit b \<longleftrightarrow> byte_in 48 57 b"

definition str_bytes :: "string \<Rightarrow> bytes" where
  "str_bytes s = map (\<lambda>c. of_nat (of_char c)) s"

text \<open>\<open>match_indices\<close>: the non-overlapping occurrences, from the left.\<close>

function match_indices_from :: "nat \<Rightarrow> bytes \<Rightarrow> bytes \<Rightarrow> nat list" where
  "match_indices_from i needle text =
     (if text = [] \<or> needle = [] then []
      else if take (length needle) text = needle
           then i # match_indices_from (i + length needle) needle (drop (length needle) text)
           else match_indices_from (Suc i) needle (tl text))"
  by pat_completeness auto
termination match_indices_from
  by (relation "measure (\<lambda>(_, _, t). length t)") (auto simp: neq_Nil_conv)

declare match_indices_from.simps [simp del]

definition find_key :: "bytes \<Rightarrow> string \<Rightarrow> nat option" where
  "find_key text key =
     find (\<lambda>index. index = 0 \<or> is_ascii_whitespace (text ! (index - 1)) \<or> text ! (index - 1) = 44)
       (match_indices_from 0 (str_bytes (key @ '':'')) text)"

definition value_start :: "bytes \<Rightarrow> nat \<Rightarrow> string \<Rightarrow> nat" where
  "value_start text index key =
     (let start = index + length key + 1
      in start + length (takeWhile is_ascii_whitespace (drop start text)))"

definition field_number :: "bytes \<Rightarrow> string \<Rightarrow> u64 option" where
  "field_number text key =
     (case find_key text key of
        None \<Rightarrow> None
      | Some index \<Rightarrow>
          (let start = value_start text index key;
               digits = takeWhile is_ascii_digit (drop start text)
           in u64_from_str 10 dec_digit (map (\<lambda>b. char_of (unat b)) digits)))"

definition parse_ancillary :: "crypto \<Rightarrow> bytes \<Rightarrow> decode_error + polymarket_ancillary" where
  "parse_ancillary C raw =
     (if \<not> utf8_valid raw then Inl AncillaryUtf8
      else Inr \<lparr> question_id = keccak256 C raw, anc_market_id = field_number raw ''market_id'' \<rparr>)"

subsection \<open>The two events\<close>

definition parse_data :: "crypto \<Rightarrow> rpc_log \<Rightarrow> nat \<Rightarrow> decode_error + bytes" where
  "parse_data C raw words =
     and_then (decode_hex C (log_data raw) ''data'') (\<lambda>data.
       if length data \<ge> words * 32 then Inr data else Inl ShortData)"

definition build_chain :: "crypto \<Rightarrow> rpc_log \<Rightarrow> u64 \<Rightarrow> decode_error + chain_log" where
  "build_chain C raw received =
     and_then (parse_hex_u64 (log_block_number raw) ''blockNumber'') (\<lambda>block.
     and_then (decode_fixed C 32 (log_transaction_hash raw) ''transactionHash'') (\<lambda>tx.
     and_then (parse_hex_u64 (log_log_index raw) ''logIndex'') (\<lambda>index.
       if unat index < 2 ^ 32
       then Inr \<lparr> block_number = block, transaction_hash = tx, log_index = ucast index,
                  upstream_received_at_us = received, removed = log_removed raw \<rparr>
       else Inl (Number ''logIndex''))))"

definition parse_request :: "crypto \<Rightarrow> rpc_log \<Rightarrow> bytes \<Rightarrow> decode_error + price_request" where
  "parse_request C raw data =
     and_then (topic_address C (log_topics raw ! 1)) (\<lambda>req.
     and_then (dynamic_word data 2) (\<lambda>anc.
     and_then (parse_ancillary C anc) (\<lambda>pa.
       Inr \<lparr> requester = req,
             request_condition_id = derive_binary_condition_id C req (question_id pa),
             ancillary = pa,
             proposed_price = abi_word data 3 \<rparr>)))"

definition parse_propose :: "crypto \<Rightarrow> rpc_log \<Rightarrow> u64 \<Rightarrow> decode_error + uma_event" where
  "parse_propose C raw received =
     (if length (log_topics raw) < 3 then Inl Topic
      else and_then (parse_data C raw 4) (\<lambda>data.
           and_then (build_chain C raw received) (\<lambda>chain.
           and_then (parse_request C raw data) (\<lambda>request.
             Inr (ProposePrice \<lparr> propose_chain = chain, propose_request = request \<rparr>)))))"

definition parse_dispute :: "crypto \<Rightarrow> rpc_log \<Rightarrow> u64 \<Rightarrow> decode_error + uma_event" where
  "parse_dispute C raw received =
     (if length (log_topics raw) < 4 then Inl Topic
      else and_then (parse_data C raw 4) (\<lambda>data.
           and_then (build_chain C raw received) (\<lambda>chain.
           and_then (parse_request C raw data) (\<lambda>request.
             Inr (DisputePrice \<lparr> dispute_chain = chain, dispute_request = request \<rparr>)))))"

definition decode_signal_log ::
  "crypto \<Rightarrow> rpc_log \<Rightarrow> u64 \<Rightarrow> bytes list \<Rightarrow> bool \<Rightarrow> decode_error + uma_event" where
  "decode_signal_log C raw received allowed_emitters require_market_id =
     and_then (decode_fixed C 20 (log_address raw) ''address'') (\<lambda>emitter.
       if allowed_emitters \<noteq> [] \<and> emitter \<notin> set allowed_emitters then Inl Emitter
       else and_then
         (case log_topics raw of
            [] \<Rightarrow> Inl Topic
          | topic # _ \<Rightarrow>
              if to_ascii_lowercase topic = TOPIC_PROPOSE_PRICE then parse_propose C raw received
              else if to_ascii_lowercase topic = TOPIC_DISPUTE_PRICE then parse_dispute C raw received
              else Inl Topic)
         (\<lambda>event. if require_market_id \<and> event_market_id event = 0 then Inl MissingMarketId else Inr event))"


subsection \<open>Wrapping offsets change nothing\<close>

lemma slice_get_nat:
  assumes "unat a + n < 2 ^ 64"
  shows "slice_get data a (a + of_nat n) =
    (if unat a + n \<le> length data then Some (take n (drop (unat a) data)) else None)"
proof -
  have "unat (of_nat n :: u64) = n"
    using assms by (simp add: unat_of_nat)
  then have "unat (a + of_nat n) = unat a + n"
    using assms by (simp add: unat_word_ariths)
  then show ?thesis by (simp add: slice_get_def word_le_nat_alt)
qed

lemma slice_get_wrapped:
  assumes "2 ^ 64 \<le> unat a + unat n" "length data < 2 ^ 64"
  shows "slice_get data a (a + n) = None"
proof -
  have "unat a + unat n < 2 ^ 64 + 2 ^ 64"
    by (intro add_strict_mono unat_u64_lt)
  then have "unat (a + n) = unat a + unat n - 2 ^ 64"
    using assms(1) by (simp add: unat_word_ariths mod_if)
  moreover have "unat n < 2 ^ 64" by (rule unat_u64_lt)
  ultimately have "unat (a + n) < unat a" using assms(1) by linarith
  then show ?thesis by (simp add: slice_get_def word_le_nat_alt)
qed

lemma slice_get_add:
  assumes "length data < 2 ^ 64"
  shows "slice_get data a (a + n) =
    (if unat a + unat n \<le> length data then Some (take (unat n) (drop (unat a) data)) else None)"
proof (cases "unat a + unat n < 2 ^ 64")
  case True
  then show ?thesis using slice_get_nat [of a "unat n" data] by simp
next
  case False
  then show ?thesis using slice_get_wrapped [of a n data] assms by simp
qed

lemma abi_word_u64:
  assumes "length w = 32"
  shows "list_ex (\<lambda>b. b \<noteq> 0) (take 24 w) \<longleftrightarrow> 2 ^ 64 \<le> be_nat w"
    and "\<not> list_ex (\<lambda>b. b \<noteq> 0) (take 24 w) \<Longrightarrow> unat (of_nat (be_nat (drop 24 w)) :: u64) = be_nat w"
proof -
  have split: "be_nat w = be_nat (take 24 w) * 256 ^ 8 + be_nat (drop 24 w)"
    using be_nat_append [of "take 24 w" "drop 24 w"] assms by simp
  have low: "be_nat (drop 24 w) < 256 ^ 8"
    using be_nat_lt [of "drop 24 w"] assms by simp
  have zero: "list_ex (\<lambda>b. b \<noteq> 0) (take 24 w) \<longleftrightarrow> be_nat (take 24 w) \<noteq> 0"
    by (simp add: be_nat_zero_iff list_ex_iff)
  show "list_ex (\<lambda>b. b \<noteq> 0) (take 24 w) \<longleftrightarrow> 2 ^ 64 \<le> be_nat w"
    using split low zero by (cases "be_nat (take 24 w)") auto
  assume "\<not> list_ex (\<lambda>b. b \<noteq> 0) (take 24 w)"
  then show "unat (of_nat (be_nat (drop 24 w)) :: u64) = be_nat w"
    using split low zero by (simp add: unat_of_nat)
qed

lemma dynamic_word_nat:
  assumes "(index + 1) * 32 \<le> length data" "length data < 2 ^ 64"
  shows "dynamic_word data index =
    (let off = be_nat (abi_word data index)
     in if 2 ^ 64 \<le> off then Inl (Number ''dynamic offset'')
        else if length data < off + 32 then Inl DynamicOffset
        else let len = be_nat (take 32 (drop off data))
             in if length data < off + 32 + len then Inl DynamicOffset
                else Inr (take len (drop (off + 32) data)))"
proof -
  let ?w = "abi_word data index"
  have w: "length ?w = 32" using assms(1) by (simp add: abi_word_def)
  show ?thesis
  proof (cases "2 ^ 64 \<le> be_nat ?w")
    case True
    then show ?thesis using abi_word_u64(1) [OF w] by (simp add: dynamic_word_def word_u64_def)
  next
    case False
    define off where "off = (of_nat (be_nat (drop 24 ?w)) :: u64)"
    have wu: "word_u64 data index ''dynamic offset'' = Inr off" and off: "unat off = be_nat ?w"
      using False abi_word_u64 [OF w] by (simp_all add: word_u64_def off_def)
    have sl: "slice_get data off (off + 32) =
        (if unat off + 32 \<le> length data then Some (take 32 (drop (unat off) data)) else None)"
      using slice_get_add [OF assms(2), of off 32] by simp
    show ?thesis
    proof (cases "unat off + 32 \<le> length data")
      case False
      then show ?thesis using off \<open>\<not> 2 ^ 64 \<le> be_nat ?w\<close> by (simp add: dynamic_word_def wu sl)
    next
      case True
      let ?lw = "take 32 (drop (unat off) data)"
      have lw: "length ?lw = 32" using True by simp
      have o32: "unat (off + 32) = unat off + 32"
        using True assms(2) by (simp add: unat_word_ariths)
      show ?thesis
        using off \<open>\<not> 2 ^ 64 \<le> be_nat ?w\<close> True abi_word_u64 [OF lw] assms(2)
          slice_get_add [OF assms(2), of "off + 32" "of_nat (be_nat (drop 24 ?lw))"]
        by (auto simp: dynamic_word_def wu sl o32 Let_def)
    qed
  qed
qed

lemma dynamic_word_at:
  assumes "(index + 1) * 32 \<le> length data" "length data < 2 ^ 64"
    and "abi_word data index = nat_be 32 off" "take 32 (drop off data) = nat_be 32 len"
    and "off + 32 + len \<le> length data"
  shows "dynamic_word data index = Inr (take len (drop (off + 32) data))"
proof -
  have "off mod 256 ^ 32 = off" "len mod 256 ^ 32 = len"
    using assms(2,5) by (simp_all add: mod_less)
  then show ?thesis
    using assms by (simp add: dynamic_word_nat be_nat_nat_be)
qed

text \<open>
  reading a dynamic ABI field with wrapping 64-bit offsets is the same as
  reading it with unbounded ones: no offset or length, however large, makes the
  decoder read anything but the bytes the ABI says, and every field that would
  run past the data is refused.
\<close>

theorem dynamic_word_unbounded:
  assumes "(index + 1) * 32 \<le> length data" "length data < 2 ^ 64"
  shows "dynamic_word data index =
    (let off = be_nat (abi_word data index)
     in if 2 ^ 64 \<le> off then Inl (Number ''dynamic offset'')
        else if length data < off + 32 then Inl DynamicOffset
        else let len = be_nat (take 32 (drop off data))
             in if length data < off + 32 + len then Inl DynamicOffset
                else Inr (take len (drop (off + 32) data)))"
  using assms by (rule dynamic_word_nat)

theorem dynamic_word_unbounded_witness:
  "dynamic_word (replicate 64 0 @ to_be_bytes 32 (96 :: u64) @ to_be_bytes 32 (2 :: u64) @ [7, 8, 9]) 2 = Inr [7, 8] \<and>
   dynamic_word (replicate 64 0 @ to_be_bytes 32 (- 8 :: u64) @ to_be_bytes 32 (2 :: u64) @ [7, 8, 9]) 2 = Inl DynamicOffset"
  using dynamic_word_unbounded [of 2 "replicate 64 0 @ to_be_bytes 32 (96 :: u64) @ to_be_bytes 32 (2 :: u64) @ [7, 8, 9]"]
    dynamic_word_unbounded [of 2 "replicate 64 0 @ to_be_bytes 32 (- 8 :: u64) @ to_be_bytes 32 (2 :: u64) @ [7, 8, 9]"]
  by (simp add: abi_word_def be_nat_to_be_bytes)

subsection \<open>What a decoded event satisfies\<close>

lemma decode_fixed_Inr: "decode_fixed C n v f = Inr bs \<Longrightarrow> length bs = n"
  by (auto simp: decode_fixed_def fixed_def split: if_splits)

lemma topic_address_Inr: "topic_address C v = Inr a \<Longrightarrow> length a = 20"
  by (auto simp: topic_address_def dest!: decode_fixed_Inr)

lemma build_chain_Inr:
  "build_chain C raw rx = Inr c \<Longrightarrow>
     length (transaction_hash c) = 32 \<and> upstream_received_at_us c = rx \<and> removed c = log_removed raw"
  by (auto simp: build_chain_def dest!: decode_fixed_Inr split: if_splits)

lemma parse_request_Inr:
  "\<lbrakk> crypto_ok C; 4 * 32 \<le> length data; parse_request C raw data = Inr r \<rbrakk> \<Longrightarrow>
     length (requester r) = 20 \<and> length (question_id (ancillary r)) = 32 \<and>
     request_condition_id r = derive_binary_condition_id C (requester r) (question_id (ancillary r)) \<and>
     length (request_condition_id r) = 32 \<and> length (proposed_price r) = 32"
  by (auto simp: parse_request_def parse_ancillary_def derive_binary_condition_id_def crypto_ok_def
      abi_word_def dest!: topic_address_Inr split: if_splits)

lemma parse_data_Inr: "parse_data C raw n = Inr d \<Longrightarrow> n * 32 \<le> length d"
  by (auto simp: parse_data_def split: if_splits)

lemma parse_event_Inr:
  assumes "crypto_ok C" "parse_propose C raw rx = Inr e \<or> parse_dispute C raw rx = Inr e"
  shows "length (transaction_hash (event_chain e)) = 32 \<and> upstream_received_at_us (event_chain e) = rx \<and>
    removed (event_chain e) = log_removed raw \<and> length (requester (event_request e)) = 20 \<and>
    request_condition_id (event_request e)
      = derive_binary_condition_id C (requester (event_request e)) (question_id (ancillary (event_request e))) \<and>
    length (request_condition_id (event_request e)) = 32 \<and> length (proposed_price (event_request e)) = 32"
  using assms
  by (auto simp: parse_propose_def parse_dispute_def split: if_splits
      dest!: parse_data_Inr build_chain_Inr parse_request_Inr)

text \<open>
  C5: every event the decoder returns comes from an allowed emitter (any, when
  the list is empty), has the kind its first topic announces, carries a market
  id when one is required, and its hashes, addresses and price have the widths
  of the Rust arrays; its condition id is the binary-adapter hash of its own
  requester and question.
\<close>

theorem decode_signal_log_sound:
  assumes "crypto_ok C" "decode_signal_log C raw rx allowed req = Inr e"
  shows "(\<exists>emitter. decode_fixed C 20 (log_address raw) ''address'' = Inr emitter \<and>
            (allowed = [] \<or> emitter \<in> set allowed)) \<and>
    (\<exists>t ts. log_topics raw = t # ts \<and>
       (event_kind_of e = Propose \<longrightarrow> to_ascii_lowercase t = TOPIC_PROPOSE_PRICE) \<and>
       (event_kind_of e = Dispute \<longrightarrow> to_ascii_lowercase t = TOPIC_DISPUTE_PRICE)) \<and>
    (req \<longrightarrow> event_market_id e \<noteq> 0) \<and>
    length (transaction_hash (event_chain e)) = 32 \<and> upstream_received_at_us (event_chain e) = rx \<and>
    removed (event_chain e) = log_removed raw \<and> length (requester (event_request e)) = 20 \<and>
    request_condition_id (event_request e)
      = derive_binary_condition_id C (requester (event_request e)) (question_id (ancillary (event_request e))) \<and>
    length (request_condition_id (event_request e)) = 32 \<and> length (proposed_price (event_request e)) = 32"
proof -
  obtain emitter t ts where em: "decode_fixed C 20 (log_address raw) ''address'' = Inr emitter"
      "allowed = [] \<or> emitter \<in> set allowed" and ts: "log_topics raw = t # ts"
    and m: "req \<longrightarrow> event_market_id e \<noteq> 0"
    and p: "to_ascii_lowercase t = TOPIC_PROPOSE_PRICE \<and> parse_propose C raw rx = Inr e \<or>
      to_ascii_lowercase t = TOPIC_DISPUTE_PRICE \<and> parse_dispute C raw rx = Inr e"
    using assms(2) by (auto simp: decode_signal_log_def split: if_splits list.splits)
  have k: "event_kind_of e = Propose \<longrightarrow> to_ascii_lowercase t = TOPIC_PROPOSE_PRICE"
      "event_kind_of e = Dispute \<longrightarrow> to_ascii_lowercase t = TOPIC_DISPUTE_PRICE"
    using p by (auto simp: parse_propose_def parse_dispute_def split: if_splits)
  have "parse_propose C raw rx = Inr e \<or> parse_dispute C raw rx = Inr e" using p by blast
  from parse_event_Inr [OF assms(1) this] em ts m k show ?thesis by auto
qed

lemma trim_start_0x_no_x:
  assumes "\<And>c. c \<in> set s \<Longrightarrow> c \<noteq> CHR ''x''"
  shows "trim_start_0x s = s"
  using assms by (cases s rule: trim_start_0x.cases) auto

subsection \<open>The number after a key\<close>

definition radix_value :: "nat \<Rightarrow> (char \<Rightarrow> nat option) \<Rightarrow> nat \<Rightarrow> string \<Rightarrow> nat" where
  "radix_value base digit acc s = foldl (\<lambda>a c. a * base + the (digit c)) acc s"

lemma radix_value_ge: "0 < base \<Longrightarrow> acc \<le> radix_value base digit acc s"
proof (induction s arbitrary: acc)
  case (Cons c s)
  have "acc \<le> acc * base + the (digit c)" using Cons.prems by (simp add: trans_le_add1)
  also have "\<dots> \<le> radix_value base digit (acc * base + the (digit c)) s" by (rule Cons.IH [OF Cons.prems])
  finally show ?case by (simp add: radix_value_def)
qed (simp add: radix_value_def)

lemma radix_digits_value:
  assumes "0 < base" "list_all (\<lambda>c. digit c \<noteq> None) s" "acc < 2 ^ 64"
  shows "radix_digits base digit acc s =
    (if radix_value base digit acc s < 2 ^ 64 then Some (radix_value base digit acc s) else None)"
  using assms
proof (induction s arbitrary: acc)
  case (Cons c s)
  then obtain d where d: "digit c = Some d" by auto
  have v: "radix_value base digit acc (c # s) = radix_value base digit (acc * base + d) s"
    by (simp add: radix_value_def d)
  have "acc * base + d \<le> radix_value base digit (acc * base + d) s"
    by (rule radix_value_ge [OF Cons.prems(1)])
  with Cons d v show ?case by auto
qed (simp add: radix_value_def)

text \<open>An occurrence of a needle, and needles that cannot overlap themselves.\<close>

definition occurs_at :: "bytes \<Rightarrow> bytes \<Rightarrow> nat \<Rightarrow> bool" where
  "occurs_at needle text k \<longleftrightarrow> take (length needle) (drop k text) = needle"

definition unbordered :: "bytes \<Rightarrow> bool" where
  "unbordered w \<longleftrightarrow> list_all (\<lambda>d. take (length w - d) w \<noteq> drop d w) [1..<length w]"

lemma occurs_at_not_inside:
  assumes "unbordered w" "occurs_at w text 0" "0 < d" "d < length w"
  shows "\<not> occurs_at w text d"
proof
  assume "occurs_at w text d"
  then have "take (length w - d) w = take (length w - d) (drop d text)"
    unfolding occurs_at_def by (metis min.absorb1 diff_le_self take_take)
  also have "\<dots> = drop d w"
    using assms(2) unfolding occurs_at_def by (metis drop_0 take_drop add.commute assms(4) le_add_diff_inverse2 less_imp_le drop_take)
  finally show False
    using assms(1,3,4) unfolding unbordered_def list_all_iff by auto
qed

lemma occurs_at_past: "w \<noteq> [] \<Longrightarrow> length text \<le> k \<Longrightarrow> \<not> occurs_at w text k"
  by (simp add: occurs_at_def)

lemma occurs_at_drop: "occurs_at w (drop n text) k \<longleftrightarrow> occurs_at w text (n + k)"
  by (simp add: occurs_at_def add.commute)

lemma match_indices_from_all:
  assumes "w \<noteq> []" "unbordered w"
  shows "match_indices_from i w hay = filter (\<lambda>k. occurs_at w hay (k - i)) [i..<i + length hay]"
proof (induction "length hay" arbitrary: i hay rule: less_induct)
  case less
  show ?case
  proof (cases "hay = []")
    case False
    let ?n = "length w"
    show ?thesis
    proof (cases "take ?n hay = w")
      case True
      then have n: "0 < ?n" "?n \<le> length hay"
        using assms(1) by (auto dest: arg_cong [where f = length])
      have occ0: "occurs_at w hay 0" using True by (simp add: occurs_at_def)
      have upt: "[i..<i + length hay] = i # [Suc i..<i + ?n] @ [i + ?n..<i + length hay]"
      proof -
        obtain m where m: "length hay = ?n + m" using n(2) le_Suc_ex by blast
        have "[i..<i + length hay] = [i..<i + ?n] @ [i + ?n..<i + length hay]"
          unfolding m using upt_add_eq_append [of i "i + ?n" m] by (simp add: add.assoc)
        with n(1) show ?thesis by (simp add: upt_conv_Cons)
      qed
      have "filter (\<lambda>k. occurs_at w hay (k - i)) [Suc i..<i + ?n] = []"
        using occurs_at_not_inside [OF assms(2) occ0] by (auto simp: filter_empty_conv)
      moreover have "filter (\<lambda>k. occurs_at w hay (k - i)) [i + ?n..<i + length hay]
          = filter (\<lambda>k. occurs_at w (drop ?n hay) (k - (i + ?n))) [i + ?n..<i + length hay]"
        by (rule filter_cong) (auto simp: occurs_at_drop)
      moreover have "match_indices_from (i + ?n) w (drop ?n hay) = \<dots>"
        using less [of "drop ?n hay" "i + ?n"] n
        by (simp add: diff_less [OF n(1) order_less_le_trans [OF n]])
      ultimately show ?thesis
        using True False assms(1) occ0 by (subst match_indices_from.simps) (simp add: upt)
    next
      case no: False
      obtain t ts where t: "hay = t # ts" using False by (cases hay) auto
      have "\<not> occurs_at w hay 0" using no by (simp add: occurs_at_def)
      moreover have "filter (\<lambda>k. occurs_at w hay (k - i)) [Suc i..<Suc i + length ts]
          = filter (\<lambda>k. occurs_at w ts (k - Suc i)) [Suc i..<Suc i + length ts]"
      proof (rule filter_cong [OF refl])
        fix k assume "k \<in> set [Suc i..<Suc i + length ts]"
        then have "k - i = Suc (k - Suc i)" by auto
        then show "occurs_at w hay (k - i) = occurs_at w ts (k - Suc i)" by (simp add: t occurs_at_def)
      qed
      moreover have "[i..<i + length hay] = i # [Suc i..<Suc i + length ts]"
        using upt_conv_Cons [of i "i + length hay"] by (simp add: t del: upt_Suc)
      moreover have "match_indices_from (Suc i) w ts
          = filter (\<lambda>k. occurs_at w ts (k - Suc i)) [Suc i..<Suc i + length ts]"
        using less [of ts "Suc i"] by (simp add: t)
      ultimately show ?thesis
        using no False assms(1) by (subst match_indices_from.simps) (simp add: t)
    qed
  qed (simp add: match_indices_from.simps)
qed

lemma find_filter_upt:
  "find Q (filter P [0..<n]) = Some k \<longleftrightarrow> k < n \<and> P k \<and> Q k \<and> (\<forall>j<k. \<not> (P j \<and> Q j))"
proof -
  have "find Q (filter P xs) = find (\<lambda>k. P k \<and> Q k) xs" for xs :: "nat list"
    by (induction xs) auto
  then show ?thesis
    by (auto simp: find_Some_iff)
qed

text \<open>\<open>find_key\<close> finds the first occurrence that starts the text or follows a blank or comma.\<close>

definition key_at :: "bytes \<Rightarrow> string \<Rightarrow> nat \<Rightarrow> bool" where
  "key_at hay key k \<longleftrightarrow> occurs_at (str_bytes (key @ '':'')) hay k \<and>
     (k = 0 \<or> is_ascii_whitespace (hay ! (k - 1)) \<or> hay ! (k - 1) = 44)"

lemma find_key_first:
  assumes "unbordered (str_bytes (key @ '':''))"
  shows "find_key hay key = Some k \<longleftrightarrow> key_at hay key k \<and> (\<forall>j<k. \<not> key_at hay key j)"
proof -
  have ne: "str_bytes (key @ '':'') \<noteq> []" by (simp add: str_bytes_def)
  show ?thesis
    unfolding find_key_def match_indices_from_all [OF ne assms] add_0 diff_zero find_filter_upt key_at_def
    using occurs_at_past [OF ne, of hay] by (metis not_le)
qed

lemma unbordered_market_id: "unbordered (str_bytes (''market_id'' @ '':''))"
  by code_simp

text \<open>
  the market id of an ancillary text is the number right after the first
  \<open>market_id:\<close> that starts the text or follows a blank or a comma, blanks skipped
  and the number ended by the first character that is no digit; a number that
  does not fit 64 bits and a text without the key give none.
\<close>

theorem field_number_market_id:
  assumes "key_at hay ''market_id'' k" "\<forall>j<k. \<not> key_at hay ''market_id'' j"
    and "drop (k + 10) hay = ws @ ds @ rest" "list_all is_ascii_whitespace ws"
    and "ds \<noteq> []" "list_all is_ascii_digit ds" "rest = [] \<or> \<not> is_ascii_digit (hd rest)"
  shows "field_number hay ''market_id'' =
      (let n = decimal_value (map digit_char ds) in if n < 2 ^ 64 then Some (of_nat n) else None) \<and>
    (\<forall>t. (\<forall>k. \<not> key_at t ''market_id'' k) \<longrightarrow> field_number t ''market_id'' = None)"
proof (intro conjI allI impI)
  have fk: "find_key hay ''market_id'' = Some k"
    unfolding find_key_first [OF unbordered_market_id] using assms(1,2) by simp
  obtain d ds' where ds: "ds = d # ds'" using assms(5) by (cases ds) auto
  have "\<not> is_ascii_whitespace d"
    using assms(6) by (auto simp: ds is_ascii_digit_def byte_in_def is_ascii_whitespace_def)
  then have "takeWhile is_ascii_whitespace (ws @ ds @ rest) = ws"
    using assms(4) by (simp add: ds takeWhile_append2 list_all_iff)
  moreover have "k + length ''market_id'' + 1 = k + 10" by simp
  ultimately have "value_start hay k ''market_id'' = length ws + (k + 10)"
    unfolding value_start_def Let_def by (simp only: assms(3) add.commute)
  then have vs: "drop (value_start hay k ''market_id'') hay = ds @ rest"
    using drop_drop [of "length ws" "k + 10" hay] assms(3) by (metis append_eq_conv_conj)
  have tw: "takeWhile is_ascii_digit (ds @ rest) = ds"
    using assms(6,7) by (cases rest) (auto simp: takeWhile_append2 list_all_iff)
  have digit: "dec_digit (char_of (unat b)) = Some (unat b - 48)" if "is_ascii_digit b" for b
    using that by (simp add: dec_digit_def is_ascii_digit_def byte_in_def)
  have all: "list_all (\<lambda>c. dec_digit c \<noteq> None) (map digit_char ds)"
    using assms(6) digit by (auto simp: list_all_iff digit_char_def)
  have val: "radix_value 10 dec_digit 0 (map digit_char ds) = decimal_value (map digit_char ds)"
    using all unfolding radix_value_def decimal_value_def
    by (intro foldl_cong refl) (auto simp: list_all_iff dec_digit_def Let_def split: if_splits)
  have plus: "hd (map digit_char ds) \<noteq> CHR ''+''"
  proof
    assume "hd (map digit_char ds) = CHR ''+''"
    then have "of_char (digit_char d) = (43 :: nat)" by (simp add: ds)
    then show False using assms(6) by (simp add: ds is_ascii_digit_def byte_in_def digit_char_def)
  qed
  have "u64_from_str 10 dec_digit (map digit_char ds) = map_option of_nat (radix_digits 10 dec_digit 0 (map digit_char ds))"
    using plus by (simp add: u64_from_str_def ds)
  also have "\<dots> = (let n = decimal_value (map digit_char ds) in if n < 2 ^ 64 then Some (of_nat n) else None)"
    by (simp add: radix_digits_value [OF _ all] val Let_def)
  finally show "field_number hay ''market_id'' = \<dots>"
    by (simp add: field_number_def fk vs tw digit_char_def [abs_def])
next
  fix t assume "\<forall>k. \<not> key_at t ''market_id'' k"
  then have "find_key t ''market_id'' = None"
    using find_key_first [OF unbordered_market_id, of t] by (cases "find_key t ''market_id''") auto
  then show "field_number t ''market_id'' = None" by (simp add: field_number_def)
qed

definition sample_ancillary :: bytes where
  "sample_ancillary = str_bytes ''q: xmarket_id: 1, market_id:  907474 res_data''"

theorem field_number_market_id_witness:
  "field_number sample_ancillary ''market_id'' = Some 907474"
proof -
  have k: "key_at sample_ancillary ''market_id'' 18" "list_all (\<lambda>j. \<not> key_at sample_ancillary ''market_id'' j) [0..<18]"
    by code_simp+
  have d: "drop (18 + 10) sample_ancillary = [32, 32] @ str_bytes ''907474'' @ str_bytes '' res_data''"
    by code_simp
  have "\<forall>j<18. \<not> key_at sample_ancillary ''market_id'' j" using k(2) by (simp add: list_all_iff)
  from field_number_market_id [OF k(1) this d]
  show ?thesis
    by (simp add: str_bytes_def is_ascii_whitespace_def is_ascii_digit_def byte_in_def digit_char_def
        decimal_value_def)
qed

subsection \<open>A sample log\<close>

text \<open>A hex codec and a stand-in for the hash, to evaluate the decoder.\<close>

definition nibble :: "nat \<Rightarrow> char" where
  "nibble n = char_of (if n < 10 then 48 + n else 87 + n)"

definition sample_hex_encode :: "bytes \<Rightarrow> string" where
  "sample_hex_encode bs = concat (map (\<lambda>b. [nibble (unat b div 16), nibble (unat b mod 16)]) bs)"

fun sample_hex_decode :: "string \<Rightarrow> bytes option" where
  "sample_hex_decode [] = Some []"
| "sample_hex_decode [c] = None"
| "sample_hex_decode (c # d # cs) =
     (case (hex_digit c, hex_digit d, sample_hex_decode cs) of
        (Some h, Some l, Some bs) \<Rightarrow> Some (of_nat (h * 16 + l) # bs)
      | _ \<Rightarrow> None)"

definition sample_crypto :: crypto where
  "sample_crypto =
     \<lparr> hex_encode = sample_hex_encode, hex_decode = sample_hex_decode, keccak256 = \<lambda>bs. nat_be 32 (be_nat bs) \<rparr>"

lemma hex_digit_nibble: "n < 16 \<Longrightarrow> hex_digit (nibble n) = Some n"
  by (auto simp: hex_digit_def nibble_def Let_def)

lemma sample_hex_round_trip: "sample_hex_decode (sample_hex_encode bs) = Some bs"
proof (induction bs)
  case (Cons b bs)
  have "unat b div 16 < 16" using unat_byte_lt [of b] by simp
  with Cons show ?case by (simp add: sample_hex_encode_def hex_digit_nibble)
qed (simp add: sample_hex_encode_def)

lemma nibble_not_x: "n < 16 \<Longrightarrow> nibble n \<noteq> CHR ''x''"
  using hex_digit_nibble [of n] by (auto simp: hex_digit_def)

lemma sample_hex_not_x:
  assumes "c \<in> set (sample_hex_encode bs)"
  shows "c \<noteq> CHR ''x''"
proof -
  obtain b :: u8 where "c = nibble (unat b div 16) \<or> c = nibble (unat b mod 16)"
    using assms by (auto simp: sample_hex_encode_def)
  moreover have "unat b div 16 < 16" "unat b mod 16 < 16" using unat_byte_lt [of b] by simp_all
  ultimately show ?thesis using nibble_not_x by metis
qed

lemma sample_crypto_ok: "crypto_ok sample_crypto"
  by (simp add: crypto_ok_def sample_crypto_def sample_hex_round_trip) (use sample_hex_not_x in blast)

definition sample_log :: rpc_log where
  "sample_log =
     \<lparr> log_address = ''0x'' @ sample_hex_encode (replicate 20 170),
       log_topics = [TOPIC_PROPOSE_PRICE, ''0x'' @ sample_hex_encode (replicate 12 0 @ replicate 20 1),
                     ''0x'' @ sample_hex_encode (replicate 12 0 @ replicate 20 2)],
       log_data = ''0x'' @ sample_hex_encode (replicate 64 0 @ to_be_bytes 32 (128 :: u64) @ replicate 32 5 @
                     to_be_bytes 32 (13 :: u64) @ str_bytes ''market_id: 42''),
       log_block_number = ''0xa'', log_block_hash = [],
       log_transaction_hash = ''0x'' @ sample_hex_encode (replicate 32 204),
       log_transaction_index = None, log_log_index = ''0x4'', log_removed = False \<rparr>"

definition sample_event :: uma_event where
  "sample_event =
     ProposePrice
       \<lparr> propose_chain = \<lparr> block_number = 10, transaction_hash = replicate 32 204, log_index = 4,
                           upstream_received_at_us = 9, removed = False \<rparr>,
         propose_request =
           \<lparr> requester = replicate 20 1,
             request_condition_id = nat_be 32 (be_nat (replicate 20 1 @ nat_be 32 (be_nat (str_bytes ''market_id: 42'')) @ replicate 31 0 @ [2])),
             ancillary = \<lparr> question_id = nat_be 32 (be_nat (str_bytes ''market_id: 42'')), anc_market_id = Some 42 \<rparr>,
             proposed_price = replicate 32 5 \<rparr> \<rparr>"

definition sample_data :: bytes where
  "sample_data = replicate 64 0 @ to_be_bytes 32 (128 :: u64) @ replicate 32 5 @
     to_be_bytes 32 (13 :: u64) @ str_bytes ''market_id: 42''"

lemma sample_data_fields:
  "length sample_data = 173" "abi_word sample_data 3 = replicate 32 5"
  "dynamic_word sample_data 2 = Inr (str_bytes ''market_id: 42'')"
proof -
  show len: "length sample_data = 173" by (simp add: sample_data_def str_bytes_def)
  show "abi_word sample_data 3 = replicate 32 5" by (simp add: sample_data_def abi_word_def)
  show "dynamic_word sample_data 2 = Inr (str_bytes ''market_id: 42'')"
    using dynamic_word_at [of 2 sample_data 128 13]
    by (simp add: len) (simp add: sample_data_def abi_word_def to_be_bytes_def str_bytes_def)
qed

lemma sample_text_utf8: "utf8_valid (str_bytes ''market_id: 42'')"
  by (simp add: str_bytes_def utf8_valid.simps byte_in_def)

lemma sample_text_number: "field_number (str_bytes ''market_id: 42'') ''market_id'' = Some 42"
  by (simp add: field_number_def find_key_def str_bytes_def match_indices_from.simps value_start_def
      is_ascii_digit_def byte_in_def is_ascii_whitespace_def u64_from_str_def dec_digit_def Let_def char_of_eq_iff take_bit_eq_mod)

lemma sample_text_fields:
  "to_ascii_lowercase TOPIC_PROPOSE_PRICE = TOPIC_PROPOSE_PRICE"
  "parse_hex_u64 ''0xa'' ''blockNumber'' = Inr 10" "parse_hex_u64 ''0x4'' ''logIndex'' = Inr 4"
  by (simp_all add: to_ascii_lowercase_def TOPIC_PROPOSE_PRICE_def parse_hex_u64_def strip_0x_def
      strip_prefix_def u64_from_str_def hex_digit_def)

lemma decode_sample_hex:
  "decode_hex sample_crypto (''0x'' @ sample_hex_encode bs) f = Inr bs"
  by (simp add: decode_hex_def strip_0x_def strip_prefix_def sample_crypto_def sample_hex_round_trip)

lemma sample_keccak: "keccak256 sample_crypto bs = nat_be 32 (be_nat bs)"
  by (simp add: sample_crypto_def)

lemma decode_sample_log:
  "decode_signal_log sample_crypto sample_log 9 [] True = Inr sample_event"
  using sample_data_fields sample_text_fields sample_text_number sample_text_utf8
  by (simp add: decode_signal_log_def sample_log_def sample_event_def decode_fixed_def
      decode_sample_hex [simplified] fixed_def parse_propose_def parse_data_def sample_data_def [symmetric]
      build_chain_def parse_request_def topic_address_def parse_ancillary_def
      derive_binary_condition_id_def event_market_id_def unwrap_or_default_def sample_keccak
      del: append_assoc and_then_Inr nat_be.simps)

theorem decode_signal_log_sound_witness:
  "decode_signal_log sample_crypto sample_log 9 [] True = Inr sample_event \<and>
   length (request_condition_id (event_request sample_event)) = 32"
  using decode_signal_log_sound [OF sample_crypto_ok decode_sample_log] decode_sample_log by blast

end
