(* ===== verification/Calldata.thy ===== *)
theory Calldata
  imports Uma_Events
begin

text \<open>
  \<open>mempool/calldata.rs\<close>: the propose and dispute calls inside a pending
  transaction's input, and the synthetic log handed to the event decoder.
  Offsets are 64-bit and wrap, as \<open>usize\<close> arithmetic does in a release build.
\<close>

definition SEL_PROPOSE :: bytes where "SEL_PROPOSE = [0xb8, 0xb4, 0xf9, 0x08]"

definition SEL_PROPOSE_FOR :: bytes where "SEL_PROPOSE_FOR = [0x7c, 0x82, 0x28, 0x8f]"

definition SEL_DISPUTE :: bytes where "SEL_DISPUTE = [0xfb, 0xa7, 0xf1, 0xe3]"

definition SEL_DISPUTE_FOR :: bytes where "SEL_DISPUTE_FOR = [0x76, 0xc7, 0x82, 0x3f]"

definition SEL_MULTICALL :: bytes where "SEL_MULTICALL = [0xac, 0x96, 0x50, 0xd8]"

datatype call_kind = CallPropose | CallDispute

record oracle_call =
  call_kind :: call_kind
  call_requester :: bytes
  call_identifier :: bytes
  call_timestamp :: bytes
  call_ancillary :: bytes
  call_price :: bytes
  call_actor :: "bytes option"

record request_key =
  key_requester :: bytes
  key_question_id :: bytes
  key_timestamp :: u64

definition request_key_market :: "request_key \<Rightarrow> bytes \<times> bytes" where
  "request_key_market k = (key_requester k, key_question_id k)"

definition u64_word :: "bytes \<Rightarrow> u64" where
  "u64_word w = of_nat (be_nat (drop 24 w))"

definition request_key_of :: "crypto \<Rightarrow> oracle_call \<Rightarrow> request_key" where
  "request_key_of C call =
     \<lparr> key_requester = call_requester call,
       key_question_id = keccak256 C (call_ancillary call),
       key_timestamp = u64_word (call_timestamp call) \<rparr>"

definition arg_word :: "bytes \<Rightarrow> u64 \<Rightarrow> bytes option" where
  "arg_word b i = slice_get b (i * 32) ((i + 1) * 32)"

definition usize_at :: "bytes \<Rightarrow> u64 \<Rightarrow> u64 option" where
  "usize_at b offset =
     (case slice_get b offset (offset + 32) of
        None \<Rightarrow> None
      | Some w \<Rightarrow> if list_ex (\<lambda>x. x \<noteq> 0) (take 24 w) then None
                  else Some (of_nat (be_nat (drop 24 w))))"

definition dynamic_bytes :: "bytes \<Rightarrow> u64 \<Rightarrow> bytes option" where
  "dynamic_bytes args head_index =
     Option.bind (usize_at args (head_index * 32)) (\<lambda>off.
     Option.bind (usize_at args off) (\<lambda>len.
       slice_get args (off + 32) (off + 32 + len)))"

definition arg_address :: "bytes \<Rightarrow> bytes" where
  "arg_address w = drop 12 w"

definition decode_one :: "bytes \<Rightarrow> oracle_call option" where
  "decode_one call =
     (if length call < 4 then None
      else
        let sel = take 4 call; args = drop 4 call
        in Option.bind
             (if sel = SEL_PROPOSE then Some (CallPropose, 0)
              else if sel = SEL_PROPOSE_FOR then Some (CallPropose, 1)
              else if sel = SEL_DISPUTE then Some (CallDispute, 0)
              else if sel = SEL_DISPUTE_FOR then Some (CallDispute, 1)
              else None) (\<lambda>(kind, o' :: u64).
           Option.bind (if o' = 1 then map_option (\<lambda>w. Some (arg_address w)) (arg_word args 0) else Some None) (\<lambda>actor.
           Option.bind (map_option arg_address (arg_word args o')) (\<lambda>req.
           Option.bind (arg_word args (o' + 1)) (\<lambda>ident.
           Option.bind (arg_word args (o' + 2)) (\<lambda>ts.
           Option.bind (dynamic_bytes args (o' + 3)) (\<lambda>anc.
           Option.bind (if kind = CallPropose then arg_word args (o' + 4) else Some (replicate 32 0)) (\<lambda>price.
             Some \<lparr> call_kind = kind, call_requester = req, call_identifier = ident, call_timestamp = ts,
                    call_ancillary = anc, call_price = price, call_actor = actor \<rparr>))))))))"

text \<open>The multicall loop \<open>for i in 0..n.min(256)\<close>, with its two breaks.\<close>

function multicall_loop :: "bytes \<Rightarrow> u64 \<Rightarrow> nat \<Rightarrow> nat \<Rightarrow> oracle_call list \<Rightarrow> oracle_call list" where
  "multicall_loop args base i n out =
     (if i < n
      then (case usize_at args (base + 32 * of_nat i) of
              None \<Rightarrow> out
            | Some eo \<Rightarrow>
                (case usize_at args (base + eo) of
                   None \<Rightarrow> out
                 | Some len \<Rightarrow>
                     multicall_loop args base (Suc i) n
                       (case Option.bind (slice_get args (base + eo + 32) (base + eo + 32 + len)) decode_one of
                          None \<Rightarrow> out
                        | Some call \<Rightarrow> out @ [call])))
      else out)"
  by pat_completeness auto
termination multicall_loop
  by (relation "measure (\<lambda>(_, _, i, n, _). n - i)") auto

declare multicall_loop.simps [simp del]

definition decode_input :: "bytes \<Rightarrow> oracle_call list" where
  "decode_input input =
     (if 4 \<le> length input \<and> take 4 input = SEL_MULTICALL
      then (let args = drop 4 input
            in case usize_at args 0 of
                 None \<Rightarrow> []
               | Some off \<Rightarrow>
                   (case usize_at args off of
                      None \<Rightarrow> []
                    | Some n \<Rightarrow> multicall_loop args (off + 32) 0 (min (unat n) 256) []))
      else (case decode_one input of None \<Rightarrow> [] | Some call \<Rightarrow> [call]))"

definition pad32 :: "nat \<Rightarrow> nat" where
  "pad32 len = (len + 31) div 32 * 32"

definition hex0x :: "crypto \<Rightarrow> bytes \<Rightarrow> string" where
  "hex0x C b = ''0x'' @ hex_encode C b"

definition topic_addr :: "crypto \<Rightarrow> bytes \<Rightarrow> string" where
  "topic_addr C a = hex0x C (replicate 12 0 @ a)"

text \<open>\<open>{:x}\<close>: the lower-case hexadecimal numeral, without leading zeros.\<close>

fun lower_hex :: "nat \<Rightarrow> string" where
  "lower_hex n = (if n < 16 then [nibble n] else lower_hex (n div 16) @ [nibble (n mod 16)])"

declare lower_hex.simps [simp del]

definition synth_data :: "oracle_call \<Rightarrow> bytes" where
  "synth_data call =
     (let head_words = (if call_kind call = CallPropose then 6 else 4);
          len = length (call_ancillary call)
      in call_identifier call @ call_timestamp call @
         (replicate 24 0 @ to_be_bytes 8 (of_nat (head_words * 32) :: u64)) @
         call_price call @
         (if call_kind call = CallPropose then replicate 64 0 else []) @
         (replicate 24 0 @ to_be_bytes 8 (of_nat len :: u64)) @
         call_ancillary call @ replicate (pad32 len - len) 0)"

definition synth_log :: "crypto \<Rightarrow> oracle_call \<Rightarrow> string \<Rightarrow> nat \<Rightarrow> string \<Rightarrow> bytes \<Rightarrow> rpc_log" where
  "synth_log C call tx_hash index to from' =
     (let actor = (case call_actor call of Some a \<Rightarrow> a | None \<Rightarrow> from')
      in \<lparr> log_address = to,
           log_topics =
             [if call_kind call = CallPropose then TOPIC_PROPOSE_PRICE else TOPIC_DISPUTE_PRICE,
              topic_addr C (call_requester call)] @
             (if call_kind call = CallPropose then [topic_addr C actor]
              else [topic_addr C (replicate 20 0), topic_addr C actor]),
           log_data = hex0x C (synth_data call),
           log_block_number = ''0x0'',
           log_block_hash = [],
           log_transaction_hash = tx_hash,
           log_transaction_index = None,
           log_log_index = ''0x'' @ lower_hex index,
           log_removed = False \<rparr>)"

subsection \<open>Every call found has the widths of the Rust arrays\<close>

definition call_widths :: "oracle_call \<Rightarrow> bool" where
  "call_widths c \<longleftrightarrow> length (call_requester c) = 20 \<and> length (call_identifier c) = 32 \<and>
     length (call_timestamp c) = 32 \<and> length (call_price c) = 32 \<and>
     (case call_actor c of None \<Rightarrow> True | Some a \<Rightarrow> length a = 20)"

lemma slice_get_Some: "slice_get data a b = Some s \<Longrightarrow> length s = unat b - unat a \<and> length s \<le> length data"
  by (auto simp: slice_get_def split: if_splits)

lemma arg_word_small:
  assumes "unat i < 2 ^ 32" "arg_word b i = Some w"
  shows "length w = 32"
proof -
  have i: "unat (i + 1) = unat i + 1" using assms(1) by (simp add: unat_word_ariths)
  have "unat (i * 32) = unat i * 32" "unat ((i + 1) * 32) = (unat i + 1) * 32"
    using assms(1) i by (simp_all add: unat_word_ariths)
  with slice_get_Some [OF assms(2) [unfolded arg_word_def]] show ?thesis by simp
qed

lemma dynamic_bytes_length: "dynamic_bytes args i = Some b \<Longrightarrow> length b \<le> length args"
  by (auto simp: dynamic_bytes_def bind_eq_Some_conv dest!: slice_get_Some)

lemma decode_one_widths:
  assumes "decode_one b = Some c"
  shows "call_widths c \<and> length (call_ancillary c) \<le> length b"
proof -
  have small: "unat (0 :: u64) < 2 ^ 32" "unat (1 :: u64) < 2 ^ 32" "unat (2 :: u64) < 2 ^ 32"
    "unat (3 :: u64) < 2 ^ 32" "unat (4 :: u64) < 2 ^ 32" "unat (5 :: u64) < 2 ^ 32" by simp_all
  note w = small [THEN arg_word_small]
  show ?thesis
    using assms
    by (auto simp: decode_one_def Let_def bind_eq_Some_conv call_widths_def arg_address_def
        split: if_splits dest!: w dynamic_bytes_length)
qed

lemma multicall_loop_calls:
  "set (multicall_loop args base i n out)
     \<subseteq> set out \<union> {c. \<exists>a b s. slice_get args a b = Some s \<and> decode_one s = Some c} \<and>
   length (multicall_loop args base i n out) \<le> length out + (n - i)"
proof (induction args base i n out rule: multicall_loop.induct)
  case (1 args base i n out)
  show ?case
  proof (cases "i < n")
    case True
    show ?thesis
    proof (cases "usize_at args (base + 32 * of_nat i)")
      case None
      then show ?thesis using True by (subst (1 2) multicall_loop.simps) simp
    next
      case (Some eo)
      show ?thesis
      proof (cases "usize_at args (base + eo)")
        case None
        then show ?thesis using True Some by (subst (1 2) multicall_loop.simps) simp
      next
        case len: (Some len)
        show ?thesis
          using 1 [OF True Some len] True Some len
          by (subst (1 2) multicall_loop.simps)
            (auto split: option.splits simp: bind_eq_Some_conv; blast)
      qed
    qed
  qed (simp add: multicall_loop.simps)
qed

lemma decode_input_calls:
  assumes "c \<in> set (decode_input input)"
  shows "call_widths c \<and> length (call_ancillary c) \<le> length input"
proof -
  have "\<exists>s. length s \<le> length input \<and> decode_one s = Some c"
  proof (cases "4 \<le> length input \<and> take 4 input = SEL_MULTICALL")
    case True
    then obtain base n where "c \<in> set (multicall_loop (drop 4 input) base 0 n [])"
      using assms by (auto simp: decode_input_def Let_def split: option.splits)
    then obtain a b s where s: "slice_get (drop 4 input) a b = Some s" "decode_one s = Some c"
      using multicall_loop_calls [of "drop 4 input" base 0 n "[]"] by auto
    have "length s \<le> length input"
      using slice_get_Some [OF s(1)] unfolding length_drop by linarith
    with s(2) show ?thesis by blast
  next
    case False
    with assms show ?thesis by (auto simp: decode_input_def split: option.splits)
  qed
  then show ?thesis using decode_one_widths by (meson order_trans)
qed

lemma decode_input_at_most_256: "length (decode_input input) \<le> 256"
proof -
  have "length (multicall_loop args base 0 (min k 256) []) \<le> 256" for args base k
    using multicall_loop_calls [of args base 0 "min k 256" "[]"] by simp
  then show ?thesis by (auto simp: decode_input_def Let_def split: option.splits)
qed

subsection \<open>Hexadecimal numerals\<close>

lemma lower_hex_digits: "list_all (\<lambda>c. hex_digit c \<noteq> None) (lower_hex n)"
proof (induction n rule: lower_hex.induct)
  case (1 n)
  then show ?case by (subst lower_hex.simps) (auto simp: hex_digit_nibble)
qed

lemma radix_value_snoc:
  "radix_value base digit acc (s @ [c]) = radix_value base digit acc s * base + the (digit c)"
  by (simp add: radix_value_def)

lemma lower_hex_value: "radix_value 16 hex_digit 0 (lower_hex n) = n"
proof (induction n rule: lower_hex.induct)
  case (1 n)
  show ?case
  proof (cases "n < 16")
    case True
    then show ?thesis by (subst lower_hex.simps) (simp add: radix_value_def hex_digit_nibble)
  next
    case False
    with 1 show ?thesis
      by (subst lower_hex.simps) (simp add: radix_value_snoc hex_digit_nibble)
  qed
qed

lemma lower_hex_nonempty: "lower_hex n \<noteq> []"
  by (subst lower_hex.simps) simp

lemma lower_hex_no_plus: "hd (lower_hex n) \<noteq> CHR ''+''"
proof
  assume "hd (lower_hex n) = CHR ''+''"
  then have "hex_digit (CHR ''+'') \<noteq> None"
    using lower_hex_digits [of n] lower_hex_nonempty [of n] by (cases "lower_hex n") auto
  then show False by (simp add: hex_digit_def)
qed

lemma strip_0x_prefixed [simp]: "strip_0x (''0x'' @ s) = s"
  by (simp add: strip_0x_def strip_prefix_def)

lemma parse_lower_hex [codec_simps]:
  assumes "n < 2 ^ 64"
  shows "parse_hex_u64 (''0x'' @ lower_hex n) field = Inr (of_nat n)"
proof -
  have "u64_from_str 16 hex_digit (lower_hex n) = Some (of_nat n)"
    using assms lower_hex_no_plus [of n] lower_hex_nonempty [of n]
    by (simp add: u64_from_str_def Let_def radix_digits_value [OF _ lower_hex_digits] lower_hex_value)
  then show ?thesis unfolding parse_hex_u64_def strip_0x_prefixed by simp
qed

subsection \<open>The synthetic log decodes to the call\<close>

definition head_len :: "oracle_call \<Rightarrow> nat" where
  "head_len c = (if call_kind c = CallPropose then 192 else 128)"

lemma be_word: "v < 2 ^ 64 \<Longrightarrow> replicate 24 0 @ to_be_bytes 8 (of_nat v :: u64) = nat_be 32 v"
proof (rule be_nat_inj)
  assume v: "v < 2 ^ 64"
  then have "v mod 256 ^ 32 = v" by (simp add: mod_less)
  with v show "be_nat (replicate 24 0 @ to_be_bytes 8 (of_nat v :: u64)) = be_nat (nat_be 32 v)"
    using be_nat_zero_iff [of "replicate 24 0"]
    by (simp add: be_nat_append be_nat_to_be_bytes be_nat_nat_be unat_of_nat)
qed simp

lemma pad32_ge: "len \<le> pad32 len"
  by (simp add: pad32_def)

lemma pad32_lt: "pad32 len < len + 32"
  by (simp add: pad32_def)

lemma synth_data_layout:
  assumes "call_widths c" "length (call_ancillary c) + 512 < 2 ^ 64"
  obtains pad mid where "synth_data c =
      (call_identifier c @ call_timestamp c @ nat_be 32 (head_len c) @ call_price c @ mid) @
      nat_be 32 (length (call_ancillary c)) @ call_ancillary c @ pad"
    "length (call_identifier c @ call_timestamp c @ nat_be 32 (head_len c) @ call_price c @ mid) = head_len c"
    "length pad < 32"
proof
  let ?n = "length (call_ancillary c)"
  let ?mid = "(if call_kind c = CallPropose then replicate 64 0 else []) :: bytes"
  show "synth_data c =
      (call_identifier c @ call_timestamp c @ nat_be 32 (head_len c) @ call_price c @ ?mid) @
      nat_be 32 ?n @ call_ancillary c @ replicate (pad32 ?n - ?n) 0"
    using be_word [of ?n] be_word [of "head_len c"] assms(2)
    by (auto simp: synth_data_def head_len_def Let_def)
  show "length (call_identifier c @ call_timestamp c @ nat_be 32 (head_len c) @ call_price c @ ?mid) = head_len c"
    using assms(1) by (auto simp: call_widths_def head_len_def)
  show "length (replicate (pad32 ?n - ?n) (0 :: u8)) < 32"
    using pad32_lt [of ?n] by simp
qed

lemma synth_data_fields:
  assumes "call_widths c" "length (call_ancillary c) + 512 < 2 ^ 64"
  shows "128 \<le> length (synth_data c)" "abi_word (synth_data c) 3 = call_price c"
    "dynamic_word (synth_data c) 2 = Inr (call_ancillary c)"
proof -
  let ?n = "length (call_ancillary c)"
  obtain pad mid where d: "synth_data c =
      (call_identifier c @ call_timestamp c @ nat_be 32 (head_len c) @ call_price c @ mid) @
      nat_be 32 ?n @ call_ancillary c @ pad"
    and h: "length (call_identifier c @ call_timestamp c @ nat_be 32 (head_len c) @ call_price c @ mid) = head_len c"
    and p: "length pad < 32"
    using synth_data_layout [OF assms] by blast
  have w: "length (call_identifier c) = 32" "length (call_timestamp c) = 32" "length (call_price c) = 32"
    using assms(1) by (simp_all add: call_widths_def)
  have l: "length (synth_data c) = head_len c + 32 + ?n + length pad"
    unfolding d length_append using h by simp
  have hl: "128 \<le> head_len c" "head_len c \<le> 192" by (simp_all add: head_len_def)
  show "128 \<le> length (synth_data c)" using l hl by simp
  show "abi_word (synth_data c) 3 = call_price c" by (simp add: d w abi_word_def)
  have "drop (head_len c) (synth_data c) = nat_be 32 ?n @ call_ancillary c @ pad"
    unfolding d using h by (metis append_eq_conv_conj)
  then have d1: "take 32 (drop (head_len c) (synth_data c)) = nat_be 32 ?n"
    and d2: "drop (head_len c + 32) (synth_data c) = call_ancillary c @ pad"
    by (simp_all add: drop_drop [symmetric] add.commute [of _ 32] del: drop_drop)
  have "dynamic_word (synth_data c) 2 = Inr (take ?n (drop (head_len c + 32) (synth_data c)))"
  proof (rule dynamic_word_at [OF _ _ _ d1])
    show "abi_word (synth_data c) 2 = nat_be 32 (head_len c)" by (simp add: d w abi_word_def)
    show "length (synth_data c) < 2 ^ 64" using l hl p assms(2) by linarith
  qed (use l hl in simp_all)
  then show "dynamic_word (synth_data c) 2 = Inr (call_ancillary c)" by (simp add: d2)
qed

definition synth_request :: "crypto \<Rightarrow> oracle_call \<Rightarrow> price_request" where
  "synth_request C c =
     \<lparr> requester = call_requester c,
       request_condition_id = derive_binary_condition_id C (call_requester c) (keccak256 C (call_ancillary c)),
       ancillary = \<lparr> question_id = keccak256 C (call_ancillary c),
                     anc_market_id = field_number (call_ancillary c) ''market_id'' \<rparr>,
       proposed_price = call_price c \<rparr>"

definition synth_event :: "crypto \<Rightarrow> oracle_call \<Rightarrow> bytes \<Rightarrow> nat \<Rightarrow> u64 \<Rightarrow> uma_event" where
  "synth_event C c tx index received =
     (let chain = \<lparr> block_number = 0, transaction_hash = tx, log_index = of_nat index,
                    upstream_received_at_us = received, removed = False \<rparr>
      in case call_kind c of
           CallPropose \<Rightarrow> ProposePrice \<lparr> propose_chain = chain, propose_request = synth_request C c \<rparr>
         | CallDispute \<Rightarrow> DisputePrice \<lparr> dispute_chain = chain, dispute_request = synth_request C c \<rparr>)"

lemma decode_hex0x: "crypto_ok C \<Longrightarrow> decode_hex C (hex0x C bs) f = Inr bs"
  unfolding decode_hex_def hex0x_def strip_0x_prefixed by (simp add: crypto_ok_def)

lemma topic_address_topic_addr:
  "crypto_ok C \<Longrightarrow> length a = 20 \<Longrightarrow> topic_address C (topic_addr C a) = Inr a"
  by (simp add: topic_address_def topic_addr_def decode_fixed_def decode_hex0x fixed_def)

lemma topics_lowercase:
  "to_ascii_lowercase TOPIC_PROPOSE_PRICE = TOPIC_PROPOSE_PRICE"
  "to_ascii_lowercase TOPIC_DISPUTE_PRICE = TOPIC_DISPUTE_PRICE"
  "TOPIC_DISPUTE_PRICE \<noteq> TOPIC_PROPOSE_PRICE"
  by (simp_all add: to_ascii_lowercase_def TOPIC_PROPOSE_PRICE_def TOPIC_DISPUTE_PRICE_def)

lemma synth_build_chain:
  assumes "decode_fixed C 32 tx ''transactionHash'' = Inr txb" "index < 2 ^ 32"
  shows "build_chain C (synth_log C c tx index to from') rx =
    Inr \<lparr> block_number = 0, transaction_hash = txb, log_index = of_nat index,
          upstream_received_at_us = rx, removed = False \<rparr>"
proof -
  have "parse_hex_u64 (''0x'' @ lower_hex index) ''logIndex'' = Inr (of_nat index)"
    using assms(2) by (intro parse_lower_hex) simp
  moreover have "parse_hex_u64 ''0x0'' ''blockNumber'' = Inr 0"
    by (simp add: parse_hex_u64_def strip_0x_def strip_prefix_def u64_from_str_def hex_digit_def)
  moreover have "unat (of_nat index :: u64) = index" "ucast (of_nat index :: u64) = (of_nat index :: u32)"
    using assms(2) by (simp_all add: unat_of_nat word_unat_eq_iff unsigned_ucast_eq take_bit_eq_mod)
  ultimately show ?thesis
    using assms by (simp add: build_chain_def synth_log_def Let_def del: append.simps)
qed

lemma synth_parse_request:
  assumes "crypto_ok C" "call_widths c" "length (call_ancillary c) + 512 < 2 ^ 64" "utf8_valid (call_ancillary c)"
  shows "parse_request C (synth_log C c tx index to from') (synth_data c) = Inr (synth_request C c)"
proof -
  have "log_topics (synth_log C c tx index to from') ! 1 = topic_addr C (call_requester c)"
    by (simp add: synth_log_def Let_def)
  moreover have "topic_address C (topic_addr C (call_requester c)) = Inr (call_requester c)"
    using assms(1,2) by (simp add: topic_address_topic_addr call_widths_def)
  ultimately show ?thesis
    using synth_data_fields [OF assms(2,3)] assms(4)
    by (simp add: parse_request_def parse_ancillary_def synth_request_def del: and_then_Inr)
qed


subsection \<open>Calls encoded as the ABI says are found\<close>

definition abi_selector :: "oracle_call \<Rightarrow> bytes" where
  "abi_selector c =
     (case (call_kind c, call_actor c) of
        (CallPropose, None) \<Rightarrow> SEL_PROPOSE
      | (CallPropose, Some _) \<Rightarrow> SEL_PROPOSE_FOR
      | (CallDispute, None) \<Rightarrow> SEL_DISPUTE
      | (CallDispute, Some _) \<Rightarrow> SEL_DISPUTE_FOR)"

definition abi_words :: "oracle_call \<Rightarrow> nat" where
  "abi_words c = (if call_kind c = CallPropose then 5 else 4) + (if call_actor c = None then 0 else 1)"

definition abi_args :: "oracle_call \<Rightarrow> bytes" where
  "abi_args c =
     (case call_actor c of None \<Rightarrow> [] | Some a \<Rightarrow> replicate 12 0 @ a) @
     (replicate 12 0 @ call_requester c) @ call_identifier c @ call_timestamp c @
     nat_be 32 (abi_words c * 32) @ (if call_kind c = CallPropose then call_price c else []) @
     nat_be 32 (length (call_ancillary c)) @ call_ancillary c @
     replicate (pad32 (length (call_ancillary c)) - length (call_ancillary c)) 0"

definition abi_call :: "oracle_call \<Rightarrow> bytes" where
  "abi_call c = abi_selector c @ abi_args c"

lemma usize_at_be:
  assumes "length b < 2 ^ 64" "unat o' + 32 \<le> length b" "take 32 (drop (unat o') b) = nat_be 32 v" "v < 2 ^ 64"
  shows "usize_at b o' = Some (of_nat v)"
proof -
  have "slice_get b o' (o' + 32) = Some (nat_be 32 v)"
    using slice_get_add [OF assms(1), of o' 32] assms(2,3) by simp
  moreover have bv: "be_nat (nat_be 32 v) = v" using assms(4) by (simp add: be_nat_nat_be mod_less)
  moreover have "\<not> list_ex (\<lambda>b. b \<noteq> 0) (take 24 (nat_be 32 v))"
    using abi_word_u64(1) [of "nat_be 32 v"] assms(4) bv by simp
  moreover have "unat (of_nat (be_nat (drop 24 (nat_be 32 v))) :: u64) = v"
    using abi_word_u64(2) [of "nat_be 32 v"] calculation by simp
  then have "(of_nat (be_nat (drop 24 (nat_be 32 v))) :: u64) = of_nat v"
    using assms(4) by (simp add: word_unat_eq_iff unat_of_nat)
  ultimately show ?thesis by (simp add: usize_at_def)
qed

lemma dynamic_bytes_at:
  assumes "length b < 2 ^ 64" "unat i < 2 ^ 32" "unat i * 32 + 32 \<le> length b"
    and "take 32 (drop (unat i * 32) b) = nat_be 32 off" "take 32 (drop off b) = nat_be 32 len"
    and "off + 32 + len \<le> length b"
  shows "dynamic_bytes b i = Some (take len (drop (off + 32) b))"
proof -
  have i: "unat (i * 32) = unat i * 32" using assms(2) by (simp add: unat_word_ariths)
  have o': "unat (of_nat off :: u64) = off" and l: "unat (of_nat len :: u64) = len"
    using assms(1,6) by (simp_all add: unat_of_nat)
  have "unat (of_nat off + 32 :: u64) = off + 32"
    using o' assms(1,6) by (simp add: unat_word_ariths)
  then have "slice_get b (of_nat off + 32) (of_nat off + 32 + of_nat len) = Some (take len (drop (off + 32) b))"
    using slice_get_add [OF assms(1), of "of_nat off + 32" "of_nat len"] assms(6) l by simp
  moreover have "usize_at b (i * 32) = Some (of_nat off)"
    using assms i by (intro usize_at_be) auto
  moreover have "usize_at b (of_nat off) = Some (of_nat len)"
    using assms o' by (intro usize_at_be) auto
  ultimately show ?thesis by (simp add: dynamic_bytes_def)
qed

lemma selectors_distinct:
  "SEL_PROPOSE \<noteq> SEL_PROPOSE_FOR" "SEL_PROPOSE \<noteq> SEL_DISPUTE" "SEL_PROPOSE \<noteq> SEL_DISPUTE_FOR"
  "SEL_PROPOSE_FOR \<noteq> SEL_DISPUTE" "SEL_PROPOSE_FOR \<noteq> SEL_DISPUTE_FOR" "SEL_DISPUTE \<noteq> SEL_DISPUTE_FOR"
  "SEL_MULTICALL \<notin> {SEL_PROPOSE, SEL_PROPOSE_FOR, SEL_DISPUTE, SEL_DISPUTE_FOR}"
  "length SEL_PROPOSE = 4" "length SEL_PROPOSE_FOR = 4" "length SEL_DISPUTE = 4" "length SEL_DISPUTE_FOR = 4"
  by (simp_all add: SEL_PROPOSE_def SEL_PROPOSE_FOR_def SEL_DISPUTE_def SEL_DISPUTE_FOR_def SEL_MULTICALL_def)

lemma arg_word_nat:
  assumes "unat i < 2 ^ 32"
  shows "arg_word b i = (if unat i * 32 + 32 \<le> length b then Some (take 32 (drop (unat i * 32) b)) else None)"
proof -
  have "unat (i + 1) = unat i + 1" using assms by (simp add: unat_word_ariths)
  then have "unat (i * 32) = unat i * 32" "unat ((i + 1) * 32) = unat i * 32 + 32"
    using assms by (simp_all add: unat_word_ariths)
  then show ?thesis by (simp add: arg_word_def slice_get_def word_le_nat_alt)
qed

lemma abi_args_layout:
  assumes "call_widths c" "call_actor c = None"
  shows "take 32 (drop 0 (abi_args c)) = replicate 12 0 @ call_requester c"
    "take 32 (drop 32 (abi_args c)) = call_identifier c"
    "take 32 (drop 64 (abi_args c)) = call_timestamp c"
    "take 32 (drop 96 (abi_args c)) = nat_be 32 (abi_words c * 32)"
    "call_kind c = CallPropose \<Longrightarrow> take 32 (drop 128 (abi_args c)) = call_price c"
    "drop (abi_words c * 32) (abi_args c) = nat_be 32 (length (call_ancillary c)) @ call_ancillary c @
       replicate (pad32 (length (call_ancillary c)) - length (call_ancillary c)) 0"
    "length (abi_args c) = abi_words c * 32 + 32 + pad32 (length (call_ancillary c))"
  using assms pad32_ge [of "length (call_ancillary c)"]
  by (auto simp: abi_args_def abi_words_def call_widths_def)

lemma abi_args_layout_for:
  assumes "call_widths c" "call_actor c = Some a"
  shows "take 32 (drop 0 (abi_args c)) = replicate 12 0 @ a"
    "take 32 (drop 32 (abi_args c)) = replicate 12 0 @ call_requester c"
    "take 32 (drop 64 (abi_args c)) = call_identifier c"
    "take 32 (drop 96 (abi_args c)) = call_timestamp c"
    "take 32 (drop 128 (abi_args c)) = nat_be 32 (abi_words c * 32)"
    "call_kind c = CallPropose \<Longrightarrow> take 32 (drop 160 (abi_args c)) = call_price c"
    "drop (abi_words c * 32) (abi_args c) = nat_be 32 (length (call_ancillary c)) @ call_ancillary c @
       replicate (pad32 (length (call_ancillary c)) - length (call_ancillary c)) 0"
    "length (abi_args c) = abi_words c * 32 + 32 + pad32 (length (call_ancillary c))"
  using assms pad32_ge [of "length (call_ancillary c)"]
  by (auto simp: abi_args_def abi_words_def call_widths_def)

lemma abi_words_bounds: "4 \<le> abi_words c" "abi_words c \<le> 6"
  by (simp_all add: abi_words_def)

lemma abi_dynamic_bytes:
  assumes "length (call_ancillary c) + 512 < 2 ^ 64" "unat i * 32 + 32 \<le> abi_words c * 32"
    and "take 32 (drop (unat i * 32) (abi_args c)) = nat_be 32 (abi_words c * 32)"
    and "drop (abi_words c * 32) (abi_args c) = nat_be 32 (length (call_ancillary c)) @ call_ancillary c @ pad"
    and "length (abi_args c) = abi_words c * 32 + 32 + pad32 (length (call_ancillary c))"
  shows "dynamic_bytes (abi_args c) i = Some (call_ancillary c)"
proof -
  let ?n = "length (call_ancillary c)" and ?b = "abi_args c"
  have "drop (abi_words c * 32 + 32) ?b = call_ancillary c @ pad"
    using assms(4) by (simp add: drop_drop [symmetric] add.commute [of _ 32] del: drop_drop)
  moreover have "dynamic_bytes ?b i = Some (take ?n (drop (abi_words c * 32 + 32) ?b))"
  proof (rule dynamic_bytes_at [OF _ _ _ assms(3)])
    show "length ?b < 2 ^ 64" using assms(1,5) pad32_lt [of ?n] abi_words_bounds [of c] by linarith
    show "take 32 (drop (abi_words c * 32) ?b) = nat_be 32 ?n" using assms(4) by simp
    show "unat i < 2 ^ 32" using assms(2) abi_words_bounds [of c] by simp
  qed (use assms(2,5) pad32_ge [of ?n] in auto)
  ultimately show ?thesis by simp
qed

lemma decode_input_abi:
  assumes "call_widths c" "call_kind c = CallDispute \<Longrightarrow> call_price c = replicate 32 0"
    and "length (call_ancillary c) + 512 < 2 ^ 64"
  shows "decode_input (abi_call c) = [c]"
proof -
  have sel: "take 4 (abi_call c) = abi_selector c" "drop 4 (abi_call c) = abi_args c" "4 \<le> length (abi_call c)"
    "\<not> length (abi_call c) < 4"
    "abi_selector c \<noteq> SEL_MULTICALL"
    using selectors_distinct
    by (auto simp: abi_call_def abi_selector_def split: call_kind.splits option.splits)
  have small: "unat (0 :: u64) = 0" "unat (1 :: u64) = 1" "unat (2 :: u64) = 2" "unat (3 :: u64) = 3"
    "unat (4 :: u64) = 4" "unat (5 :: u64) = 5" by simp_all
  have "decode_one (abi_call c) = Some c"
  proof (cases "call_actor c")
    case None
    note l = abi_args_layout [OF assms(1) None]
    have "dynamic_bytes (abi_args c) 3 = Some (call_ancillary c)"
      using l abi_words_bounds [of c] by (intro abi_dynamic_bytes [OF assms(3)]) auto
    moreover have "arg_word (abi_args c) 0 = Some (replicate 12 0 @ call_requester c)"
        "arg_word (abi_args c) 1 = Some (call_identifier c)" "arg_word (abi_args c) 2 = Some (call_timestamp c)"
        "call_kind c = CallPropose \<Longrightarrow> arg_word (abi_args c) 4 = Some (call_price c)"
      using l abi_words_bounds [of c] by (simp_all add: arg_word_nat)
    ultimately show ?thesis
      using assms(2) None selectors_distinct
      by (cases "call_kind c") (simp_all add: decode_one_def sel del: take_drop drop_drop, simp_all add: abi_selector_def arg_address_def)
  next
    case (Some a)
    note l = abi_args_layout_for [OF assms(1) Some]
    have "dynamic_bytes (abi_args c) 4 = Some (call_ancillary c)"
      using l abi_words_bounds [of c] Some
      by (intro abi_dynamic_bytes [OF assms(3)]) (auto simp: abi_words_def)
    moreover have "arg_word (abi_args c) 0 = Some (replicate 12 0 @ a)"
        "arg_word (abi_args c) 1 = Some (replicate 12 0 @ call_requester c)"
        "arg_word (abi_args c) 2 = Some (call_identifier c)" "arg_word (abi_args c) 3 = Some (call_timestamp c)"
        "call_kind c = CallPropose \<Longrightarrow> arg_word (abi_args c) 5 = Some (call_price c)"
      using l Some by (simp_all add: arg_word_nat abi_words_def)
    ultimately show ?thesis
      using assms(2) Some selectors_distinct
      by (cases "call_kind c") (simp_all add: decode_one_def sel del: take_drop drop_drop, simp_all add: abi_selector_def arg_address_def)
  qed
  with sel show ?thesis by (simp add: decode_input_def)
qed

text \<open>
  C12: a transaction input that is the ABI encoding of \<open>proposePrice\<close>,
  \<open>proposePriceFor\<close>, \<open>disputePrice\<close> or \<open>disputePriceFor\<close> is decoded to exactly
  that one call, every field included.
\<close>

theorem decode_input_abi_call:
  assumes "call_widths c" "call_kind c = CallDispute \<Longrightarrow> call_price c = replicate 32 0"
    and "length (call_ancillary c) + 512 < 2 ^ 64"
  shows "decode_input (abi_call c) = [c]"
  using assms by (rule decode_input_abi)

definition sample_call :: oracle_call where
  "sample_call =
     \<lparr> call_kind = CallPropose, call_requester = replicate 20 1, call_identifier = replicate 32 0,
       call_timestamp = replicate 31 0 @ [9], call_ancillary = str_bytes ''market_id: 42'',
       call_price = replicate 32 0, call_actor = None \<rparr>"

lemma sample_call_widths: "call_widths sample_call"
  by (simp add: call_widths_def sample_call_def)

theorem decode_input_abi_call_witness: "decode_input (abi_call sample_call) = [sample_call]"
  by (rule decode_input_abi_call [OF sample_call_widths]) (simp_all add: sample_call_def str_bytes_def)

lemma sample_call_found: "sample_call \<in> set (decode_input (abi_call sample_call))"
  using decode_input_abi [OF sample_call_widths] by (simp add: sample_call_def str_bytes_def)


end
