(* ===== verification/Gate.thy ===== *)
theory Gate
  imports Calldata "HOL-Library.Multiset"
begin

text \<open>
  \<open>mempool/gate.rs\<close>: which pending calls are pushed.  The gate is a record of
  the struct's maps; every operation returns the updated gate.  Floating point is
  abstract: \<open>f64_ops\<close> names the operations the scoring and the quantile use.
\<close>

record 'f f64_ops =
  f64_of_nat :: "nat \<Rightarrow> 'f"
  f64_add :: "'f \<Rightarrow> 'f \<Rightarrow> 'f"
  f64_sub :: "'f \<Rightarrow> 'f \<Rightarrow> 'f"
  f64_mul :: "'f \<Rightarrow> 'f \<Rightarrow> 'f"
  f64_div :: "'f \<Rightarrow> 'f \<Rightarrow> 'f"
  f64_sqrt :: "'f \<Rightarrow> 'f"
  f64_ge :: "'f \<Rightarrow> 'f \<Rightarrow> bool"
  f64_round_to_usize :: "'f \<Rightarrow> nat"
  f64_const_1_645 :: 'f

record 'f gate_config =
  trust_min_n :: u32
  trust_min_rate :: 'f
  tip_quantile :: 'f
  tip_window_us :: u64
  tip_min_samples :: nat
  state_ttl_us :: u64

datatype drop_reason =
    AlreadyProposed | AlreadyDisputed | Duplicate | Conflict | StaleRound | Untrusted | LowTip

datatype verdict = Emit | Drop drop_reason

record req_state =
  emitted_price :: "bytes option"
  emitted_dispute :: bool
  proposed :: "bytes option"
  disputed :: bool
  pendings :: "(bytes \<times> bytes) list"
  touched_us :: u64

definition req_state_default :: req_state where
  "req_state_default =
     \<lparr> emitted_price = None, emitted_dispute = False, proposed = None, disputed = False, pendings = [], touched_us = 0 \<rparr>"

record sender_stat =
  agree :: u32
  disagree :: u32

definition sender_stat_default :: sender_stat where
  "sender_stat_default = \<lparr> agree = 0, disagree = 0 \<rparr>"

record 'f gate =
  gate_cfg :: "'f gate_config"
  reqs :: "request_key \<rightharpoonup> req_state"
  latest_round :: "bytes \<times> bytes \<rightharpoonup> u64"
  senders :: "bytes \<rightharpoonup> sender_stat"
  tips :: "(u64 \<times> u64) list"
  tx_tip :: "string \<rightharpoonup> u64 \<times> u64"
  emitted :: u64
  dropped :: "drop_reason \<rightharpoonup> u64"

definition gate_new :: "'f gate_config \<Rightarrow> 'f gate" where
  "gate_new cfg =
     \<lparr> gate_cfg = cfg, reqs = Map.empty, latest_round = Map.empty, senders = Map.empty, tips = [],
       tx_tip = Map.empty, emitted = 0, dropped = Map.empty \<rparr>"

definition or_default :: "'v option \<Rightarrow> 'v \<Rightarrow> 'v" where
  "or_default v d = (case v of Some x \<Rightarrow> x | None \<Rightarrow> d)"

definition trusted :: "'f f64_ops \<Rightarrow> bytes \<Rightarrow> 'f gate \<Rightarrow> bool" where
  "trusted F sender g =
     (let s = or_default (senders g sender) sender_stat_default;
          n = agree s + disagree s
      in if n < trust_min_n (gate_cfg g) then False
         else
           let one = f64_of_nat F 1;
               p = f64_div F (f64_add F (f64_of_nat F (unat (agree s))) one)
                             (f64_add F (f64_of_nat F (unat n)) (f64_of_nat F 2));
               lo = f64_sub F p (f64_mul F (f64_const_1_645 F)
                      (f64_sqrt F (f64_div F (f64_mul F p (f64_sub F one p))
                                             (f64_add F (f64_of_nat F (unat n)) (f64_of_nat F 3)))))
           in f64_ge F lo (trust_min_rate (gate_cfg g)))"

text \<open>
  The tip floor expires old samples from the front, then takes a quantile.  An
  index past the samples panics in Rust; here it is the error \<open>Inl ()\<close>.
\<close>

definition expire_tips :: "u64 \<Rightarrow> u64 \<Rightarrow> (u64 \<times> u64) list \<Rightarrow> (u64 \<times> u64) list" where
  "expire_tips now window ts = dropWhile (\<lambda>(t, _). saturating_sub now t > window) ts"

definition tip_floor :: "'f f64_ops \<Rightarrow> u64 \<Rightarrow> 'f gate \<Rightarrow> (unit + u64 option) \<times> 'f gate" where
  "tip_floor F now g =
     (let ts = expire_tips now (tip_window_us (gate_cfg g)) (tips g);
          g' = g\<lparr> tips := ts \<rparr>
      in if length ts < tip_min_samples (gate_cfg g) then (Inr None, g')
         else
           let v = sort (map snd ts);
               i = f64_round_to_usize F (f64_mul F (f64_of_nat F (length v - 1)) (tip_quantile (gate_cfg g)))
           in if i < length v then (Inr (Some (v ! i)), g') else (Inl (), g'))"

definition gate_drop :: "drop_reason \<Rightarrow> 'f gate \<Rightarrow> verdict \<times> 'f gate" where
  "gate_drop why g = (Drop why, g\<lparr> dropped := (dropped g)(why \<mapsto> or_default (dropped g why) 0 + 1) \<rparr>)"

definition set_req :: "request_key \<Rightarrow> req_state \<Rightarrow> 'f gate \<Rightarrow> 'f gate" where
  "set_req key st g = g\<lparr> reqs := (reqs g)(key \<mapsto> st) \<rparr>"

definition check_propose ::
  "oracle_call \<Rightarrow> request_key \<Rightarrow> req_state \<Rightarrow> bytes \<Rightarrow> u64 \<Rightarrow> bool \<Rightarrow> u64 option \<Rightarrow> 'f gate \<Rightarrow> verdict \<times> 'f gate" where
  "check_propose call key st0 sender tip trust floor g =
     (let st = (if length (pendings st0) < 32 then st0\<lparr> pendings := pendings st0 @ [(sender, call_price call)] \<rparr> else st0);
          g1 = set_req key st g
      in if disputed st then gate_drop AlreadyDisputed g1
         else if proposed st \<noteq> None then gate_drop AlreadyProposed g1
         else case emitted_price st of
                Some p \<Rightarrow> gate_drop (if p = call_price call then Duplicate else Conflict) g1
              | None \<Rightarrow>
                  if \<not> trust then gate_drop Untrusted g1
                  else if (case floor of None \<Rightarrow> False | Some f \<Rightarrow> tip < f) then gate_drop LowTip g1
                  else (Emit, (set_req key (st\<lparr> emitted_price := Some (call_price call) \<rparr>) g1)\<lparr> emitted := emitted g + 1 \<rparr>))"

definition check_dispute ::
  "request_key \<Rightarrow> req_state \<Rightarrow> u64 \<Rightarrow> u64 option \<Rightarrow> 'f gate \<Rightarrow> verdict \<times> 'f gate" where
  "check_dispute key st tip floor g =
     (let g1 = set_req key st g
      in if disputed st then gate_drop AlreadyDisputed g1
         else if emitted_dispute st then gate_drop Duplicate g1
         else if (case floor of None \<Rightarrow> False | Some f \<Rightarrow> tip < f) then gate_drop LowTip g1
         else (Emit, (set_req key (st\<lparr> emitted_dispute := True \<rparr>) g1)\<lparr> emitted := emitted g + 1 \<rparr>))"

text \<open>\<open>None\<close> is the panic of the quantile index, which aborts a release build.\<close>

definition gate_check ::
  "'f f64_ops \<Rightarrow> crypto \<Rightarrow> oracle_call \<Rightarrow> bytes \<Rightarrow> u64 \<Rightarrow> string \<Rightarrow> u64 \<Rightarrow> 'f gate \<Rightarrow> verdict option \<times> 'f gate" where
  "gate_check F C call sender tip tx now g0 =
     (let g1 = g0\<lparr> tx_tip := (tx_tip g0)(tx \<mapsto> (now, tip)) \<rparr>;
          key = request_key_of C call;
          round = or_default (latest_round g1 (request_key_market key)) (key_timestamp key)
      in if key_timestamp key < round
         then map_prod Some id (gate_drop StaleRound
                (g1\<lparr> latest_round := (latest_round g1)(request_key_market key \<mapsto> round) \<rparr>))
         else
           let g2 = g1\<lparr> latest_round := (latest_round g1)(request_key_market key \<mapsto> key_timestamp key) \<rparr>;
               (floor, g3) = tip_floor F now g2
           in case floor of
                Inl _ \<Rightarrow> (None, g3)
              | Inr fl \<Rightarrow>
                  let trust = trusted F sender g3;
                      st = (or_default (reqs g3 key) req_state_default)\<lparr> touched_us := now \<rparr>
                  in map_prod Some id
                       (case call_kind call of
                          CallPropose \<Rightarrow> check_propose call key st sender tip trust fl g3
                        | CallDispute \<Rightarrow> check_dispute key st tip fl g3))"

definition score_pending :: "bytes \<Rightarrow> bytes \<times> bytes \<Rightarrow> (bytes \<rightharpoonup> sender_stat) \<Rightarrow> (bytes \<rightharpoonup> sender_stat)" where
  "score_pending price sp m =
     (let s = or_default (m (fst sp)) sender_stat_default
      in m(fst sp \<mapsto> (if snd sp = price then s\<lparr> agree := agree s + 1 \<rparr> else s\<lparr> disagree := disagree s + 1 \<rparr>)))"

definition on_confirmed ::
  "call_kind \<Rightarrow> request_key \<Rightarrow> bytes \<Rightarrow> string \<Rightarrow> u64 \<Rightarrow> 'f gate \<Rightarrow> 'f gate" where
  "on_confirmed kind key price tx now g0 =
     (let round = or_default (latest_round g0 (request_key_market key)) (key_timestamp key);
          g1 = g0\<lparr> latest_round := (latest_round g0)(request_key_market key \<mapsto> max round (key_timestamp key)) \<rparr>;
          g2 = (case tx_tip g1 tx of
                  Some (_, tip) \<Rightarrow> if kind = CallPropose then g1\<lparr> tips := tips g1 @ [(now, tip)] \<rparr> else g1
                | None \<Rightarrow> g1);
          st = (or_default (reqs g2 key) req_state_default)\<lparr> touched_us := now \<rparr>
      in case kind of
           CallPropose \<Rightarrow>
             if proposed st = None
             then (set_req key (st\<lparr> proposed := Some price, pendings := [] \<rparr>) g2)
                    \<lparr> senders := fold (score_pending price) (pendings st) (senders g2) \<rparr>
             else set_req key st g2
         | CallDispute \<Rightarrow> set_req key (st\<lparr> disputed := True \<rparr>) g2)"

definition gate_prune :: "u64 \<Rightarrow> 'f gate \<Rightarrow> 'f gate" where
  "gate_prune now g =
     g\<lparr> reqs := (\<lambda>k. case reqs g k of
                   Some st \<Rightarrow> if saturating_sub now (touched_us st) < state_ttl_us (gate_cfg g) then Some st else None
                 | None \<Rightarrow> None),
        tx_tip := (\<lambda>h. case tx_tip g h of
                   Some (t, v) \<Rightarrow> if saturating_sub now t < tip_window_us (gate_cfg g) then Some (t, v) else None
                 | None \<Rightarrow> None) \<rparr>"

subsection \<open>Runs of the gate\<close>

datatype gate_op =
    OpCheck oracle_call bytes u64 string u64
  | OpConfirmed call_kind request_key bytes string u64
  | OpPrune u64

fun gate_step :: "'f f64_ops \<Rightarrow> crypto \<Rightarrow> gate_op \<Rightarrow> 'f gate \<Rightarrow> 'f gate" where
  "gate_step F C (OpCheck call sender tip tx now) g = snd (gate_check F C call sender tip tx now g)"
| "gate_step F C (OpConfirmed kind key price tx now) g = on_confirmed kind key price tx now g"
| "gate_step F C (OpPrune now) g = gate_prune now g"

abbreviation gate_run :: "'f f64_ops \<Rightarrow> crypto \<Rightarrow> gate_op list \<Rightarrow> 'f gate \<Rightarrow> 'f gate" where
  "gate_run F C ops \<equiv> fold (gate_step F C) ops"

text \<open>A request is closed for a kind of call once such a call was pushed or the chain decided it.\<close>

fun closed_for :: "call_kind \<Rightarrow> req_state \<Rightarrow> bool" where
  "closed_for CallPropose st \<longleftrightarrow> disputed st \<or> proposed st \<noteq> None \<or> emitted_price st \<noteq> None"
| "closed_for CallDispute st \<longleftrightarrow> disputed st \<or> emitted_dispute st"

definition request_closed :: "request_key \<Rightarrow> call_kind \<Rightarrow> 'f gate \<Rightarrow> bool" where
  "request_closed key kind g \<longleftrightarrow> closed_for kind (or_default (reqs g key) req_state_default)"

lemma tip_floor_keeps:
  "tip_floor F now g = (r, g') \<Longrightarrow> reqs g' = reqs g \<and> latest_round g' = latest_round g \<and>
     senders g' = senders g \<and> gate_cfg g' = gate_cfg g \<and> tx_tip g' = tx_tip g \<and>
     emitted g' = emitted g \<and> dropped g' = dropped g"
  by (auto simp: tip_floor_def Let_def split: if_splits)

lemma gate_drop_simps [simp]:
  "fst (gate_drop w g) = Drop w" "reqs (snd (gate_drop w g)) = reqs g"
  "latest_round (snd (gate_drop w g)) = latest_round g" "senders (snd (gate_drop w g)) = senders g"
  by (simp_all add: gate_drop_def)

lemma set_req_simps [simp]:
  "reqs (set_req k st g) = (reqs g)(k \<mapsto> st)" "latest_round (set_req k st g) = latest_round g"
  "senders (set_req k st g) = senders g"
  by (simp_all add: set_req_def)

lemma or_default_simps [simp]: "or_default (Some x) d = x" "or_default None d = d"
  by (simp_all add: or_default_def)

lemma closed_for_touched [simp]: "closed_for k (st\<lparr> touched_us := t \<rparr>) = closed_for k st"
  by (cases k) simp_all

lemma check_propose_closes:
  assumes "check_propose call key st sender tip trust fl g = (v, g')"
  shows "v = Emit \<longrightarrow> \<not> closed_for CallPropose st \<and> request_closed key CallPropose g' \<and> trust \<and>
      (\<forall>f. fl = Some f \<longrightarrow> f \<le> tip)"
    and "closed_for k st \<longrightarrow> request_closed key k g'"
    and "key' \<noteq> key \<Longrightarrow> reqs g' key' = reqs g key'"
    and "latest_round g' = latest_round g"
  using assms
  by (cases k; auto simp: check_propose_def Let_def request_closed_def gate_drop_def
      split: if_splits option.splits)+

lemma check_dispute_closes:
  assumes "check_dispute key st tip fl g = (v, g')"
  shows "v = Emit \<longrightarrow> \<not> closed_for CallDispute st \<and> request_closed key CallDispute g' \<and>
      (\<forall>f. fl = Some f \<longrightarrow> f \<le> tip)"
    and "closed_for k st \<longrightarrow> request_closed key k g'"
    and "key' \<noteq> key \<Longrightarrow> reqs g' key' = reqs g key'"
    and "latest_round g' = latest_round g"
  using assms
  by (cases k; auto simp: check_dispute_def Let_def request_closed_def gate_drop_def
      split: if_splits option.splits)+

text \<open>The three ways a check ends.\<close>

lemma gate_check_cases:
  fixes g :: "'f gate"
  assumes "gate_check F C call sender tip tx now g = (v, g')"
  obtains (stale) rnd where "latest_round g (request_key_market (request_key_of C call)) = Some rnd"
      "key_timestamp (request_key_of C call) < rnd" "v = Some (Drop StaleRound)"
      "reqs g' = reqs g" "latest_round g' = latest_round g" "senders g' = senders g"
    | (panic) "v = None" "reqs g' = reqs g"
      "latest_round g' = (latest_round g)(request_key_market (request_key_of C call) \<mapsto> key_timestamp (request_key_of C call))"
      "\<forall>rnd. latest_round g (request_key_market (request_key_of C call)) = Some rnd \<longrightarrow>
         rnd \<le> key_timestamp (request_key_of C call)"
    | (decided) fl g3 v' where "v = Some v'" "reqs g3 = reqs g" "senders g3 = senders g" "gate_cfg g3 = gate_cfg g"
      "latest_round g3 = (latest_round g)(request_key_market (request_key_of C call) \<mapsto> key_timestamp (request_key_of C call))"
      "fst (tip_floor F now g) = Inr fl"
      "\<forall>rnd. latest_round g (request_key_market (request_key_of C call)) = Some rnd \<longrightarrow>
         rnd \<le> key_timestamp (request_key_of C call)"
      "(case call_kind call of
          CallPropose \<Rightarrow> check_propose call (request_key_of C call)
            ((or_default (reqs g (request_key_of C call)) req_state_default)\<lparr> touched_us := now \<rparr>)
            sender tip (trusted F sender g) fl g3
        | CallDispute \<Rightarrow> check_dispute (request_key_of C call)
            ((or_default (reqs g (request_key_of C call)) req_state_default)\<lparr> touched_us := now \<rparr>)
            tip fl g3) = (v', g')"
proof -
  define key where "key = request_key_of C call"
  define rnd where "rnd = or_default (latest_round g (request_key_market key)) (key_timestamp key)"
  define g1 where "g1 = g\<lparr> tx_tip := (tx_tip g)(tx \<mapsto> (now, tip)) \<rparr>"
  define g2 where "g2 = g1\<lparr> latest_round := (latest_round g1)(request_key_market key \<mapsto> key_timestamp key) \<rparr>"
  have le: "\<not> key_timestamp key < rnd \<Longrightarrow>
      \<forall>r. latest_round g (request_key_market key) = Some r \<longrightarrow> r \<le> key_timestamp key"
    by (auto simp: rnd_def)
  show thesis
  proof (cases "key_timestamp key < rnd")
    case True
    then obtain r where "latest_round g (request_key_market key) = Some r" "rnd = r"
      by (cases "latest_round g (request_key_market key)") (auto simp: rnd_def)
    with True assms show thesis
      by (intro stale) (auto simp: gate_check_def Let_def key_def [symmetric] gate_drop_def)
  next
    case False
    obtain r g3 where tf: "tip_floor F now g2 = (r, g3)" by (cases "tip_floor F now g2")
    have same: "fst (tip_floor F now g2) = fst (tip_floor F now g)"
      by (simp add: tip_floor_def g2_def g1_def Let_def)
    note keeps = tip_floor_keeps [OF tf]
    have tr: "trusted F sender g3 = trusted F sender g"
      using keeps by (simp add: trusted_def g2_def g1_def)
    have chk: "gate_check F C call sender tip tx now g =
        (case r of Inl _ \<Rightarrow> (None, g3)
         | Inr fl \<Rightarrow> map_prod Some id (case call_kind call of
             CallPropose \<Rightarrow> check_propose call key ((or_default (reqs g key) req_state_default)\<lparr> touched_us := now \<rparr>)
               sender tip (trusted F sender g) fl g3
           | CallDispute \<Rightarrow> check_dispute key ((or_default (reqs g key) req_state_default)\<lparr> touched_us := now \<rparr>) tip fl g3))"
      using False tf keeps tr unfolding gate_check_def Let_def g1_def [symmetric] key_def [symmetric]
      by (simp add: rnd_def g2_def g1_def split: sum.splits call_kind.splits)
    show thesis
    proof (cases r)
      case (Inl u)
      with chk assms keeps le [OF False] show thesis
        by (intro panic) (auto simp: key_def g2_def g1_def)
    next
      case (Inr fl)
      with chk assms have "map_prod Some id (case call_kind call of
             CallPropose \<Rightarrow> check_propose call key ((or_default (reqs g key) req_state_default)\<lparr> touched_us := now \<rparr>)
               sender tip (trusted F sender g) fl g3
           | CallDispute \<Rightarrow> check_dispute key ((or_default (reqs g key) req_state_default)\<lparr> touched_us := now \<rparr>) tip fl g3)
           = (v, g')" by simp
      then obtain v' where v': "v = Some v'" "(case call_kind call of
             CallPropose \<Rightarrow> check_propose call key ((or_default (reqs g key) req_state_default)\<lparr> touched_us := now \<rparr>)
               sender tip (trusted F sender g) fl g3
           | CallDispute \<Rightarrow> check_dispute key ((or_default (reqs g key) req_state_default)\<lparr> touched_us := now \<rparr>) tip fl g3)
           = (v', g')"
        by (auto simp: map_prod_def split: prod.splits)
      show thesis
        using keeps Inr tf same le [OF False] v'(1) v'(2) [unfolded key_def]
        by (intro decided [of v' g3 fl]) (auto simp: key_def g2_def g1_def)
    qed
  qed
qed

lemma gate_check_closed:
  assumes "gate_check F C call sender tip tx now g = (v, g')"
  shows "v = Some Emit \<Longrightarrow> \<not> request_closed (request_key_of C call) (call_kind call) g \<and>
      request_closed (request_key_of C call) (call_kind call) g' \<and>
      (call_kind call = CallPropose \<longrightarrow> trusted F sender g) \<and>
      (\<forall>f. fst (tip_floor F now g) = Inr (Some f) \<longrightarrow> f \<le> tip)"
    and "request_closed key kind g \<Longrightarrow> request_closed key kind g'"
proof -
  let ?k = "request_key_of C call"
  show "v = Some Emit \<Longrightarrow> \<not> request_closed ?k (call_kind call) g \<and>
      request_closed ?k (call_kind call) g' \<and> (call_kind call = CallPropose \<longrightarrow> trusted F sender g) \<and>
      (\<forall>f. fst (tip_floor F now g) = Inr (Some f) \<longrightarrow> f \<le> tip)"
    using assms
    by (elim gate_check_cases; cases "call_kind call")
      (auto dest: check_propose_closes(1) check_dispute_closes(1) simp: request_closed_def)
  show "request_closed key kind g \<Longrightarrow> request_closed key kind g'"
    using assms
  proof (elim gate_check_cases)
    fix fl g3 v'
    assume c: "request_closed key kind g" and r: "reqs g3 = reqs g"
      and d: "(case call_kind call of
          CallPropose \<Rightarrow> check_propose call ?k ((or_default (reqs g ?k) req_state_default)\<lparr> touched_us := now \<rparr>)
            sender tip (trusted F sender g) fl g3
        | CallDispute \<Rightarrow> check_dispute ?k ((or_default (reqs g ?k) req_state_default)\<lparr> touched_us := now \<rparr>)
            tip fl g3) = (v', g')"
    show "request_closed key kind g'"
    proof (cases "key = ?k")
      case True
      then have "closed_for kind ((or_default (reqs g ?k) req_state_default)\<lparr> touched_us := now \<rparr>)"
        using c by (simp add: request_closed_def)
      with True d show ?thesis
        by (cases "call_kind call") (auto dest: check_propose_closes(2) check_dispute_closes(2))
    next
      case False
      with d have "reqs g' key = reqs g3 key"
        by (cases "call_kind call") (auto dest: check_propose_closes(3) check_dispute_closes(3))
      with c r show ?thesis by (simp add: request_closed_def)
    qed
  qed (auto simp: request_closed_def)
qed

lemma on_confirmed_reqs:
  "key' \<noteq> key \<Longrightarrow> reqs (on_confirmed kind key price tx now g) key' = reqs g key'"
  by (auto simp: on_confirmed_def Let_def split: call_kind.splits option.splits prod.splits)

lemma on_confirmed_closes:
  "request_closed key CallPropose (on_confirmed kind key price tx now g)"
  "request_closed key CallDispute (on_confirmed CallDispute key price tx now g)"
  by (auto simp: on_confirmed_def Let_def request_closed_def split: call_kind.splits option.splits prod.splits)

lemma on_confirmed_keeps_closed:
  "request_closed key' k g \<Longrightarrow> request_closed key' k (on_confirmed kind key price tx now g)"
proof (cases "key' = key")
  case True
  then show "request_closed key' k g \<Longrightarrow> request_closed key' k (on_confirmed kind key price tx now g)"
    by (cases k; auto simp: on_confirmed_def Let_def request_closed_def split: call_kind.splits option.splits prod.splits)
next
  case False
  then show "request_closed key' k g \<Longrightarrow> request_closed key' k (on_confirmed kind key price tx now g)"
    by (simp add: request_closed_def on_confirmed_reqs)
qed

fun is_prune :: "gate_op \<Rightarrow> bool" where
  "is_prune (OpPrune _) = True"
| "is_prune _ = False"

lemma gate_run_keeps_closed:
  "\<lbrakk> list_all (\<lambda>op. \<not> is_prune op) ops; request_closed key k g \<rbrakk> \<Longrightarrow> request_closed key k (gate_run F C ops g)"
proof (induction ops arbitrary: g)
  case (Cons op ops)
  have "request_closed key k (gate_step F C op g)"
    using Cons.prems
    by (cases op) (auto intro: gate_check_closed(2) [OF surjective_pairing] on_confirmed_keeps_closed)
  with Cons show ?case by simp
qed simp

text \<open>
  C6: between two prunes the gate pushes a request at most once per kind of call,
  and never after the chain decided it: if a check of a call returned \<open>Emit\<close>, or
  a proposal or dispute of that request was confirmed, then no later check of a
  call of the same request and kind returns \<open>Emit\<close> (a confirmed proposal closes
  proposals, a confirmed dispute closes both).
\<close>

theorem gate_emits_once:
  assumes "list_all (\<lambda>op. \<not> is_prune op) ops"
    and "fst (gate_check F C c1 s1 tip1 tx1 t1 g) = Some Emit \<and> g1 = snd (gate_check F C c1 s1 tip1 tx1 t1 g) \<and>
           request_key_of C c1 = request_key_of C c2 \<and> call_kind c1 = call_kind c2
         \<or> g1 = on_confirmed kind (request_key_of C c2) price tx1 t1 g \<and> (kind = CallDispute \<or> call_kind c2 = CallPropose)"
  shows "fst (gate_check F C c2 s2 tip2 tx2 t2 (gate_run F C ops g1)) \<noteq> Some Emit"
proof -
  have "request_closed (request_key_of C c2) (call_kind c2) g1"
    using assms(2)
  proof
    assume "fst (gate_check F C c1 s1 tip1 tx1 t1 g) = Some Emit \<and> g1 = snd (gate_check F C c1 s1 tip1 tx1 t1 g) \<and>
      request_key_of C c1 = request_key_of C c2 \<and> call_kind c1 = call_kind c2"
    then show ?thesis
      using gate_check_closed(1) [of F C c1 s1 tip1 tx1 t1 g, OF surjective_pairing] by auto
  next
    assume "g1 = on_confirmed kind (request_key_of C c2) price tx1 t1 g \<and> (kind = CallDispute \<or> call_kind c2 = CallPropose)"
    then show ?thesis
      using on_confirmed_closes by (cases "call_kind c2") auto
  qed
  then have "request_closed (request_key_of C c2) (call_kind c2) (gate_run F C ops g1)"
    by (rule gate_run_keeps_closed [OF assms(1)])
  then show ?thesis
    using gate_check_closed(1) [of F C c2 s2 tip2 tx2 t2 "gate_run F C ops g1", OF surjective_pairing] by auto
qed

subsection \<open>Rounds only move forward\<close>

lemma gate_check_rounds:
  assumes "latest_round g m = Some r"
  shows "\<exists>r'. latest_round (snd (gate_check F C call sender tip tx now g)) m = Some r' \<and> r \<le> r'"
proof -
  obtain v g' where gc: "gate_check F C call sender tip tx now g = (v, g')"
    by (cases "gate_check F C call sender tip tx now g")
  from gc show ?thesis
  proof (cases rule: gate_check_cases)
    case (decided fl g3 v')
    then have "latest_round g' = latest_round g3"
      by (cases "call_kind call") (auto dest: check_propose_closes(4) check_dispute_closes(4))
    with decided gc assms show ?thesis by auto
  qed (use gc assms in auto)
qed

lemma on_confirmed_rounds:
  assumes "latest_round g m = Some r"
  shows "\<exists>r'. latest_round (on_confirmed kind key price tx now g) m = Some r' \<and> r \<le> r'"
  using assms
  by (cases "m = request_key_market key")
    (auto simp: on_confirmed_def Let_def split: call_kind.splits option.splits prod.splits)

lemma gate_run_rounds:
  assumes "latest_round g m = Some r"
  shows "\<exists>r'. latest_round (gate_run F C ops g) m = Some r' \<and> r \<le> r'"
  using assms
proof (induction ops arbitrary: g r)
  case (Cons op ops)
  have "\<exists>r'. latest_round (gate_step F C op g) m = Some r' \<and> r \<le> r'"
    using gate_check_rounds [OF Cons.prems] on_confirmed_rounds [OF Cons.prems] Cons.prems
    by (cases op) (auto simp: gate_prune_def)
  then obtain r1 where r1: "latest_round (gate_step F C op g) m = Some r1" "r \<le> r1" by blast
  from Cons.IH [OF r1(1)] r1(2) show ?case by (auto intro: order_trans)
qed simp

lemma gate_check_stale:
  assumes "latest_round g (request_key_market (request_key_of C call)) = Some r"
    and "key_timestamp (request_key_of C call) < r"
  shows "fst (gate_check F C call sender tip tx now g) = Some (Drop StaleRound)"
  using assms by (simp add: gate_check_def Let_def)

text \<open>
  a pending call is pushed only when no newer round of its market was seen,
  its request is still open, its tip reaches the current floor and, for a
  proposal, its sender is trusted; once a newer round was seen, by a pending call
  or on the chain, every call of an older round is refused as stale for good,
  whatever happens in between.
\<close>

theorem gate_emit_conditions:
  fixes g :: "'f gate"
  assumes "latest_round g (request_key_market (request_key_of C call)) = Some seen"
  shows "(fst (gate_check F C call sender tip tx now (gate_run F C ops g)) = Some Emit \<longrightarrow>
      seen \<le> key_timestamp (request_key_of C call) \<and>
      \<not> request_closed (request_key_of C call) (call_kind call) (gate_run F C ops g) \<and>
      (call_kind call = CallPropose \<longrightarrow> trusted F sender (gate_run F C ops g)) \<and>
      (\<forall>f. fst (tip_floor F now (gate_run F C ops g)) = Inr (Some f) \<longrightarrow> f \<le> tip)) \<and>
    (key_timestamp (request_key_of C call) < seen \<longrightarrow>
      fst (gate_check F C call sender tip tx now (gate_run F C ops g)) = Some (Drop StaleRound))"
proof -
  let ?g = "gate_run F C ops g" and ?k = "request_key_of C call"
  obtain r where r: "latest_round ?g (request_key_market ?k) = Some r" "seen \<le> r"
    using gate_run_rounds [OF assms] by blast
  have stale: "key_timestamp ?k < r \<Longrightarrow> fst (gate_check F C call sender tip tx now ?g) = Some (Drop StaleRound)"
    using gate_check_stale [OF r(1)] by blast
  then have "key_timestamp ?k < seen \<longrightarrow> fst (gate_check F C call sender tip tx now ?g) = Some (Drop StaleRound)"
    using r(2) by (meson order_less_le_trans)
  then show ?thesis
    using gate_check_closed(1) [of F C call sender tip tx now ?g, OF surjective_pairing]
    by (auto simp: not_less [symmetric])
qed

subsection \<open>Scoring\<close>

abbreviation stat_of :: "(bytes \<rightharpoonup> sender_stat) \<Rightarrow> bytes \<Rightarrow> sender_stat" where
  "stat_of m s \<equiv> or_default (m s) sender_stat_default"

abbreviation req_of :: "'f gate \<Rightarrow> request_key \<Rightarrow> req_state" where
  "req_of g key \<equiv> or_default (reqs g key) req_state_default"

lemma score_pending_stat:
  "agree (stat_of (score_pending price p m) s) = agree (stat_of m s) + (if p = (s, price) then 1 else 0)"
  "disagree (stat_of (score_pending price p m) s)
     = disagree (stat_of m s) + (if fst p = s \<and> snd p \<noteq> price then 1 else 0)"
  by (cases p; auto simp: score_pending_def Let_def)+

lemma fold_score_pending:
  "agree (stat_of (fold (score_pending price) ps m) s)
     = agree (stat_of m s) + of_nat (count_list ps (s, price)) \<and>
   disagree (stat_of (fold (score_pending price) ps m) s)
     = disagree (stat_of m s) + of_nat (length (filter (\<lambda>p. fst p = s \<and> snd p \<noteq> price) ps))"
proof (induction ps arbitrary: m)
  case (Cons p ps)
  show ?case
    by (simp add: Cons.IH [THEN conjunct1] Cons.IH [THEN conjunct2] score_pending_stat)
qed simp

text \<open>
  the first confirmed proposal of a request scores every recorded pending
  call of it exactly once: a sender gains one agreement per pending call with the
  confirmed price and one disagreement per other one; later confirmations of the
  same request score nothing.
\<close>

theorem on_confirmed_scores:
  "agree (stat_of (senders (on_confirmed CallPropose key price tx now g)) s) =
     agree (stat_of (senders g) s) +
       (if proposed (req_of g key) = None then of_nat (count_list (pendings (req_of g key)) (s, price)) else 0) \<and>
   disagree (stat_of (senders (on_confirmed CallPropose key price tx now g)) s) =
     disagree (stat_of (senders g) s) +
       (if proposed (req_of g key) = None
        then of_nat (length (filter (\<lambda>p. fst p = s \<and> snd p \<noteq> price) (pendings (req_of g key)))) else 0) \<and>
   proposed (req_of (on_confirmed CallPropose key price tx now g) key) \<noteq> None"
proof -
  have "senders (on_confirmed CallPropose key price tx now g) =
      (if proposed (req_of g key) = None then fold (score_pending price) (pendings (req_of g key)) (senders g)
       else senders g)"
    by (auto simp: on_confirmed_def Let_def split: option.splits prod.splits)
  moreover have "proposed (req_of (on_confirmed CallPropose key price tx now g) key) \<noteq> None"
    by (auto simp: on_confirmed_def Let_def split: option.splits prod.splits)
  ultimately show ?thesis using fold_score_pending [of price "pendings (req_of g key)" "senders g" s] by simp
qed

subsection \<open>Witnesses\<close>

definition sample_f64 :: "nat f64_ops" where
  "sample_f64 =
     \<lparr> f64_of_nat = id, f64_add = (+), f64_sub = (-), f64_mul = (*), f64_div = (div), f64_sqrt = id,
       f64_ge = (\<ge>), f64_round_to_usize = id, f64_const_1_645 = 0 \<rparr>"

definition sample_gate :: "u32 \<Rightarrow> nat gate" where
  "sample_gate n =
     gate_new \<lparr> trust_min_n = n, trust_min_rate = 0, tip_quantile = 0, tip_window_us = 100,
                tip_min_samples = 1, state_ttl_us = 1000 \<rparr>"

lemma sample_gate_emits:
  "fst (gate_check sample_f64 sample_crypto sample_call (replicate 20 1) 5 ''0xa'' 10 (sample_gate 0)) = Some Emit"
  by (simp add: gate_check_def sample_gate_def gate_new_def tip_floor_def expire_tips_def trusted_def
      sender_stat_default_def sample_f64_def check_propose_def req_state_default_def sample_call_def Let_def)

theorem gate_emits_once_witness:
  "fst (gate_check sample_f64 sample_crypto sample_call (replicate 20 2) 9 ''0xb'' 20
     (gate_run sample_f64 sample_crypto [OpConfirmed CallPropose (request_key_of sample_crypto sample_call) [] ''0xc'' 15]
       (snd (gate_check sample_f64 sample_crypto sample_call (replicate 20 1) 5 ''0xa'' 10 (sample_gate 0)))))
   \<noteq> Some Emit"
  using sample_gate_emits
  by (intro gate_emits_once [where ?c1.0 = sample_call and ?s1.0 = "replicate 20 1" and ?tip1.0 = 5
        and ?tx1.0 = "''0xa''" and ?t1.0 = 10 and g = "sample_gate 0"]) auto

theorem gate_emit_conditions_witness:
  "fst (gate_check sample_f64 sample_crypto sample_call (replicate 20 1) 5 ''0xa'' 10
     (gate_run sample_f64 sample_crypto [OpPrune 7]
       ((sample_gate 0)\<lparr> latest_round := [request_key_market (request_key_of sample_crypto sample_call) \<mapsto> 11] \<rparr>)))
   = Some (Drop StaleRound)"
proof -
  have "key_timestamp (request_key_of sample_crypto sample_call) = 9"
    by (simp add: request_key_of_def sample_call_def u64_word_def)
  then show ?thesis
    using gate_emit_conditions
      [of "(sample_gate 0)\<lparr> latest_round := [request_key_market (request_key_of sample_crypto sample_call) \<mapsto> 11] \<rparr>"
        sample_crypto sample_call 11 sample_f64 "replicate 20 1" 5 "''0xa''" 10 "[OpPrune 7]"]
    by simp
qed

end
