(* ===== verification/Mempool_Feed.thy ===== *)
theory Mempool_Feed
  imports Gate
begin

text \<open>
  \<open>mempool/feed.rs\<close>: one line of the pending feed (decode the input, ask the gate
  about each call, synthesise a log per pushed call), the request key of an
  on-chain log, and the confirmations applied to the gate.  Sockets, JSON and the
  clock are outside: a parsed line and the clock's readings are arguments.
\<close>

record pending_line =
  pl_kind :: string
  pl_hash :: string
  pl_from :: string
  pl_to :: string
  pl_input :: string
  pl_first_us :: u64
  pl_announce_us :: u64
  pl_tip_gwei :: u64

definition addr20 :: "crypto \<Rightarrow> string \<Rightarrow> bytes option" where
  "addr20 C s = Option.bind (hex_decode C (trim_start_0x s)) (fixed 20)"

text \<open>The closure of the filter: the gate is asked about every call, in order.\<close>

fun check_calls ::
  "'f f64_ops \<Rightarrow> crypto \<Rightarrow> bytes \<Rightarrow> u64 \<Rightarrow> string \<Rightarrow> (nat \<Rightarrow> u64) \<Rightarrow> nat \<Rightarrow> oracle_call list \<Rightarrow> 'f gate
   \<Rightarrow> (nat \<times> oracle_call) list option \<times> 'f gate" where
  "check_calls F C sender tip tx clock i [] g = (Some [], g)"
| "check_calls F C sender tip tx clock i (c # cs) g =
     (case gate_check F C c sender tip tx (clock i) g of
        (None, g1) \<Rightarrow> (None, g1)
      | (Some v, g1) \<Rightarrow>
          (case check_calls F C sender tip tx clock (Suc i) cs g1 of
             (None, g2) \<Rightarrow> (None, g2)
           | (Some out, g2) \<Rightarrow> (Some (if v = Emit then (i, c) # out else out), g2)))"

definition pending_calls :: "crypto \<Rightarrow> pending_line \<Rightarrow> (bytes \<times> oracle_call list) option" where
  "pending_calls C p =
     (if pl_kind p \<noteq> ''p2p_match'' \<or> pl_input p = [] then None
      else Option.bind (hex_decode C (trim_start_0x (pl_input p))) (\<lambda>input.
           Option.bind (addr20 C (pl_from p)) (\<lambda>from'.
             if decode_input input = [] then None else Some (from', decode_input input))))"

definition pending_first_us :: "pending_line \<Rightarrow> u64" where
  "pending_first_us p = (if 0 < pl_first_us p then pl_first_us p else pl_announce_us p)"

definition pending_emit ::
  "'f f64_ops \<Rightarrow> crypto \<Rightarrow> (nat \<Rightarrow> u64) \<Rightarrow> pending_line \<Rightarrow> 'f gate
   \<Rightarrow> (bytes \<times> (nat \<times> oracle_call) list) option \<times> 'f gate" where
  "pending_emit F C clock p g =
     (case pending_calls C p of
        None \<Rightarrow> (Some ([], []), g)
      | Some (from', calls) \<Rightarrow>
          (case check_calls F C from' (pl_tip_gwei p) (pl_hash p) clock 0 calls g of
             (None, g') \<Rightarrow> (None, g')
           | (Some out, g') \<Rightarrow> (Some (from', out), g')))"

definition handle_pending ::
  "'f f64_ops \<Rightarrow> crypto \<Rightarrow> (nat \<Rightarrow> u64) \<Rightarrow> pending_line \<Rightarrow> 'f gate \<Rightarrow> (rpc_log \<times> u64) list option \<times> 'f gate" where
  "handle_pending F C clock p g =
     (case pending_emit F C clock p g of
        (None, g') \<Rightarrow> (None, g')
      | (Some (from', out), g') \<Rightarrow>
          (Some (map (\<lambda>(i, c). (synth_log C c (pl_hash p) i (pl_to p) from', pending_first_us p)) out), g'))"

definition parse_onchain :: "crypto \<Rightarrow> rpc_log \<Rightarrow> (call_kind \<times> request_key \<times> bytes) option" where
  "parse_onchain C log =
     (case log_topics log of
        [] \<Rightarrow> None
      | t # ts \<Rightarrow>
          Option.bind
            (if to_ascii_lowercase t = TOPIC_PROPOSE_PRICE then Some CallPropose
             else if to_ascii_lowercase t = TOPIC_DISPUTE_PRICE then Some CallDispute else None) (\<lambda>kind.
          Option.bind (case ts of [] \<Rightarrow> None | t1 # _ \<Rightarrow> hex_decode C (trim_start_0x t1)) (\<lambda>topic.
          Option.bind (if 12 \<le> length topic then fixed 20 (drop 12 topic) else None) (\<lambda>req.
          Option.bind (hex_decode C (trim_start_0x (log_data log))) (\<lambda>data.
          Option.bind (arg_word data 1) (\<lambda>ts1.
          Option.bind (arg_word data 2) (\<lambda>w2.
            (let off = u64_word w2
             in Option.bind (slice_get data (off + 24) (off + 32)) (\<lambda>lw.
                let len = of_nat (be_nat lw) :: u64
                in Option.bind (slice_get data (off + 32) (off + 32 + len)) (\<lambda>anc.
                   Option.bind (arg_word data 3) (\<lambda>price.
                     Some (kind,
                           \<lparr> key_requester = req, key_question_id = keccak256 C anc, key_timestamp = u64_word ts1 \<rparr>,
                           price))))))))))))"

fun apply_log :: "crypto \<Rightarrow> u64 \<Rightarrow> rpc_log \<Rightarrow> nat \<times> 'f gate \<Rightarrow> nat \<times> 'f gate" where
  "apply_log C now log (n, g) =
     (case parse_onchain C log of
        None \<Rightarrow> (n, g)
      | Some (kind, key, price) \<Rightarrow>
          (n + 1, on_confirmed kind key price (to_ascii_lowercase (log_transaction_hash log)) now g))"

definition apply_logs :: "crypto \<Rightarrow> u64 \<Rightarrow> rpc_log list \<Rightarrow> 'f gate \<Rightarrow> nat \<times> 'f gate" where
  "apply_logs C now logs g = fold (apply_log C now) (filter (\<lambda>l. \<not> log_removed l) logs) (0, g)"

subsection \<open>The decoder and the gate see the same request\<close>

lemma trim_start_hex0x: "crypto_ok C \<Longrightarrow> trim_start_0x (hex0x C bs) = hex_encode C bs"
  unfolding hex0x_def crypto_ok_def by (simp add: trim_start_0x_no_x)

lemma hex_decode_trim: "crypto_ok C \<Longrightarrow> hex_decode C (trim_start_0x (hex0x C bs)) = Some bs"
  unfolding trim_start_hex0x by (simp add: crypto_ok_def)

lemma parse_event_parts:
  assumes "crypto_ok C" "parse_propose C raw rx = Inr e \<or> parse_dispute C raw rx = Inr e"
    and "log_topics raw = t # hex0x C w # ts" "log_data raw = hex0x C d"
  shows "length w = 32 \<and> 128 \<le> length d \<and> requester (event_request e) = drop 12 w \<and>
    proposed_price (event_request e) = abi_word d 3 \<and>
    (\<exists>anc. dynamic_word d 2 = Inr anc \<and> question_id (ancillary (event_request e)) = keccak256 C anc)"
proof -
  have "topic_address C (hex0x C w) = Inr a \<longleftrightarrow> length w = 32 \<and> a = drop 12 w" for a
    by (auto simp: topic_address_def decode_fixed_def decode_hex0x [OF assms(1)] fixed_def)
  moreover have "parse_data C raw 4 = Inr data \<longleftrightarrow> data = d \<and> 128 \<le> length d" for data
    by (auto simp: parse_data_def assms(4) decode_hex0x [OF assms(1)])
  ultimately show ?thesis
    using assms(2)
    by (auto simp: parse_propose_def parse_dispute_def parse_request_def parse_ancillary_def assms(3)
        split: if_splits)
qed

lemma word_index_small: "unat (1 :: u64) < 2 ^ 32" "unat (2 :: u64) < 2 ^ 32" "unat (3 :: u64) < 2 ^ 32"
  by simp_all

lemma dynamic_word_slices:
  assumes "dynamic_word d 2 = Inr anc" "128 \<le> length d" "length d < 2 ^ 64"
  defines "off \<equiv> u64_word (take 32 (drop 64 d))"
  shows "\<exists>lw. slice_get d (off + 24) (off + 32) = Some lw \<and>
    slice_get d (off + 32) (off + 32 + of_nat (be_nat lw)) = Some anc"
proof -
  let ?w = "abi_word d 2"
  have w: "length ?w = 32" "?w = take 32 (drop 64 d)" using assms(2) by (simp_all add: abi_word_def)
  have n: "be_nat ?w < 2 ^ 64" "be_nat ?w + 32 \<le> length d"
      "be_nat ?w + 32 + be_nat (take 32 (drop (be_nat ?w) d)) \<le> length d"
      "anc = take (be_nat (take 32 (drop (be_nat ?w) d))) (drop (be_nat ?w + 32) d)"
    using assms(1) dynamic_word_nat [of 2 d] assms(2,3) by (auto simp: Let_def split: if_splits)
  have off: "unat off = be_nat ?w"
    using abi_word_u64 [OF w(1)] n(1) unfolding off_def u64_word_def w(2) by auto
  let ?lw = "take 32 (drop (be_nat ?w) d)"
  have lw: "length ?lw = 32" using n(2) by simp
  have small: "be_nat ?lw < 2 ^ 64" using n(3) assms(3) by linarith
  have o24: "unat (off + 24) = be_nat ?w + 24" and o32: "unat (off + 32) = be_nat ?w + 32"
    using off n(2) assms(3) by (simp_all add: unat_word_ariths)
  have len: "unat (of_nat (be_nat (drop 24 ?lw)) :: u64) = be_nat ?lw"
    using abi_word_u64 [OF lw] small by (simp add: not_le [symmetric] del: take_drop drop_take)
  have s1: "slice_get d (off + 24) (off + 32) = Some (drop 24 ?lw)"
    using o24 o32 n(2) by (simp add: slice_get_def word_le_nat_alt drop_take add.commute)
  have "slice_get d (off + 32) (off + 32 + of_nat (be_nat (drop 24 ?lw))) = Some anc"
    using slice_get_add [OF assms(3), of "off + 32" "of_nat (be_nat (drop 24 ?lw))"] len o32 n(3,4) by simp
  with s1 show ?thesis by blast
qed

text \<open>
  whenever the event decoder accepts a log, the gate derives a key from the
  same log, of the same kind, requester, question and price: a confirmed event
  always closes the request that the same event was, or would be, pushed under.
\<close>

theorem parse_onchain_agrees:
  assumes "crypto_ok C" "decode_signal_log C raw rx allowed req = Inr e"
    and "log_topics raw = t # hex0x C w # ts" "log_data raw = hex0x C d" "length d < 2 ^ 64"
  shows "parse_onchain C raw =
    Some (case event_kind_of e of Propose \<Rightarrow> CallPropose | Dispute \<Rightarrow> CallDispute,
      \<lparr> key_requester = requester (event_request e),
        key_question_id = question_id (ancillary (event_request e)),
        key_timestamp = u64_word (abi_word d 1) \<rparr>,
      proposed_price (event_request e))"
proof -
  have pe: "to_ascii_lowercase t = TOPIC_PROPOSE_PRICE \<and> parse_propose C raw rx = Inr e \<and> event_kind_of e = Propose \<or>
      to_ascii_lowercase t = TOPIC_DISPUTE_PRICE \<and> parse_dispute C raw rx = Inr e \<and> event_kind_of e = Dispute"
    using assms(2,3)
    by (auto simp: decode_signal_log_def parse_propose_def parse_dispute_def split: if_splits)
  then have "parse_propose C raw rx = Inr e \<or> parse_dispute C raw rx = Inr e" by blast
  from parse_event_parts [OF assms(1) this assms(3,4)]
  obtain anc where f: "length w = 32" "128 \<le> length d" "requester (event_request e) = drop 12 w"
      "proposed_price (event_request e) = abi_word d 3" "dynamic_word d 2 = Inr anc"
      "question_id (ancillary (event_request e)) = keccak256 C anc"
    by blast
  obtain lw where lw: "slice_get d (u64_word (take 32 (drop 64 d)) + 24) (u64_word (take 32 (drop 64 d)) + 32) = Some lw"
      "slice_get d (u64_word (take 32 (drop 64 d)) + 32)
         (u64_word (take 32 (drop 64 d)) + 32 + of_nat (be_nat lw)) = Some anc"
    using dynamic_word_slices [OF f(5,2) assms(5)] by blast
  have words: "arg_word d 1 = Some (abi_word d 1)" "arg_word d 2 = Some (take 32 (drop 64 d))"
      "arg_word d 3 = Some (abi_word d 3)"
    using f(2) by (simp_all add: arg_word_nat abi_word_def)
  show ?thesis
    using pe f(1) topics_lowercase(3)
    by (auto simp: parse_onchain_def assms(3,4) hex_decode_trim [OF assms(1)] fixed_def words lw f Let_def)
qed

theorem parse_onchain_agrees_witness:
  "parse_onchain sample_crypto sample_log =
     Some (CallPropose,
       \<lparr> key_requester = replicate 20 1,
         key_question_id = nat_be 32 (be_nat (str_bytes ''market_id: 42'')),
         key_timestamp = u64_word (abi_word sample_data 1) \<rparr>,
       replicate 32 5)"
proof -
  have "log_topics sample_log = TOPIC_PROPOSE_PRICE # hex0x sample_crypto (replicate 12 0 @ replicate 20 1) #
      [''0x'' @ sample_hex_encode (replicate 12 0 @ replicate 20 2)]"
    and "log_data sample_log = hex0x sample_crypto sample_data"
    by (simp_all add: sample_log_def hex0x_def sample_crypto_def sample_data_def)
  from parse_onchain_agrees [OF sample_crypto_ok decode_sample_log this] sample_data_fields(1)
  show ?thesis by (simp add: sample_event_def)
qed

subsection \<open>The feed never repeats a signal\<close>

lemma check_calls_closed:
  assumes "check_calls F C sender tip tx clock i cs g = (r, g')"
  shows "request_closed k kd g \<Longrightarrow> request_closed k kd g'"
  using assms
proof (induction cs arbitrary: i g r g')
  case (Cons c cs)
  obtain v g1 where g1: "gate_check F C c sender tip tx (clock i) g = (v, g1)"
    by (cases "gate_check F C c sender tip tx (clock i) g")
  note keep = gate_check_closed(2) [OF g1 Cons.prems(1)]
  show ?case
  proof (cases v)
    case None
    with Cons.prems g1 keep show ?thesis by simp
  next
    case (Some v')
    obtain r2 g2 where "check_calls F C sender tip tx clock (Suc i) cs g1 = (r2, g2)"
      by (cases "check_calls F C sender tip tx clock (Suc i) cs g1")
    with Cons.prems g1 Some Cons.IH [OF keep this] show ?thesis by (auto split: option.splits)
  qed
qed simp

abbreviation signal_of :: "crypto \<Rightarrow> nat \<times> oracle_call \<Rightarrow> request_key \<times> call_kind" where
  "signal_of C ic \<equiv> (request_key_of C (snd ic), call_kind (snd ic))"

lemma check_calls_signals:
  assumes "check_calls F C sender tip tx clock i cs g = (Some out, g')"
  shows "distinct (map (signal_of C) out) \<and>
    (\<forall>(k, kd) \<in> set (map (signal_of C) out). \<not> request_closed k kd g \<and> request_closed k kd g')"
  using assms
proof (induction cs arbitrary: i g out)
  case (Cons c cs)
  obtain v g1 out1 where g1: "gate_check F C c sender tip tx (clock i) g = (Some v, g1)"
    and r1: "check_calls F C sender tip tx clock (Suc i) cs g1 = (Some out1, g')"
    and out: "out = (if v = Emit then (i, c) # out1 else out1)"
    using Cons.prems by (auto split: prod.splits option.splits)
  note IH = Cons.IH [OF r1]
  have bwd: "\<not> request_closed k kd g1 \<Longrightarrow> \<not> request_closed k kd g" for k kd
    using gate_check_closed(2) [OF g1] by blast
  show ?case
  proof (cases "v = Emit")
    case True
    have c: "\<not> request_closed (request_key_of C c) (call_kind c) g" "request_closed (request_key_of C c) (call_kind c) g1"
      using gate_check_closed(1) [OF g1] True by auto
    then have "request_closed (request_key_of C c) (call_kind c) g'"
      using check_calls_closed [OF r1] by blast
    with IH c bwd True show ?thesis by (force simp: out)
  next
    case False
    with IH bwd show ?thesis by (fastforce simp: out)
  qed
qed simp

lemma apply_logs_keeps_closed:
  fixes g :: "'f gate"
  shows "request_closed k kd g \<Longrightarrow> request_closed k kd (snd (apply_logs C now logs g))"
proof -
  have "request_closed k kd (snd ng) \<Longrightarrow> request_closed k kd (snd (fold (apply_log C now) ls ng))"
    for ls and ng :: "nat \<times> 'f gate"
  proof (induction ls arbitrary: ng)
    case (Cons l ls)
    have "request_closed k kd (snd (apply_log C now l ng))"
      using Cons.prems by (cases ng) (auto split: option.splits prod.splits intro: on_confirmed_keeps_closed)
    with Cons.IH show ?case by simp
  qed simp
  then show "request_closed k kd g \<Longrightarrow> request_closed k kd (snd (apply_logs C now logs g))"
    by (simp add: apply_logs_def)
qed

datatype feed_op = FeedPending "nat \<Rightarrow> u64" pending_line | FeedConfirm u64 "rpc_log list"

fun feed_trace ::
  "'f f64_ops \<Rightarrow> crypto \<Rightarrow> feed_op list \<Rightarrow> 'f gate \<Rightarrow> (request_key \<times> call_kind) list option \<times> 'f gate" where
  "feed_trace F C [] g = (Some [], g)"
| "feed_trace F C (FeedPending clock p # ops) g =
     (case pending_emit F C clock p g of
        (None, g1) \<Rightarrow> (None, g1)
      | (Some (_, out), g1) \<Rightarrow>
          (case feed_trace F C ops g1 of
             (None, g2) \<Rightarrow> (None, g2)
           | (Some l, g2) \<Rightarrow> (Some (map (signal_of C) out @ l), g2)))"
| "feed_trace F C (FeedConfirm now logs # ops) g = feed_trace F C ops (snd (apply_logs C now logs g))"

lemma pending_emit_signals:
  assumes "pending_emit F C clock p g = (Some (from', out), g')"
  shows "distinct (map (signal_of C) out)"
    and "(k, kd) \<in> set (map (signal_of C) out) \<Longrightarrow> \<not> request_closed k kd g \<and> request_closed k kd g'"
    and "request_closed k kd g \<Longrightarrow> request_closed k kd g'"
proof -
  have "out = [] \<and> g' = g \<or>
    (\<exists>s tip tx cs. check_calls F C s tip tx clock 0 cs g = (Some out, g'))"
    using assms by (auto simp: pending_emit_def split: option.splits prod.splits)
  then have all: "distinct (map (signal_of C) out) \<and>
    (\<forall>(k, kd) \<in> set (map (signal_of C) out). \<not> request_closed k kd g \<and> request_closed k kd g') \<and>
    (\<forall>k kd. request_closed k kd g \<longrightarrow> request_closed k kd g')"
  proof (elim disjE exE)
    fix s tip tx cs
    assume c: "check_calls F C s tip tx clock 0 cs g = (Some out, g')"
    show ?thesis using check_calls_signals [OF c] check_calls_closed [OF c] by blast
  qed simp
  then show "distinct (map (signal_of C) out)"
    and "request_closed k kd g \<Longrightarrow> request_closed k kd g'" by blast+
  assume "(k, kd) \<in> set (map (signal_of C) out)"
  with all show "\<not> request_closed k kd g \<and> request_closed k kd g'" by fast
qed


definition sample_line :: pending_line where
  "sample_line =
     \<lparr> pl_kind = ''p2p_match'', pl_hash = ''0xa'', pl_from = hex0x sample_crypto (replicate 20 1), pl_to = [],
       pl_input = hex0x sample_crypto (abi_call sample_call), pl_first_us = 0, pl_announce_us = 4, pl_tip_gwei = 5 \<rparr>"

lemma sample_line_emits:
  obtains g' where "pending_emit sample_f64 sample_crypto (\<lambda>_. 10) sample_line (sample_gate 0)
    = (Some (replicate 20 1, [(0, sample_call)]), g')"
proof -
  have "decode_input (abi_call sample_call) = [sample_call]"
    using decode_input_abi [OF sample_call_widths] by (simp add: sample_call_def str_bytes_def)
  then have "pending_calls sample_crypto sample_line = Some (replicate 20 1, [sample_call])"
    by (simp add: pending_calls_def sample_line_def hex_decode_trim [OF sample_crypto_ok] addr20_def fixed_def)
      (simp add: hex0x_def)
  moreover obtain g' where "gate_check sample_f64 sample_crypto sample_call (replicate 20 1) 5 ''0xa'' 10 (sample_gate 0)
      = (Some Emit, g')"
    using sample_gate_emits by (metis prod.collapse)
  ultimately show ?thesis
    using that by (simp add: pending_emit_def sample_line_def)
qed


end
