(* ===== verification/Catalog.thy ===== *)
theory Catalog
  imports Uma_Events
begin

text \<open>
  The market catalog of \<open>enrichment.rs\<close> (two hash maps kept in step), and the
  conversion of a Gamma market into a catalog row: identifiers, token ids as
  256-bit integers, tags sorted without repeats.
\<close>

subsection \<open>Catalog\<close>

record catalog =
  by_condition :: "bytes \<rightharpoonup> market_enrichment"
  market_to_condition :: "u64 \<rightharpoonup> bytes"
  max_market_id :: u64

definition catalog_empty :: catalog where
  "catalog_empty = \<lparr> by_condition = Map.empty, market_to_condition = Map.empty, max_market_id = 0 \<rparr>"

definition catalog_get :: "bytes \<Rightarrow> catalog \<Rightarrow> market_enrichment option" where
  "catalog_get cid c = by_condition c cid"

definition get_by_market_id :: "u64 \<Rightarrow> catalog \<Rightarrow> market_enrichment option" where
  "get_by_market_id mid c = Option.bind (market_to_condition c mid) (by_condition c)"

definition resolve :: "u64 option \<Rightarrow> bytes \<Rightarrow> catalog \<Rightarrow> market_enrichment option" where
  "resolve mid derived c =
     (case Option.bind mid (\<lambda>i. get_by_market_id i c) of
        Some m \<Rightarrow> Some m
      | None \<Rightarrow> catalog_get derived c)"

definition upsert :: "market_enrichment \<Rightarrow> catalog \<Rightarrow> bool \<times> catalog" where
  "upsert m c =
     (if by_condition c (me_condition_id m) = Some m then (False, c)
      else
        let previous = market_to_condition c (me_market_id m);
            conds = (case previous of
                       Some p \<Rightarrow> if p \<noteq> me_condition_id m then (by_condition c)(p := None) else by_condition c
                     | None \<Rightarrow> by_condition c)
        in (True, \<lparr> by_condition = conds(me_condition_id m \<mapsto> m),
                    market_to_condition = (market_to_condition c)(me_market_id m \<mapsto> me_condition_id m),
                    max_market_id = max (max_market_id c) (me_market_id m) \<rparr>))"

definition catalog_new :: "market_enrichment list \<Rightarrow> catalog" where
  "catalog_new ms = fold (\<lambda>m c. snd (upsert m c)) ms catalog_empty"

definition catalog_len :: "catalog \<Rightarrow> nat" where
  "catalog_len c = card (dom (by_condition c))"

subsection \<open>Rows of Gamma\<close>

datatype enrichment_error =
    Http | Status nat | ResponseOversized | Json | StorageFailed | Identity string

fun is_transient :: "enrichment_error \<Rightarrow> bool" where
  "is_transient Http = True"
| "is_transient Json = True"
| "is_transient (Status s) = (500 \<le> s \<and> s \<le> 599 \<or> s = 429)"
| "is_transient _ = False"

record gamma_market =
  gm_id :: string
  gm_updated_at :: string
  gm_condition_id :: string
  clob_token_ids :: "string list"
  gm_tags :: "string list"
  gm_event_tags :: "string list list"
  gm_neg_risk :: bool
  sports_market_type :: "string option"
  question :: "string option"

definition parse_hex_32 :: "crypto \<Rightarrow> string \<Rightarrow> enrichment_error + bytes" where
  "parse_hex_32 C value =
     (case hex_decode C (strip_0x value) of
        None \<Rightarrow> Inl (Identity ''condition_id'')
      | Some d \<Rightarrow> ok_or (fixed 32 d) (Identity ''condition_id''))"

text \<open>One digit: every byte times ten plus the carry, least significant byte first.\<close>

fun mul10_pass :: "u16 \<Rightarrow> bytes \<Rightarrow> bytes \<times> u16" where
  "mul10_pass carry [] = ([], carry)"
| "mul10_pass carry (byte # rest) =
     (let next = ucast byte * 10 + carry;
          (bs, c) = mul10_pass (drop_bit 8 next) rest
      in (ucast next # bs, c))"

fun uint256_digits :: "bytes \<Rightarrow> string \<Rightarrow> enrichment_error + bytes" where
  "uint256_digits bytes [] = Inr bytes"
| "uint256_digits bytes (digit # rest) =
     (if \<not> is_digit digit then Inl (Identity ''token_id'')
      else
        let (rev_bytes, carry) = mul10_pass (of_nat (of_char digit - 48)) (rev bytes)
        in if carry \<noteq> 0 then Inl (Identity ''token_id overflow'')
           else uint256_digits (rev rev_bytes) rest)"

definition starts_with :: "'a list \<Rightarrow> 'a list \<Rightarrow> bool" where
  "starts_with p s \<longleftrightarrow> take (length p) s = p"

definition parse_uint256 :: "crypto \<Rightarrow> string \<Rightarrow> enrichment_error + bytes" where
  "parse_uint256 C value =
     (if starts_with ''0x'' value \<or> starts_with ''0X'' value
      then (case parse_hex_32 C value of Inl _ \<Rightarrow> Inl (Identity ''token_id'') | Inr b \<Rightarrow> Inr b)
      else if value = [] then Inl (Identity ''token_id'')
      else uint256_digits (replicate 32 0) value)"

fun collect_results :: "('a \<Rightarrow> 'e + 'b) \<Rightarrow> 'a list \<Rightarrow> 'e + 'b list" where
  "collect_results f [] = Inr []"
| "collect_results f (x # xs) = and_then (f x) (\<lambda>y. and_then (collect_results f xs) (\<lambda>ys. Inr (y # ys)))"

definition u32_from_str :: "string \<Rightarrow> u32 option" where
  "u32_from_str s =
     (case u64_from_str 10 dec_digit s of
        Some n \<Rightarrow> if unat n < 2 ^ 32 then Some (ucast n) else None
      | None \<Rightarrow> None)"

type_synonym classifier = "u32 list \<Rightarrow> string option \<Rightarrow> string option \<Rightarrow> category \<times> bet_type"

definition compact_market :: "crypto \<Rightarrow> classifier \<Rightarrow> gamma_market \<Rightarrow> enrichment_error + market_enrichment" where
  "compact_market C classify raw =
     and_then (ok_or (u64_from_str 10 dec_digit (gm_id raw)) (Identity ''market_id'')) (\<lambda>mid.
     and_then (parse_hex_32 C (gm_condition_id raw)) (\<lambda>cid.
     and_then (collect_results (parse_uint256 C) (clob_token_ids raw)) (\<lambda>tokens.
       let tags = remdups_adj (sort (List.map_filter u32_from_str (gm_tags raw @ concat (gm_event_tags raw))));
           class = classify tags (sports_market_type raw) (question raw)
       in Inr \<lparr> me_market_id = mid, me_condition_id = cid, token_ids = tokens, tag_ids = tags,
                me_category = fst class, me_bet_type = snd class, neg_risk = gm_neg_risk raw \<rparr>)))"

subsection \<open>The catalog keeps the latest row of every market\<close>

definition latest :: "market_enrichment list \<Rightarrow> u64 \<rightharpoonup> market_enrichment" where
  "latest ms = fold (\<lambda>m f. f(me_market_id m \<mapsto> m)) ms Map.empty"

text \<open>A condition id belongs to one market: it is a hash over that market's question.\<close>

definition conditions_owned :: "market_enrichment list \<Rightarrow> bool" where
  "conditions_owned ms \<longleftrightarrow> (\<forall>m\<in>set ms. \<forall>m'\<in>set ms.
     me_condition_id m = me_condition_id m' \<longrightarrow> me_market_id m = me_market_id m')"

definition catalog_holds :: "(u64 \<rightharpoonup> market_enrichment) \<Rightarrow> catalog \<Rightarrow> bool" where
  "catalog_holds L c \<longleftrightarrow>
     (\<forall>i. market_to_condition c i = map_option me_condition_id (L i)) \<and>
     (\<forall>cid m. by_condition c cid = Some m \<longleftrightarrow> L (me_market_id m) = Some m \<and> me_condition_id m = cid) \<and>
     (\<forall>i m. L i = Some m \<longrightarrow> me_market_id m = i \<and> i \<le> max_market_id c)"

lemma catalog_holds_upsert:
  assumes "catalog_holds L c"
    and own: "\<And>i m'. L i = Some m' \<Longrightarrow> me_condition_id m' = me_condition_id m \<Longrightarrow> me_market_id m' = me_market_id m"
  shows "catalog_holds (L(me_market_id m \<mapsto> m)) (snd (upsert m c))"
    and "fst (upsert m c) \<longleftrightarrow> L (me_market_id m) \<noteq> Some m"
proof -
  let ?i = "me_market_id m" and ?cid = "me_condition_id m"
  have mc: "market_to_condition c i = map_option me_condition_id (L i)"
    and bc: "by_condition c cid = Some m' \<longleftrightarrow> L (me_market_id m') = Some m' \<and> me_condition_id m' = cid"
    and idm: "L i = Some m' \<Longrightarrow> me_market_id m' = i \<and> i \<le> max_market_id c" for i cid m'
    using assms(1) by (auto simp: catalog_holds_def)
  show "fst (upsert m c) \<longleftrightarrow> L ?i \<noteq> Some m" using bc [of ?cid m] by (auto simp: upsert_def Let_def)
  show "catalog_holds (L(?i \<mapsto> m)) (snd (upsert m c))"
  proof (cases "by_condition c ?cid = Some m")
    case True
    then have "L(?i \<mapsto> m) = L" using bc [of ?cid m] by auto
    with True assms(1) show ?thesis by (simp add: upsert_def)
  next
    case False
    let ?c' = "snd (upsert m c)"
    have m': "market_to_condition ?c' = (market_to_condition c)(?i \<mapsto> ?cid)"
        "max_market_id ?c' = max (max_market_id c) ?i"
      using False by (simp_all add: upsert_def Let_def)
    have "by_condition ?c' cid = Some x \<longleftrightarrow> (L(?i \<mapsto> m)) (me_market_id x) = Some x \<and> me_condition_id x = cid"
      for cid x
    proof (cases "cid = ?cid")
      case True
      have "by_condition ?c' ?cid = Some m" using False by (simp add: upsert_def Let_def)
      with True own [of "me_market_id x" x] show ?thesis by auto
    next
      case other: False
      show ?thesis
      proof (cases "L ?i")
        case None
        then have "by_condition ?c' cid = by_condition c cid"
          using False other mc [of ?i] by (simp add: upsert_def Let_def)
        with None other bc [of cid x] show ?thesis by auto
      next
        case (Some old)
        then have "by_condition ?c' cid = (if cid = me_condition_id old then None else by_condition c cid)"
          using False other mc [of ?i] by (auto simp: upsert_def Let_def)
        moreover have "by_condition c (me_condition_id old) = Some old"
          using bc [of "me_condition_id old" old] Some idm [OF Some] by simp
        ultimately show ?thesis
          using Some other bc [of cid x] idm [OF Some] by (cases "cid = me_condition_id old") auto
      qed
    qed
    then show ?thesis
      using m' mc idm by (auto simp: catalog_holds_def le_max_iff_disj)
  qed
qed

lemma latest_snoc: "latest (ms @ [m]) = (latest ms)(me_market_id m \<mapsto> m)"
  by (simp add: latest_def)

lemma latest_in: "latest ms i = Some m \<Longrightarrow> m \<in> set ms"
  by (induction ms rule: rev_induct) (auto simp: latest_snoc latest_def split: if_splits)

lemma conditions_owned_latest:
  assumes "conditions_owned (ms @ [m])" "latest ms i = Some m'" "me_condition_id m' = me_condition_id m"
  shows "me_market_id m' = me_market_id m"
  using assms(1,3) latest_in [OF assms(2)] unfolding conditions_owned_def by (metis Un_iff list.set_intros(1) set_append)

lemma conditions_owned_prefix: "conditions_owned (ms @ [m]) \<Longrightarrow> conditions_owned ms"
  unfolding conditions_owned_def set_append by blast

lemma catalog_new_holds:
  "conditions_owned ms \<Longrightarrow> catalog_holds (latest ms) (catalog_new ms)"
proof (induction ms rule: rev_induct)
  case Nil
  then show ?case by (simp add: catalog_holds_def latest_def catalog_new_def catalog_empty_def)
next
  case (snoc m ms)
  have "catalog_holds (latest ms) (catalog_new ms)"
    by (rule snoc.IH [OF conditions_owned_prefix [OF snoc.prems]])
  then have "catalog_holds ((latest ms)(me_market_id m \<mapsto> m)) (snd (upsert m (catalog_new ms)))"
    by (rule catalog_holds_upsert(1)) (rule conditions_owned_latest [OF snoc.prems])
  then show ?case by (simp only: catalog_new_def latest_snoc fold_append o_apply fold_simps)
qed

text \<open>
  C11: the two hash maps of the catalog are one abstract map from market id to its
  latest row.  After any sequence of upserts, a lookup by market id returns the
  last row upserted for it; a lookup by condition id returns a row exactly when
  it is the latest row of its market; \<open>resolve\<close> prefers the market id and falls
  back to the derived condition id; and one more upsert reports a change exactly
  when the abstract map changes.
\<close>

theorem catalog_refines_latest:
  assumes "conditions_owned (ms @ [m])"
  shows "get_by_market_id i (catalog_new ms) = latest ms i \<and>
    (catalog_get cid (catalog_new ms) = Some x \<longleftrightarrow> latest ms (me_market_id x) = Some x \<and> me_condition_id x = cid) \<and>
    resolve mid cid (catalog_new ms) =
      (case Option.bind mid (latest ms) of Some r \<Rightarrow> Some r | None \<Rightarrow> catalog_get cid (catalog_new ms)) \<and>
    (fst (upsert m (catalog_new ms)) \<longleftrightarrow> latest (ms @ [m]) \<noteq> latest ms)"
proof (intro conjI)
  have h: "catalog_holds (latest ms) (catalog_new ms)"
    by (rule catalog_new_holds [OF conditions_owned_prefix [OF assms]])
  then have g: "get_by_market_id i (catalog_new ms) = latest ms i" for i
    by (cases "latest ms i") (auto simp: catalog_holds_def get_by_market_id_def)
  then show "get_by_market_id i (catalog_new ms) = latest ms i" .
  show "catalog_get cid (catalog_new ms) = Some x \<longleftrightarrow> latest ms (me_market_id x) = Some x \<and> me_condition_id x = cid"
    using h by (simp add: catalog_get_def catalog_holds_def)
  show "resolve mid cid (catalog_new ms) =
      (case Option.bind mid (latest ms) of Some r \<Rightarrow> Some r | None \<Rightarrow> catalog_get cid (catalog_new ms))"
    by (cases mid) (simp_all add: resolve_def g)
  have "fst (upsert m (catalog_new ms)) \<longleftrightarrow> latest ms (me_market_id m) \<noteq> Some m"
    by (rule catalog_holds_upsert(2) [OF h conditions_owned_latest [OF assms]])
  also have "\<dots> \<longleftrightarrow> latest (ms @ [m]) \<noteq> latest ms"
    unfolding latest_snoc by (metis fun_upd_same fun_upd_triv)
  finally show "fst (upsert m (catalog_new ms)) \<longleftrightarrow> latest (ms @ [m]) \<noteq> latest ms" .
qed

definition sample_row :: "u64 \<Rightarrow> u8 \<Rightarrow> category \<Rightarrow> market_enrichment" where
  "sample_row i c cat = \<lparr> me_market_id = i, me_condition_id = replicate 32 c, token_ids = [], tag_ids = [],
     me_category = cat, me_bet_type = BetUnspecified, neg_risk = False \<rparr>"

theorem catalog_refines_latest_witness:
  "conditions_owned ([sample_row 1 7 Sports, sample_row 2 8 Crypto, sample_row 1 9 Sports] @ [sample_row 2 8 Weather]) \<and>
   get_by_market_id 1 (catalog_new [sample_row 1 7 Sports, sample_row 2 8 Crypto, sample_row 1 9 Sports])
     = Some (sample_row 1 9 Sports)"
proof
  show own: "conditions_owned ([sample_row 1 7 Sports, sample_row 2 8 Crypto, sample_row 1 9 Sports] @ [sample_row 2 8 Weather])"
    by (simp add: conditions_owned_def sample_row_def)
  show "get_by_market_id 1 (catalog_new [sample_row 1 7 Sports, sample_row 2 8 Crypto, sample_row 1 9 Sports])
     = Some (sample_row 1 9 Sports)"
    using catalog_refines_latest [OF own, of 1] by (simp add: latest_def sample_row_def)
qed

subsection \<open>Token ids\<close>

lemma mul10_pass_correct:
  assumes "unat c \<le> 9" "mul10_pass c bs = (bs', c')"
  shows "be_nat (rev bs) * 10 + unat c = be_nat (rev bs') + unat c' * 256 ^ length bs \<and>
    unat c' \<le> 9 \<and> length bs' = length bs"
  using assms
proof (induction bs arbitrary: c bs')
  case (Cons b bs)
  define nxt where "nxt = (ucast b * 10 + c :: u16)"
  obtain q where q: "bs' = ucast nxt # q" and r: "mul10_pass (drop_bit 8 nxt) bs = (q, c')"
    using Cons.prems(2) by (auto simp: Let_def nxt_def split: prod.splits)
  have "unat (ucast b :: u16) = unat b" by (simp add: unat_ucast_up)
  then have n: "unat nxt = unat b * 10 + unat c"
    using Cons.prems(1) unat_byte_lt [of b] by (simp add: nxt_def unat_word_ariths)
  have d: "unat (drop_bit 8 nxt) = unat nxt div 256"
    by (simp add: drop_bit_eq_div unat_div)
  have u: "unat (ucast nxt :: u8) = unat nxt mod 256"
    by (simp add: unsigned_ucast_eq take_bit_eq_mod)
  have "unat (drop_bit 8 nxt) \<le> 9" using d n Cons.prems(1) unat_byte_lt [of b] by simp
  from Cons.IH [OF this r] have IH: "be_nat (rev bs) * 10 + unat nxt div 256 = be_nat (rev q) + unat c' * 256 ^ length bs"
    "unat c' \<le> 9" "length q = length bs" by (simp_all add: d)
  have "be_nat (rev (b # bs)) * 10 + unat c = be_nat (rev bs) * 10 * 256 + (unat nxt div 256 * 256 + unat nxt mod 256)"
    by (simp add: n)
  also have "\<dots> = (be_nat (rev bs) * 10 + unat nxt div 256) * 256 + unat nxt mod 256" by simp
  also have "\<dots> = be_nat (rev bs') + unat c' * 256 ^ length (b # bs)"
    by (simp add: IH(1) q u)
  finally show ?case using IH by (simp add: q)
qed simp

lemma decimal_value_Cons_acc:
  "foldl (\<lambda>a c. a * 10 + (of_char c - 48)) acc s \<ge> (acc :: nat)"
proof (induction s arbitrary: acc)
  case (Cons c s)
  have "acc \<le> acc * 10 + (of_char c - 48)" by simp
  also have "\<dots> \<le> foldl (\<lambda>a c. a * 10 + (of_char c - 48)) (acc * 10 + (of_char c - 48)) s" by (rule Cons.IH)
  finally show ?case by simp
qed simp

lemma uint256_digits_value:
  assumes "length bs = 32" "list_all is_digit s"
  shows "uint256_digits bs s =
    (let v = foldl (\<lambda>a c. a * 10 + (of_char c - 48)) (be_nat bs) s
     in if v < 256 ^ 32 then Inr (nat_be 32 v) else Inl (Identity ''token_id overflow''))"
  using assms
proof (induction s arbitrary: bs)
  case Nil
  have "be_nat bs < 256 ^ 32" using be_nat_lt [of bs] Nil(1) by simp
  with Nil show ?case by (simp add: nat_be_be_nat)
next
  case (Cons d s)
  obtain q c where p: "mul10_pass (of_nat (of_char d - 48)) (rev bs) = (q, c)"
    by (cases "mul10_pass (of_nat (of_char d - 48)) (rev bs)")
  have d: "(of_char d :: nat) - 48 \<le> 9" using Cons.prems(2) by (auto simp: is_digit_def)
  then have ud: "unat (of_nat (of_char d - 48) :: u16) = of_char d - 48" by (simp add: unat_of_nat)
  then have "unat (of_nat (of_char d - 48) :: u16) \<le> 9" using d by simp
  from mul10_pass_correct [OF this p]
  have e: "be_nat bs * 10 + (of_char d - 48) = be_nat (rev q) + unat c * 256 ^ 32" "length (rev q) = 32"
    using Cons.prems(1) ud by simp_all
  have lt: "be_nat (rev q) < 256 ^ 32" using be_nat_lt [of "rev q"] e(2) by simp
  let ?v = "be_nat bs * 10 + (of_char d - 48)"
  show ?case
  proof (cases "c = 0")
    case True
    with e have "?v = be_nat (rev q)" by simp
    with True Cons.IH [OF e(2)] Cons.prems(2) p show ?thesis by simp
  next
    case False
    then have "1 \<le> unat c" by (simp add: unat_eq_0 Suc_le_eq neq0_conv [symmetric] del: neq0_conv)
    then have "256 ^ 32 \<le> unat c * 256 ^ 32" by (metis mult_le_mono1 mult_1)
    then have "256 ^ 32 \<le> ?v" using e(1) by linarith
    also have "?v \<le> foldl (\<lambda>a c. a * 10 + (of_char c - 48)) ?v s" by (rule decimal_value_Cons_acc)
    finally show ?thesis using False Cons.prems(2) p by (simp add: Let_def)
  qed
qed

lemma digits_no_hex_prefix:
  assumes "list_all is_digit s"
  shows "\<not> starts_with ''0x'' s" "\<not> starts_with ''0X'' s"
proof -
  have "\<not> is_digit (CHR ''x'')" "\<not> is_digit (CHR ''X'')" by (simp_all add: is_digit_def)
  then show "\<not> starts_with ''0x'' s" "\<not> starts_with ''0X'' s"
    using assms by (cases s rule: remdups_adj.cases; auto simp: starts_with_def)+
qed

text \<open>
  a decimal token id is read exactly: the 32 bytes hold its value when that
  is below 2 to the 256, anything larger is the overflow error, and the decimal
  rendering of every 256-bit integer is read back to the same bytes.
\<close>

theorem parse_uint256_decimal:
  assumes "list_all is_digit s" "s \<noteq> []" "length v = 32"
  shows "parse_uint256 C s =
      (if decimal_value s < 2 ^ 256 then Inr (nat_be 32 (decimal_value s)) else Inl (Identity ''token_id overflow'')) \<and>
    parse_uint256 C (uint256_decimal v) = Inr v"
proof -
  have gen: "parse_uint256 C t =
      (if decimal_value t < 2 ^ 256 then Inr (nat_be 32 (decimal_value t)) else Inl (Identity ''token_id overflow''))"
    if "list_all is_digit t" "t \<noteq> []" for t
  proof -
    have "(256 :: nat) ^ 32 = 2 ^ 256" by simp
    then show ?thesis
      using uint256_digits_value [of "replicate 32 0" t] digits_no_hex_prefix [OF that(1)] that
      by (simp only: parse_uint256_def decimal_value_def be_nat_replicate length_replicate Let_def if_False simp_thms)
  qed
  have "list_all is_digit (uint256_decimal v)" "uint256_decimal v \<noteq> []" "decimal_value (uint256_decimal v) = be_nat v"
    using uint256_decimal_value [of v] by (simp_all add: canonical_decimal_def)
  moreover have "be_nat v < 2 ^ 256" using be_nat_lt [of v] assms(3) by simp
  ultimately have "parse_uint256 C (uint256_decimal v) = Inr v"
    using gen [of "uint256_decimal v"] assms(3) by (simp only: nat_be_be_nat if_True simp_thms)
  with gen [OF assms(1,2)] show ?thesis by blast
qed

theorem parse_uint256_decimal_witness:
  "parse_uint256 sample_crypto ''10'' = Inr (nat_be 32 10) \<and>
   parse_uint256 sample_crypto (uint256_decimal (replicate 32 255)) = Inr (replicate 32 255)"
  using parse_uint256_decimal [of "''10''" "replicate 32 255" sample_crypto]
  by (simp add: is_digit_def decimal_value_def)

subsection \<open>Rows have the widths of the Rust arrays\<close>

lemma uint256_digits_length:
  "\<lbrakk> uint256_digits bs s = Inr r; length bs = 32 \<rbrakk> \<Longrightarrow> length r = 32"
proof (induction bs s rule: uint256_digits.induct)
  case (2 bs d s)
  have len: "length q = 32" if "mul10_pass c (rev bs) = (q, c')" for c c' q
  proof -
    have "length (fst (mul10_pass c xs)) = length xs" for c xs
      by (induction xs arbitrary: c) (auto simp: Let_def case_prod_beta)
    from this [of c "rev bs"] that "2.prems"(2) show ?thesis by simp
  qed
  show ?case
    using 2 by (auto simp: Let_def split: if_splits prod.splits dest: len)
qed simp

lemma parse_uint256_length: "parse_uint256 C s = Inr r \<Longrightarrow> length r = 32"
  by (auto simp: parse_uint256_def parse_hex_32_def fixed_def split: if_splits sum.splits option.splits
      dest: uint256_digits_length)

lemma collect_results_all:
  "\<lbrakk> collect_results f xs = Inr ys; \<And>x y. f x = Inr y \<Longrightarrow> P y \<rbrakk> \<Longrightarrow> list_all P ys \<and> length ys = length xs"
  by (induction xs arbitrary: ys) auto

text \<open>
  every row built from a Gamma market has a 32-byte condition id and 32-byte
  token ids, one per listed token, and its tags are strictly ascending and are
  exactly the 32-bit numbers among the tags of the market and of its events.
\<close>

theorem compact_market_row:
  assumes "compact_market C classify raw = Inr m"
  shows "length (me_condition_id m) = 32 \<and> list_all (\<lambda>t. length t = 32) (token_ids m) \<and>
    length (token_ids m) = length (clob_token_ids raw) \<and>
    sorted (tag_ids m) \<and> distinct (tag_ids m) \<and>
    set (tag_ids m) = {n. \<exists>t \<in> set (gm_tags raw) \<union> \<Union> (set ` set (gm_event_tags raw)). u32_from_str t = Some n}"
proof -
  have tags: "tag_ids m = remdups_adj (sort (List.map_filter u32_from_str (gm_tags raw @ concat (gm_event_tags raw))))"
    and cid: "parse_hex_32 C (gm_condition_id raw) = Inr (me_condition_id m)"
    and toks: "collect_results (parse_uint256 C) (clob_token_ids raw) = Inr (token_ids m)"
    using assms by (auto simp: compact_market_def Let_def)
  have c32: "length (me_condition_id m) = 32"
    using cid by (auto simp: parse_hex_32_def fixed_def split: option.splits if_splits)
  have t32: "list_all (\<lambda>t. length t = 32) (token_ids m)" "length (token_ids m) = length (clob_token_ids raw)"
    using collect_results_all [OF toks, of "\<lambda>t. length t = 32"] parse_uint256_length by blast+
  have "set (List.map_filter u32_from_str ts) = {n. \<exists>t \<in> set ts. u32_from_str t = Some n}" for ts
    by (induction ts) (auto simp: List.map_filter_def)
  from this [of "gm_tags raw @ concat (gm_event_tags raw)"]
  have s: "set (tag_ids m) = {n. \<exists>t \<in> set (gm_tags raw) \<union> \<Union> (set ` set (gm_event_tags raw)). u32_from_str t = Some n}"
    unfolding tags remdups_adj_set set_sort set_append set_concat .
  have "sorted (tag_ids m)" "distinct (tag_ids m)"
    unfolding tags by (intro sorted_remdups_adj distinct_remdups_adj_sorted sorted_sort)+
  with c32 t32 s show ?thesis by blast
qed

definition sample_gamma_market :: gamma_market where
  "sample_gamma_market =
     \<lparr> gm_id = ''42'', gm_updated_at = ''2026-09-01T00:00:00Z'', gm_condition_id = ''0x'' @ sample_hex_encode (replicate 32 7),
       clob_token_ids = [''12''], gm_tags = [''9'', ''x''], gm_event_tags = [[''3'', ''9'']], gm_neg_risk = False,
       sports_market_type = None, question = None \<rparr>"

lemma sample_gamma_market_row:
  "\<exists>m. compact_market sample_crypto (\<lambda>_ _ _. (Sports, Moneyline)) sample_gamma_market = Inr m"
proof -
  have "parse_hex_32 sample_crypto (''0x'' @ sample_hex_encode (replicate 32 7)) = Inr (replicate 32 7)"
    by (simp add: parse_hex_32_def strip_0x_def strip_prefix_def sample_crypto_def sample_hex_round_trip fixed_def)
  moreover have "\<exists>t. parse_uint256 sample_crypto ''12'' = Inr t"
    using uint256_digits_value [of "replicate 32 0" "''12''"]
    by (simp add: parse_uint256_def starts_with_def is_digit_def)
  moreover have "u64_from_str 10 dec_digit ''42'' = Some 42"
    by (simp add: u64_from_str_def dec_digit_def)
  ultimately show ?thesis
    by (auto simp: compact_market_def sample_gamma_market_def Let_def simp del: append.simps)
qed

theorem compact_market_row_witness:
  "\<exists>m. compact_market sample_crypto (\<lambda>_ _ _. (Sports, Moneyline)) sample_gamma_market = Inr m \<and>
     length (me_condition_id m) = 32 \<and> distinct (tag_ids m)"
  using sample_gamma_market_row compact_market_row by blast

end
