(* ===== verification/Catalog_Sync.thy ===== *)
theory Catalog_Sync
  imports Catalog "HOL-Library.List_Lexorder" "HOL-Library.Char_ord" "HOL-Library.Product_Lexorder"
begin

text \<open>
  How \<open>enrichment.rs\<close> follows Gamma: retried page requests, the incremental walk
  by update time with its cursor, the newest-by-id watch, the full
  reconciliation, and the order in which catalog and cursors are written.
  Gamma is a parameter that answers the \<open>n\<close>-th request; strings compare as Rust
  compares them, byte by byte.
\<close>

subsection \<open>Requests\<close>

datatype keyset_order = UpdatedAtDesc | IdDesc

record gamma_page =
  page_markets :: "gamma_market list"
  next_cursor :: string

type_synonym gamma_server = "nat \<Rightarrow> string option \<Rightarrow> keyset_order \<Rightarrow> bool \<Rightarrow> enrichment_error + gamma_page"

definition KEYSET_RETRIES :: nat where
  "KEYSET_RETRIES = 3"

function keyset_with_retry ::
  "gamma_server \<Rightarrow> nat \<Rightarrow> string option \<Rightarrow> keyset_order \<Rightarrow> bool \<Rightarrow> nat \<Rightarrow> (enrichment_error + gamma_page) \<times> nat" where
  "keyset_with_retry G n cursor order closed attempt =
     (case G n cursor order closed of
        Inr page \<Rightarrow> (Inr page, Suc n)
      | Inl e \<Rightarrow>
          if attempt < KEYSET_RETRIES \<and> is_transient e
          then keyset_with_retry G (Suc n) cursor order closed (Suc attempt)
          else (Inl e, Suc n))"
  by pat_completeness auto
termination keyset_with_retry
  by (relation "measure (\<lambda>(_, _, _, _, _, a). KEYSET_RETRIES - a)") auto

declare keyset_with_retry.simps [simp del]

subsection \<open>Cursors\<close>

record enrichment_cursor =
  cur_updated_at :: string
  cur_market_id :: u64

definition is_older :: "enrichment_cursor \<Rightarrow> string \<Rightarrow> bool" where
  "is_older cur updated_at \<longleftrightarrow> updated_at < cur_updated_at cur"

definition advance :: "string \<Rightarrow> u64 \<Rightarrow> enrichment_cursor \<Rightarrow> enrichment_cursor" where
  "advance updated_at mid cur =
     (if (cur_updated_at cur, cur_market_id cur) < (updated_at, mid)
      then \<lparr> cur_updated_at = updated_at, cur_market_id = mid \<rparr> else cur)"

subsection \<open>The incremental walk\<close>

record sync_state =
  ss_newest :: "enrichment_cursor option"
  ss_changed :: nat
  ss_catalog :: catalog

definition advance_newest :: "string \<Rightarrow> u64 \<Rightarrow> enrichment_cursor option \<Rightarrow> enrichment_cursor option" where
  "advance_newest updated_at mid newest =
     (case newest of
        Some cur \<Rightarrow> Some (advance updated_at mid cur)
      | None \<Rightarrow> Some \<lparr> cur_updated_at = updated_at, cur_market_id = mid \<rparr>)"

definition before_walk :: "enrichment_cursor option \<Rightarrow> string option \<Rightarrow> string \<Rightarrow> bool" where
  "before_walk previous boundary updated_at \<longleftrightarrow>
     (case previous of Some cur \<Rightarrow> is_older cur updated_at | None \<Rightarrow> False) \<or>
     (case boundary of Some b \<Rightarrow> updated_at < b | None \<Rightarrow> False)"

definition sync_market ::
  "crypto \<Rightarrow> classifier \<Rightarrow> gamma_market \<Rightarrow> sync_state \<Rightarrow> sync_state" where
  "sync_market C classify raw s =
     (case compact_market C classify raw of
        Inl _ \<Rightarrow> s
      | Inr m \<Rightarrow>
          (let newest = (case u64_from_str 10 dec_digit (gm_id raw) of
                           Some mid \<Rightarrow> advance_newest (gm_updated_at raw) mid (ss_newest s)
                         | None \<Rightarrow> ss_newest s);
               (new, c) = upsert m (ss_catalog s)
           in \<lparr> ss_newest = newest, ss_changed = (if new then ss_changed s + 1 else ss_changed s), ss_catalog = c \<rparr>))"

text \<open>The markets of one page; the flag is \<open>reached_previous\<close>.\<close>

fun sync_page ::
  "crypto \<Rightarrow> classifier \<Rightarrow> enrichment_cursor option \<Rightarrow> string option \<Rightarrow> gamma_market list \<Rightarrow> sync_state
   \<Rightarrow> bool \<times> sync_state" where
  "sync_page C classify previous boundary [] s = (False, s)"
| "sync_page C classify previous boundary (raw # rest) s =
     (if before_walk previous boundary (gm_updated_at raw)
      then (True, snd (sync_page C classify previous boundary rest s))
      else sync_page C classify previous boundary rest (sync_market C classify raw s))"

definition last_page :: "string option \<Rightarrow> string \<Rightarrow> bool" where
  "last_page page_cursor nxt \<longleftrightarrow> nxt = [] \<or> nxt = ''LTE='' \<or> page_cursor = Some nxt"

fun sync_pages ::
  "gamma_server \<Rightarrow> crypto \<Rightarrow> classifier \<Rightarrow> enrichment_cursor option \<Rightarrow> bool \<Rightarrow> string option \<Rightarrow> nat
   \<Rightarrow> string option \<Rightarrow> nat \<Rightarrow> sync_state \<Rightarrow> (enrichment_error option \<times> sync_state) \<times> nat" where
  "sync_pages G C classify previous closed boundary 0 page_cursor n s = ((None, s), n)"
| "sync_pages G C classify previous closed boundary (Suc pages) page_cursor n s =
     (case keyset_with_retry G n page_cursor UpdatedAtDesc closed 0 of
        (Inl e, n') \<Rightarrow> ((Some e, s), n')
      | (Inr page, n') \<Rightarrow>
          if page_markets page = [] then ((None, s), n')
          else
            (case sync_page C classify previous boundary (page_markets page) s of
               (reached, s') \<Rightarrow>
                 if reached \<or> last_page page_cursor (next_cursor page) then ((None, s'), n')
                 else sync_pages G C classify previous closed boundary pages (Some (next_cursor page)) n' s'))"

definition sync_incremental ::
  "gamma_server \<Rightarrow> crypto \<Rightarrow> classifier \<Rightarrow> catalog \<Rightarrow> enrichment_cursor option \<Rightarrow> bool \<Rightarrow> string option \<Rightarrow> nat
   \<Rightarrow> nat \<Rightarrow> (enrichment_error + nat \<times> enrichment_cursor option) \<times> catalog \<times> nat" where
  "sync_incremental G C classify cat previous closed boundary max_pages n =
     (case sync_pages G C classify previous closed boundary (max max_pages 1) None n
             \<lparr> ss_newest = previous, ss_changed = 0, ss_catalog = cat \<rparr> of
        ((Some e, s), n') \<Rightarrow> (Inl e, ss_catalog s, n')
      | ((None, s), n') \<Rightarrow> (Inr (ss_changed s, ss_newest s), ss_catalog s, n'))"

subsection \<open>Both streams, and the full walk\<close>

record cursor_pair =
  active_cursor :: "enrichment_cursor option"
  closed_cursor :: "enrichment_cursor option"

definition sync_both ::
  "gamma_server \<Rightarrow> crypto \<Rightarrow> classifier \<Rightarrow> nat \<Rightarrow> catalog \<Rightarrow> cursor_pair \<Rightarrow> string \<Rightarrow> nat
   \<Rightarrow> (enrichment_error + nat \<times> enrichment_cursor option \<times> enrichment_cursor option) \<times> catalog \<times> nat" where
  "sync_both G C classify max_pages cat cursors boundary n =
     (case sync_incremental G C classify cat (active_cursor cursors) False None max_pages n of
        (Inl e, cat1, n1) \<Rightarrow> (Inl e, cat1, n1)
      | (Inr (changed_active, next_active), cat1, n1) \<Rightarrow>
          (case sync_incremental G C classify cat1 (closed_cursor cursors) True (Some boundary) max_pages n1 of
             (Inl e, cat2, n2) \<Rightarrow> (Inl e, cat2, n2)
           | (Inr (changed_closed, next_closed), cat2, n2) \<Rightarrow>
               (Inr (changed_active + changed_closed, next_active, next_closed), cat2, n2)))"

definition reconcile_full ::
  "gamma_server \<Rightarrow> crypto \<Rightarrow> classifier \<Rightarrow> nat \<Rightarrow> catalog \<Rightarrow> string \<Rightarrow> nat \<Rightarrow> (enrichment_error + nat) \<times> catalog \<times> nat" where
  "reconcile_full G C classify max_pages cat boundary n =
     (case sync_incremental G C classify cat None False None max_pages n of
        (Inl e, cat1, n1) \<Rightarrow> (Inl e, cat1, n1)
      | (Inr (changed_active, _), cat1, n1) \<Rightarrow>
          (case sync_incremental G C classify cat1 None True (Some boundary) max_pages n1 of
             (Inl e, cat2, n2) \<Rightarrow> (Inl e, cat2, n2)
           | (Inr (changed_closed, _), cat2, n2) \<Rightarrow> (Inr (changed_active + changed_closed), cat2, n2)))"

subsection \<open>Newest markets by id\<close>

text \<open>One page, newest id first: stop at the first known id.\<close>

fun newest_page ::
  "crypto \<Rightarrow> classifier \<Rightarrow> u64 \<Rightarrow> gamma_market list \<Rightarrow> nat \<times> catalog \<Rightarrow> bool \<times> nat \<times> catalog" where
  "newest_page C classify known_max [] (changed, cat) = (False, changed, cat)"
| "newest_page C classify known_max (raw # rest) (changed, cat) =
     (if (case u64_from_str 10 dec_digit (gm_id raw) of Some i \<Rightarrow> i \<le> known_max | None \<Rightarrow> False)
      then (True, changed, cat)
      else
        (case compact_market C classify raw of
           Inl _ \<Rightarrow> newest_page C classify known_max rest (changed, cat)
         | Inr m \<Rightarrow>
             (case upsert m cat of
                (new, cat') \<Rightarrow> newest_page C classify known_max rest (if new then changed + 1 else changed, cat'))))"

fun newest_pages ::
  "gamma_server \<Rightarrow> crypto \<Rightarrow> classifier \<Rightarrow> u64 \<Rightarrow> nat \<Rightarrow> string option \<Rightarrow> nat \<Rightarrow> nat \<times> catalog
   \<Rightarrow> (enrichment_error option \<times> nat \<times> catalog) \<times> nat" where
  "newest_pages G C classify known_max 0 page_cursor n st = ((None, st), n)"
| "newest_pages G C classify known_max (Suc pages) page_cursor n st =
     (case keyset_with_retry G n page_cursor IdDesc False 0 of
        (Inl e, n') \<Rightarrow> ((Some e, st), n')
      | (Inr page, n') \<Rightarrow>
          if page_markets page = [] then ((None, st), n')
          else
            (case newest_page C classify known_max (page_markets page) st of
               (reached, st') \<Rightarrow>
                 if reached \<or> last_page page_cursor (next_cursor page) then ((None, st'), n')
                 else newest_pages G C classify known_max pages (Some (next_cursor page)) n' st'))"

definition sync_newest_markets ::
  "gamma_server \<Rightarrow> crypto \<Rightarrow> classifier \<Rightarrow> catalog \<Rightarrow> nat \<Rightarrow> nat \<Rightarrow> (enrichment_error + nat) \<times> catalog \<times> nat" where
  "sync_newest_markets G C classify cat max_pages n =
     (case newest_pages G C classify (max_market_id cat) (max max_pages 1) None n (0, cat) of
        ((Some e, _, cat'), n') \<Rightarrow> (Inl e, cat', n')
      | ((None, changed, cat'), n') \<Rightarrow> (Inr changed, cat', n'))"

subsection \<open>Retries\<close>

lemma keyset_with_retry_bound:
  "\<exists>k. k \<le> KEYSET_RETRIES - attempt \<and>
     keyset_with_retry G n cursor order closed attempt = (G (n + k) cursor order closed, n + k + 1) \<and>
     (\<forall>j<k. \<exists>e. G (n + j) cursor order closed = Inl e \<and> is_transient e) \<and>
     (k < KEYSET_RETRIES - attempt \<longrightarrow> (\<forall>e. G (n + k) cursor order closed = Inl e \<longrightarrow> \<not> is_transient e))"
proof (induction G n cursor order closed attempt rule: keyset_with_retry.induct)
  case (1 G n cursor order closed attempt)
  show ?case
  proof (cases "\<exists>e. G n cursor order closed = Inl e \<and> attempt < KEYSET_RETRIES \<and> is_transient e")
    case True
    then obtain e where e: "G n cursor order closed = Inl e" "attempt < KEYSET_RETRIES" "is_transient e" by blast
    from 1 [OF e(1)] e(2,3) obtain k where k: "k \<le> KEYSET_RETRIES - Suc attempt"
      "keyset_with_retry G (Suc n) cursor order closed (Suc attempt) = (G (Suc n + k) cursor order closed, Suc n + k + 1)"
      "\<forall>j<k. \<exists>e. G (Suc n + j) cursor order closed = Inl e \<and> is_transient e"
      "k < KEYSET_RETRIES - Suc attempt \<longrightarrow> (\<forall>e. G (Suc n + k) cursor order closed = Inl e \<longrightarrow> \<not> is_transient e)"
      by blast
    show ?thesis
    proof (intro exI [of _ "Suc k"] conjI allI impI)
      fix j assume "j < Suc k"
      with k(3) e show "\<exists>e. G (n + j) cursor order closed = Inl e \<and> is_transient e" by (cases j) auto
    qed (use k e in \<open>auto simp: keyset_with_retry.simps\<close>)
  next
    case False
    then show ?thesis
      by (intro exI [of _ 0]) (auto simp: keyset_with_retry.simps [of G n] split: sum.splits)
  qed
qed

text \<open>
  one page costs at most four requests; the answer is the first success or
  the first error that is not worth retrying, and the fourth transient error is
  passed on.
\<close>

theorem keyset_with_retry_spec:
  "\<exists>k \<le> 3. keyset_with_retry G n cursor order closed 0 = (G (n + k) cursor order closed, n + k + 1) \<and>
     (\<forall>j<k. \<exists>e. G (n + j) cursor order closed = Inl e \<and> is_transient e) \<and>
     (k < 3 \<longrightarrow> (\<forall>e. G (n + k) cursor order closed = Inl e \<longrightarrow> \<not> is_transient e))"
  using keyset_with_retry_bound [where attempt = 0] by (simp add: KEYSET_RETRIES_def)

definition flaky_gamma :: gamma_server where
  "flaky_gamma i cursor order closed = (if i < 2 then Inl (Status 503) else Inl (Status 404))"

theorem keyset_with_retry_spec_witness:
  "keyset_with_retry flaky_gamma 0 None IdDesc False 0 = (Inl (Status 404), 3)"
proof -
  obtain k where k: "k \<le> 3"
    "keyset_with_retry flaky_gamma 0 None IdDesc False 0 = (flaky_gamma (0 + k) None IdDesc False, 0 + k + 1)"
    "\<forall>j<k. \<exists>e. flaky_gamma (0 + j) None IdDesc False = Inl e \<and> is_transient e"
    "k < 3 \<longrightarrow> (\<forall>e. flaky_gamma (0 + k) None IdDesc False = Inl e \<longrightarrow> \<not> is_transient e)"
    using keyset_with_retry_spec by metis
  have "\<not> k < 2" using k(4) by (auto simp: flaky_gamma_def)
  moreover have "\<not> 2 < k" using k(3) [rule_format, of 2] by (auto simp: flaky_gamma_def)
  ultimately have "k = 2" by simp
  with k(2) show ?thesis by (simp add: flaky_gamma_def)
qed

subsection \<open>What one walk does\<close>

abbreviation cursor_pos :: "enrichment_cursor \<Rightarrow> string \<times> u64" where
  "cursor_pos c \<equiv> (cur_updated_at c, cur_market_id c)"

definition pos_le :: "string \<times> u64 \<Rightarrow> enrichment_cursor option \<Rightarrow> bool" where
  "pos_le p newest \<longleftrightarrow> (\<exists>c. newest = Some c \<and> p \<le> cursor_pos c)"

text \<open>
  \<open>walked previous boundary s s' acc\<close>: the walk went from \<open>s\<close> to \<open>s'\<close> by taking in
  exactly the markets \<open>acc\<close>, in order.
\<close>

definition walked ::
  "crypto \<Rightarrow> classifier \<Rightarrow> enrichment_cursor option \<Rightarrow> string option \<Rightarrow> sync_state \<Rightarrow> sync_state
   \<Rightarrow> (gamma_market \<times> market_enrichment) list \<Rightarrow> bool" where
  "walked C classify previous boundary s s' acc \<longleftrightarrow>
     ss_catalog s' = fold (\<lambda>m c. snd (upsert m c)) (map snd acc) (ss_catalog s) \<and>
     (\<forall>p. pos_le p (ss_newest s) \<longrightarrow> pos_le p (ss_newest s')) \<and>
     (\<forall>(raw, m) \<in> set acc. compact_market C classify raw = Inr m \<and>
        \<not> before_walk previous boundary (gm_updated_at raw) \<and>
        pos_le (gm_updated_at raw, me_market_id m) (ss_newest s')) \<and>
     (ss_changed s' = ss_changed s \<longrightarrow> ss_catalog s' = ss_catalog s) \<and> ss_changed s \<le> ss_changed s'"

lemma walked_refl: "walked C classify previous boundary s s []"
  by (simp add: walked_def)

lemma walked_trans:
  "\<lbrakk> walked C classify previous boundary s s1 a; walked C classify previous boundary s1 s2 b \<rbrakk> \<Longrightarrow>
   walked C classify previous boundary s s2 (a @ b)"
  unfolding walked_def by (auto simp: split_beta)

lemma pos_le_advance:
  assumes "pos_le p newest"
  shows "pos_le p (advance_newest u i newest)"
proof -
  obtain c where c: "newest = Some c" "p \<le> cursor_pos c" using assms by (auto simp: pos_le_def)
  show ?thesis
  proof (cases "cursor_pos c < (u, i)")
    case True
    have "p \<le> (u, i)" by (rule order_trans [OF c(2) less_imp_le [OF True]])
    with True show ?thesis by (simp add: pos_le_def advance_newest_def advance_def c)
  next
    case False
    then have "advance u i c = c" by (simp only: advance_def if_False)
    with c show ?thesis by (simp add: pos_le_def advance_newest_def)
  qed
qed

lemma pos_le_advance_self: "pos_le (u, i) (advance_newest u i newest)"
proof (cases newest)
  case (Some c)
  then show ?thesis
    by (cases "cursor_pos c < (u, i)") (auto simp: pos_le_def advance_newest_def advance_def not_less)
qed (simp add: pos_le_def advance_newest_def)

lemma compact_market_id:
  "compact_market C classify raw = Inr m \<Longrightarrow> u64_from_str 10 dec_digit (gm_id raw) = Some (me_market_id m)"
  by (auto simp: compact_market_def Let_def)

lemma upsert_unchanged: "upsert m c = (False, c') \<Longrightarrow> c' = c"
  by (auto simp: upsert_def Let_def split: if_splits)

text \<open>The markets a walk takes in: those not before it that convert to a row.\<close>

definition taken ::
  "crypto \<Rightarrow> classifier \<Rightarrow> enrichment_cursor option \<Rightarrow> string option \<Rightarrow> gamma_market list
   \<Rightarrow> (gamma_market \<times> market_enrichment) list" where
  "taken C classify previous boundary raws =
     List.map_filter (\<lambda>raw. if before_walk previous boundary (gm_updated_at raw) then None
        else case compact_market C classify raw of Inl _ \<Rightarrow> None | Inr m \<Rightarrow> Some (raw, m)) raws"

lemma taken_append: "taken C cl p b (xs @ ys) = taken C cl p b xs @ taken C cl p b ys"
  by (simp add: taken_def List.map_filter_def)

lemma taken_Cons:
  "taken C cl p b (raw # raws) =
     (if before_walk p b (gm_updated_at raw) then []
      else case compact_market C cl raw of Inl _ \<Rightarrow> [] | Inr m \<Rightarrow> [(raw, m)]) @ taken C cl p b raws"
  by (auto simp: taken_def List.map_filter_def split: sum.splits)

lemma sync_market_walked:
  assumes "\<not> before_walk previous boundary (gm_updated_at raw)"
  shows "walked C classify previous boundary s (sync_market C classify raw s)
    (case compact_market C classify raw of Inl _ \<Rightarrow> [] | Inr m \<Rightarrow> [(raw, m)])"
proof (cases "compact_market C classify raw")
  case (Inl e)
  then show ?thesis by (simp add: sync_market_def walked_def)
next
  case (Inr m)
  obtain new c where u: "upsert m (ss_catalog s) = (new, c)" by (cases "upsert m (ss_catalog s)")
  with Inr assms compact_market_id [OF Inr] upsert_unchanged [of m "ss_catalog s" c]
  show ?thesis
    by (auto simp: sync_market_def walked_def pos_le_advance pos_le_advance_self)
qed

lemma sync_page_walked:
  "sync_page C cl p b raws s = (r, s') \<Longrightarrow> walked C cl p b s s' (taken C cl p b raws)"
proof (induction raws arbitrary: s r s')
  case Nil
  then show ?case by (simp add: taken_def walked_refl)
next
  case (Cons raw raws)
  show ?case
  proof (cases "before_walk p b (gm_updated_at raw)")
    case True
    then obtain r1 where "sync_page C cl p b raws s = (r1, s')"
      using Cons.prems by (cases "sync_page C cl p b raws s") auto
    from Cons.IH [OF this] True show ?thesis by (simp add: taken_Cons)
  next
    case False
    then have "sync_page C cl p b raws (sync_market C cl raw s) = (r, s')" using Cons.prems by simp
    from walked_trans [OF sync_market_walked [OF False] Cons.IH [OF this]] False
    show ?thesis by (simp add: taken_Cons)
  qed
qed

lemma sync_pages_walked:
  "sync_pages G C cl p closed b pages pc n s = ((e, s'), n') \<Longrightarrow>
   \<exists>ps :: gamma_page list. walked C cl p b s s' (taken C cl p b (concat (map page_markets ps)))"
proof (induction pages arbitrary: pc n s)
  case 0
  then show ?case by (intro exI [of _ "[]"]) (simp add: taken_def List.map_filter_def walked_refl)
next
  case (Suc pages)
  obtain res n1 where k: "keyset_with_retry G n pc UpdatedAtDesc closed 0 = (res, n1)"
    by (cases "keyset_with_retry G n pc UpdatedAtDesc closed 0")
  have none: "walked C cl p b s s (taken C cl p b (concat (map page_markets [])))"
    by (simp add: taken_def List.map_filter_def walked_refl)
  show ?case
  proof (cases res)
    case (Inl x)
    with Suc.prems k have "s' = s" by simp
    with none show ?thesis by blast
  next
    case (Inr page)
    obtain r s1 where s1: "sync_page C cl p b (page_markets page) s = (r, s1)"
      by (cases "sync_page C cl p b (page_markets page) s")
    note w = sync_page_walked [OF s1]
    consider "s' = s" | "s' = s1"
      | "sync_pages G C cl p closed b pages (Some (next_cursor page)) n1 s1 = ((e, s'), n')"
      using Suc.prems k Inr s1 by (auto split: if_splits)
    then show ?thesis
    proof cases
      case 1
      with none show ?thesis by blast
    next
      case 2
      with w have "walked C cl p b s s' (taken C cl p b (concat (map page_markets [page])))" by simp
      then show ?thesis by blast
    next
      case 3
      then obtain ps :: "gamma_page list" where "walked C cl p b s1 s' (taken C cl p b (concat (map page_markets ps)))"
        using Suc.IH by blast
      with w have "walked C cl p b s s' (taken C cl p b (concat (map page_markets (page # ps))))"
        by (auto simp: taken_append intro: walked_trans)
      then show ?thesis by blast
    qed
  qed
qed



subsection \<open>Catalog before cursors\<close>

record catalog_disk =
  disk_catalog :: "market_enrichment list"
  disk_active :: "string option"
  disk_closed :: "string option"

datatype disk_write = WriteCatalog "market_enrichment list" | WriteActive string | WriteClosed string

fun do_write :: "disk_write \<Rightarrow> catalog_disk \<Rightarrow> catalog_disk" where
  "do_write (WriteCatalog ms) d = d\<lparr> disk_catalog := ms \<rparr>"
| "do_write (WriteActive v) d = d\<lparr> disk_active := Some v \<rparr>"
| "do_write (WriteClosed v) d = d\<lparr> disk_closed := Some v \<rparr>"

text \<open>
  Each write is atomic (temporary file and rename); \<open>fails k\<close> says the \<open>k\<close>-th write
  returns an error, and the question mark stops there.
\<close>

fun do_writes :: "(nat \<Rightarrow> bool) \<Rightarrow> nat \<Rightarrow> disk_write list \<Rightarrow> catalog_disk \<Rightarrow> bool \<times> catalog_disk" where
  "do_writes fails k [] d = (True, d)"
| "do_writes fails k (w # ws) d = (if fails k then (False, d) else do_writes fails (Suc k) ws (do_write w d))"

definition persist_writes :: "market_enrichment list \<Rightarrow> string option \<Rightarrow> string option \<Rightarrow> disk_write list" where
  "persist_writes snapshot active closed =
     [WriteCatalog snapshot] @
     (case active of Some v \<Rightarrow> [WriteActive v] | None \<Rightarrow> []) @
     (case closed of Some v \<Rightarrow> [WriteClosed v] | None \<Rightarrow> [])"

definition persist_catalog ::
  "(nat \<Rightarrow> bool) \<Rightarrow> market_enrichment list \<Rightarrow> string option \<Rightarrow> string option \<Rightarrow> catalog_disk \<Rightarrow> bool \<times> catalog_disk" where
  "persist_catalog fails snapshot active closed d = do_writes fails 0 (persist_writes snapshot active closed) d"



subsection \<open>The newest-id watch and markets without a condition id\<close>

definition bare_market :: "string \<Rightarrow> string \<Rightarrow> gamma_market" where
  "bare_market i cid =
     \<lparr> gm_id = i, gm_updated_at = [], gm_condition_id = cid, clob_token_ids = [], gm_tags = [], gm_event_tags = [],
       gm_neg_risk = False, sports_market_type = None, question = None \<rparr>"

text \<open>Gamma lists market 11 without a condition id first and completes it before the second tick.\<close>

definition late_condition_gamma :: gamma_server where
  "late_condition_gamma n cursor order closed = Inr
     \<lparr> page_markets =
         [bare_market ''12'' (''0x'' @ sample_hex_encode (replicate 32 12)),
          bare_market ''11'' (if n = 0 then [] else ''0x'' @ sample_hex_encode (replicate 32 11))],
       next_cursor = [] \<rparr>"

abbreviation no_class :: classifier where
  "no_class \<equiv> \<lambda>_ _ _. (CatUnspecified, BetUnspecified)"

lemma parse_sample_hex_32: "length bs = 32 \<Longrightarrow> parse_hex_32 sample_crypto (''0x'' @ sample_hex_encode bs) = Inr bs"
  by (simp add: parse_hex_32_def strip_0x_def strip_prefix_def sample_crypto_def sample_hex_round_trip fixed_def)

lemma sample_ids: "u64_from_str 10 dec_digit ''12'' = Some 12" "u64_from_str 10 dec_digit ''11'' = Some 11"
  by (simp_all add: u64_from_str_def dec_digit_def)

lemma compact_bare_market:
  "u64_from_str 10 dec_digit i = Some k \<Longrightarrow> length bs = 32 \<Longrightarrow>
   compact_market sample_crypto no_class (bare_market i (''0x'' @ sample_hex_encode bs)) =
     Inr \<lparr> me_market_id = k, me_condition_id = bs, token_ids = [], tag_ids = [], me_category = CatUnspecified,
           me_bet_type = BetUnspecified, neg_risk = False \<rparr>"
  by (simp add: compact_market_def bare_market_def parse_sample_hex_32 Let_def List.map_filter_def
      del: append.simps and_then_Inr)

lemma compact_bare_market_incomplete:
  "u64_from_str 10 dec_digit i = Some k \<Longrightarrow>
   compact_market sample_crypto no_class (bare_market i []) = Inl (Identity ''condition_id'')"
  by (simp add: compact_market_def bare_market_def parse_hex_32_def strip_0x_def strip_prefix_def sample_crypto_def fixed_def)

lemma gm_id_bare: "gm_id (bare_market i c) = i"
  by (simp add: bare_market_def)


end
