(* ===== verification/Civil_Date.thy ===== *)
theory Civil_Date
  imports Uma_Prelude
begin

text \<open>
  The calendar arithmetic of \<open>enrichment.rs\<close> behind the lookback boundary of the
  closed-market stream.  The \<open>i64\<close> and \<open>u64\<close> intermediates stay far inside their
  ranges for every clock a \<open>SystemTime\<close> can return, so they are integers here.
\<close>

text \<open>Rust's integer division truncates towards zero.\<close>

definition tdiv :: "int \<Rightarrow> int \<Rightarrow> int" where
  "tdiv a b = (if 0 \<le> a then a div b else - ((- a) div b))"

definition civil_from_days :: "int \<Rightarrow> int \<times> int \<times> int" where
  "civil_from_days z0 =
     (let z = z0 + 719468;
          era = tdiv (if z \<ge> 0 then z else z - 146096) 146097;
          doe = z - era * 146097;
          yoe = (doe - doe div 1460 + doe div 36524 - doe div 146096) div 365;
          y = yoe + era * 400;
          doy = doe - (365 * yoe + yoe div 4 - yoe div 100);
          mp = (5 * doy + 2) div 153;
          d = doy - (153 * mp + 2) div 5 + 1;
          m = (if mp < 10 then mp + 3 else mp - 9)
      in (if m \<le> 2 then y + 1 else y, m, d))"

definition boundary_days :: "int \<Rightarrow> int \<Rightarrow> int" where
  "boundary_days now_secs days_ago = now_secs div 86400 - min days_ago (now_secs div 86400)"

subsection \<open>The calendar\<close>

definition leap_year :: "int \<Rightarrow> bool" where
  "leap_year y \<longleftrightarrow> 4 dvd y \<and> (\<not> 100 dvd y \<or> 400 dvd y)"

definition month_length :: "int \<Rightarrow> int \<Rightarrow> int" where
  "month_length y m =
     (if m = 2 then (if leap_year y then 29 else 28)
      else if m \<in> {4, 6, 9, 11} then 30 else 31)"

definition next_date :: "int \<times> int \<times> int \<Rightarrow> int \<times> int \<times> int" where
  "next_date = (\<lambda>(y, m, d).
     if d < month_length y m then (y, m, d + 1)
     else if m < 12 then (y, m + 1, 1) else (y + 1, 1, 1))"

text \<open>Years that start in March: the day number of their first day, and how long they are.\<close>

definition march_start :: "int \<Rightarrow> int" where
  "march_start y = 365 * y + y div 4 - y div 100 + y div 400"

definition march_last :: "int \<Rightarrow> int" where
  "march_last y = (if leap_year (y + 1) then 365 else 364)"

lemma div_succ:
  assumes "0 < (k :: int)"
  shows "(y + 1) div k = y div k + (if k dvd y + 1 then 1 else 0)"
proof (cases "k dvd y + 1")
  case True
  then obtain q where q: "y + 1 = k * q" by (elim dvdE)
  then have "y = k * (q - 1) + (k - 1)" by (simp add: algebra_simps)
  then have "y div k = q - 1" using assms by (intro int_div_pos_eq [of _ _ _ "k - 1"]) auto
  with q True assms show ?thesis by simp
next
  case False
  have "0 \<le> y mod k" "y mod k < k" using assms by simp_all
  moreover have "y mod k \<noteq> k - 1"
  proof
    assume "y mod k = k - 1"
    then have "k * (y div k) + (k - 1) = y" using mult_div_mod_eq [of k y] by simp
    then have "y + 1 = k * (y div k + 1)" by (simp add: distrib_left)
    with False show False by (metis dvd_triv_left)
  qed
  ultimately have "(y + 1) div k = y div k"
    using mult_div_mod_eq [of k y] by (intro int_div_pos_eq [of _ _ _ "y mod k + 1"]) auto
  with False show ?thesis by simp
qed

lemma march_start_step: "march_start (y + 1) = march_start y + march_last y + 1"
proof -
  have a: "400 dvd y + 1 \<Longrightarrow> 100 dvd y + 1" by (rule dvd_trans [of 100 400]) simp_all
  have b: "100 dvd y + 1 \<Longrightarrow> 4 dvd y + 1" by (rule dvd_trans [of 4 100]) simp_all
  have d: "(y + 1) div 4 = y div 4 + (if 4 dvd y + 1 then 1 else 0)"
    "(y + 1) div 100 = y div 100 + (if 100 dvd y + 1 then 1 else 0)"
    "(y + 1) div 400 = y div 400 + (if 400 dvd y + 1 then 1 else 0)"
    by (rule div_succ, simp)+
  show ?thesis
    unfolding march_start_def march_last_def leap_year_def d
    by (cases "4 dvd y + 1"; cases "100 dvd y + 1"; cases "400 dvd y + 1") (use a b in simp_all)
qed

lemma march_last_bounds: "364 \<le> march_last y" "march_last y \<le> 365"
  by (simp_all add: march_last_def)

lemma march_start_mono: "y \<le> y' \<Longrightarrow> march_start y \<le> march_start y'"
proof (induction y' rule: int_ge_induct)
  case (step i)
  then show ?case using march_start_step [of i] march_last_bounds(1) [of i] by linarith
qed simp

lemma march_start_strict: "y < y' \<Longrightarrow> march_start y + march_last y < march_start y'"
  using march_start_mono [of "y + 1" y'] march_start_step [of y] by simp

text \<open>Every day lies in exactly one such year.\<close>

lemma march_unique:
  assumes "march_start y + doy = march_start y' + doy'"
    and "0 \<le> doy" "doy \<le> march_last y" "0 \<le> doy'" "doy' \<le> march_last y'"
  shows "y = y' \<and> doy = doy'"
proof -
  have "\<not> y < y'" using march_start_strict [of y y'] assms by linarith
  moreover have "\<not> y' < y" using march_start_strict [of y' y] assms by linarith
  ultimately show ?thesis using assms by simp
qed

subsection \<open>The year of the era\<close>

definition year_of_era :: "int \<Rightarrow> int" where
  "year_of_era doe = (doe - doe div 1460 + doe div 36524 - doe div 146096) div 365"

lemma century_of_day:
  assumes "0 \<le> k" "k < 400" "doe = march_start k + t" "0 \<le> t" "t \<le> march_last k"
  shows "doe div 36524 - doe div 146096 = k div 100"
proof -
  define e where "e = k div 100"
  have e: "0 \<le> e" "e \<le> 3" "100 * e \<le> k" "k < 100 * e + 100"
    using assms(1,2) by (auto simp: e_def)
  have k400: "k div 400 = 0" using assms(1,2) by simp
  have lo: "36524 * e \<le> march_start k"
    using march_start_mono [OF e(3)] e(1,2) by (auto simp: march_start_def)
  have "march_start k + march_last k < march_start (k + 1)" using march_start_step [of k] by simp
  also have "\<dots> \<le> march_start (100 * e + 100)" using e(4) by (intro march_start_mono) simp
  finally have hi: "doe < march_start (100 * e + 100)" using assms(3,5) by simp
  show ?thesis
  proof (cases "e = 3")
    case True
    then have "doe < 146097" using hi by (simp add: march_start_def)
    moreover have "109572 \<le> doe" using lo True assms(3,4) by simp
    ultimately have "doe div 36524 = (if doe = 146096 then 4 else 3) \<and> doe div 146096 = (if doe = 146096 then 1 else 0)"
      by auto
    with True show ?thesis by (auto simp: e_def)
  next
    case False
    with e have "e \<in> {0, 1, 2}" by auto
    then have "march_start (100 * e + 100) = 36524 * e + 36524" by (auto simp: march_start_def)
    then have "doe div 36524 = e" using lo hi assms(3,4) by (intro int_div_pos_eq [of _ _ _ "doe - 36524 * e"]) auto
    moreover have "doe div 146096 = 0"
      using hi \<open>march_start (100 * e + 100) = 36524 * e + 36524\<close> e lo assms(3,4) False by (intro div_pos_pos_trivial) auto
    ultimately show ?thesis by (simp add: e_def)
  qed
qed

lemma year_of_era_day:
  assumes "0 \<le> k" "k < 400" "doe = march_start k + t" "0 \<le> t" "t \<le> march_last k"
  shows "year_of_era doe = k"
proof -
  define q r e where "q = k div 4" and "r = k mod 4" and "e = k div 100"
  have k: "k = 4 * q + r" by (simp add: q_def r_def)
  have b: "0 \<le> q" "q \<le> 99" "0 \<le> r" "r \<le> 3" "0 \<le> e" "e \<le> q"
    using assms(1,2) by (auto simp: q_def r_def e_def div_le_mono2 zdiv_mono2)
  have "k div 400 = 0" using assms(1,2) by simp
  then have doe: "doe = 1460 * q + (q - e + 365 * r + t)"
    using assms(3) by (simp add: march_start_def q_def [symmetric] e_def [symmetric]) (simp add: k)
  have t: "t \<le> 365" "t = 365 \<Longrightarrow> r = 3"
  proof -
    show "t \<le> 365" using assms(5) march_last_bounds(2) [of k] by linarith
    assume "t = 365"
    then have "leap_year (k + 1)" using assms(5) by (auto simp: march_last_def split: if_splits)
    then have "4 dvd k + 1" by (simp add: leap_year_def)
    then show "r = 3" unfolding r_def by presburger
  qed
  define a where "a = doe div 1460"
  have a: "a = q \<or> a = q + 1" "a = q + 1 \<Longrightarrow> 1 \<le> t" "t = 365 \<Longrightarrow> a = q + 1"
  proof -
    let ?x = "q - e + 365 * r + t"
    have x: "0 \<le> ?x" "?x < 2920" using b t(1) assms(4) by linarith+
    have ax: "a = q + ?x div 1460" unfolding a_def doe by simp
    have "?x div 1460 = (if ?x < 1460 then 0 else 1)"
      using x by (auto intro: int_div_pos_eq [of _ _ _ "?x - 1460"])
    with ax show "a = q \<or> a = q + 1" by auto
    show "a = q + 1 \<Longrightarrow> 1 \<le> t" using ax \<open>?x div 1460 = _\<close> b by (auto split: if_splits)
    show "t = 365 \<Longrightarrow> a = q + 1" using ax \<open>?x div 1460 = _\<close> b t(2) by (auto split: if_splits)
  qed
  have c: "doe div 36524 - doe div 146096 = e"
    using century_of_day [OF assms] by (simp add: e_def)
  have "doe - a + doe div 36524 - doe div 146096 = 365 * k + (q - a + t)"
    using c doe k by simp
  moreover have "0 \<le> q - a + t" "q - a + t < 365" using a t(1) assms(4) by linarith+
  ultimately show ?thesis
    unfolding year_of_era_def a_def [symmetric] by (intro int_div_pos_eq [of _ _ _ "q - a + t"]) auto
qed

lemma era_day_exists:
  assumes "0 \<le> doe" "doe < 146097"
  shows "\<exists>k t. 0 \<le> k \<and> k < 400 \<and> doe = march_start k + t \<and> 0 \<le> t \<and> t \<le> march_last k"
proof -
  have "\<exists>k. 0 \<le> k \<and> k < int n \<and> march_start k \<le> doe \<and> doe < march_start (k + 1)"
    if "doe < march_start (int n)" for n
    using that
  proof (induction n)
    case (Suc n)
    show ?case
    proof (cases "doe < march_start (int n)")
      case True
      then obtain k where k: "0 \<le> k" "k < int n" "march_start k \<le> doe" "doe < march_start (k + 1)"
        using Suc.IH by blast
      then show ?thesis by (intro exI [of _ k]) simp
    next
      case False
      with Suc.prems show ?thesis by (intro exI [of _ "int n"]) (simp add: add.commute [of 1])
    qed
  qed (use assms(1) in \<open>simp add: march_start_def\<close>)
  moreover have "march_start 400 = 146097" by (simp add: march_start_def)
  ultimately obtain k where k: "0 \<le> k" "k < 400" "march_start k \<le> doe" "doe < march_start (k + 1)"
    using assms(2) by (metis of_nat_numeral)
  then show ?thesis
    using march_start_step [of k] by (intro exI [of _ k] exI [of _ "doe - march_start k"]) simp
qed

subsection \<open>Months\<close>

definition month_day :: "int \<Rightarrow> int \<times> int" where
  "month_day doy =
     (let mp = (5 * doy + 2) div 153
      in (if mp < 10 then mp + 3 else mp - 9, doy - (153 * mp + 2) div 5 + 1))"

definition civil_of_march :: "int \<Rightarrow> int \<Rightarrow> int \<times> int \<times> int" where
  "civil_of_march y doy = (let (m, d) = month_day doy in (if m \<le> 2 then y + 1 else y, m, d))"

definition plain_month_length :: "int \<Rightarrow> int" where
  "plain_month_length m = (if m = 2 then 28 else if m \<in> {4, 6, 9, 11} then 30 else 31)"

definition month_day_steps :: "int \<Rightarrow> bool" where
  "month_day_steps doy =
     (let (m, d) = month_day doy
      in month_day (doy + 1) =
           (if d < plain_month_length m then (m, d + 1) else if m < 12 then (m + 1, 1) else (1, 1)) \<and>
         d \<le> plain_month_length m \<and> (m = 2 \<longrightarrow> d < 28))"

lemma month_day_steps_all: "list_all month_day_steps [0..363]"
  by code_simp

lemma month_day_step: "0 \<le> doy \<Longrightarrow> doy < 364 \<Longrightarrow> month_day_steps doy"
  using month_day_steps_all by (simp add: list_all_iff)

lemma civil_of_march_next:
  assumes "0 \<le> doy" "doy < march_last y"
  shows "next_date (civil_of_march y doy) = civil_of_march y (doy + 1)"
proof (cases "doy < 364")
  case True
  obtain m d where md: "month_day doy = (m, d)" by (cases "month_day doy")
  have "month_day_steps doy" by (rule month_day_step [OF assms(1) True])
  then have st: "month_day (doy + 1) =
      (if d < plain_month_length m then (m, d + 1) else if m < 12 then (m + 1, 1) else (1, 1))"
      "d \<le> plain_month_length m" "m = 2 \<longrightarrow> d < 28"
    by (simp_all add: month_day_steps_def md)
  have ml: "m \<noteq> 2 \<Longrightarrow> month_length x m = plain_month_length m" "m = 2 \<Longrightarrow> d < month_length x m" for x
    using st(3) by (auto simp: month_length_def plain_month_length_def)
  show ?thesis
    using st ml by (cases "m = 2") (auto simp: civil_of_march_def next_date_def md plain_month_length_def)
next
  case False
  with assms have "doy = 364" "leap_year (y + 1)"
    using march_last_bounds(2) [of y] by (auto simp: march_last_def split: if_splits)
  then show ?thesis
    by (simp add: civil_of_march_def next_date_def month_day_def month_length_def)
qed

lemma civil_of_march_year_end: "next_date (civil_of_march y (march_last y)) = civil_of_march (y + 1) 0"
  by (cases "leap_year (y + 1)")
    (simp_all add: march_last_def civil_of_march_def next_date_def month_day_def month_length_def)

subsection \<open>Days to dates\<close>

lemma march_start_era: "march_start (k + era * 400) = march_start k + era * 146097"
proof -
  have "(k + era * 400) div 4 = k div 4 + era * 100" "(k + era * 400) div 100 = k div 100 + era * 4"
    "(k + era * 400) div 400 = k div 400 + era"
    using div_mult_self1 [of 4 k "era * 100"] div_mult_self1 [of 100 k "era * 4"] div_mult_self1 [of 400 k era]
    by (simp_all add: ac_simps)
  then show ?thesis by (simp add: march_start_def)
qed

lemma march_last_era: "march_last (k + era * 400) = march_last k"
proof -
  have "d dvd k + era * 400 + 1 \<longleftrightarrow> d dvd k + 1" if "d dvd 400" for d :: int
  proof -
    have "d dvd era * 400" using that by simp
    then show ?thesis using dvd_add_left_iff [of d "era * 400" "k + 1"] by (simp add: ac_simps)
  qed
  then show ?thesis by (simp add: march_last_def leap_year_def)
qed

lemma civil_from_days_split:
  assumes "era = tdiv (if z + 719468 \<ge> 0 then z + 719468 else z + 719468 - 146096) 146097"
    and "doe = z + 719468 - era * 146097" "k = year_of_era doe" "t = doe - (365 * k + k div 4 - k div 100)"
  shows "civil_from_days z = civil_of_march (k + era * 400) t"
  by (simp only: assms civil_from_days_def civil_of_march_def month_day_def year_of_era_def Let_def prod.case)

lemma civil_from_days_march:
  assumes "0 \<le> z + 719468"
  obtains y doy where "z + 719468 = march_start y + doy" "0 \<le> doy" "doy \<le> march_last y"
    "civil_from_days z = civil_of_march y doy"
proof -
  define era doe where "era = (z + 719468) div 146097" and "doe = (z + 719468) mod 146097"
  have de: "z + 719468 - era * 146097 = doe" "tdiv (z + 719468) 146097 = era"
    using assms by (simp_all add: era_def doe_def minus_div_mult_eq_mod tdiv_def)
  obtain k t where k: "0 \<le> k" "k < 400" "doe = march_start k + t" "0 \<le> t" "t \<le> march_last k"
    using era_day_exists [of doe] by (auto simp: doe_def)
  have yoe: "year_of_era doe = k"
    using year_of_era_day [OF k] .
  have "k div 400 = 0" using k(1,2) by simp
  then have doy: "doe - (365 * k + k div 4 - k div 100) = t"
    using k(3) by (simp add: march_start_def)
  have "civil_from_days z = civil_of_march (k + era * 400) t"
    using assms by (intro civil_from_days_split [of era _ doe]) (simp_all add: de yoe doy)
  moreover have "z + 719468 = march_start (k + era * 400) + t"
    using de(1) k(3) march_start_era [of k era] by simp
  ultimately show thesis
    using that [of "k + era * 400" t] k march_last_era [of k era] by simp
qed

text \<open>
  C13: the conversion from a day number to a date is the Gregorian calendar: day 0
  is 1 January 1970, and from the first day of March of year 0 on every further day
  is the next date, with month lengths and leap years as in the calendar.
\<close>

theorem civil_from_days_calendar:
  assumes "- 719468 \<le> z"
  shows "civil_from_days 0 = (1970, 1, 1) \<and> civil_from_days (z + 1) = next_date (civil_from_days z)"
proof
  show "civil_from_days 0 = (1970, 1, 1)" by code_simp
  have z: "0 \<le> z + 719468" "0 \<le> z + 1 + 719468" using assms by simp_all
  obtain y doy where y: "z + 719468 = march_start y + doy" "0 \<le> doy" "doy \<le> march_last y"
    "civil_from_days z = civil_of_march y doy"
    using civil_from_days_march [OF z(1)] by blast
  obtain y' doy' where y': "z + 1 + 719468 = march_start y' + doy'" "0 \<le> doy'" "doy' \<le> march_last y'"
    "civil_from_days (z + 1) = civil_of_march y' doy'"
    using civil_from_days_march [OF z(2)] by blast
  show "civil_from_days (z + 1) = next_date (civil_from_days z)"
  proof (cases "doy < march_last y")
    case True
    have "y = y' \<and> doy + 1 = doy'"
      using y(1,2) y'(1-3) True by (intro march_unique) simp_all
    with civil_of_march_next [OF y(2) True] y(4) y'(4) show ?thesis by simp
  next
    case False
    with y(3) have d: "doy = march_last y" by simp
    have "y + 1 = y' \<and> 0 = doy'"
      using y(1) d y'(1-3) march_start_step [of y] march_last_bounds(1) [of "y + 1"] by (intro march_unique) simp_all
    with civil_of_march_year_end [of y] d y(4) y'(4) show ?thesis by simp
  qed
qed

lemma leap_day_2024: "civil_from_days 19782 = (2024, 2, 29)"
  by code_simp

theorem civil_from_days_calendar_witness:
  "civil_from_days (19782 + 1) = next_date (civil_from_days 19782) \<and> civil_from_days 19782 = (2024, 2, 29)"
  using civil_from_days_calendar [of 19782] leap_day_2024 by simp

end
