(* ===== verification/Prefix_Codec.thy ===== *)
theory Prefix_Codec
  imports Uma_Prelude
begin

text \<open>
  Readers over a byte stream, as the storage formats use them.  A reader takes the
  bytes left in the file and returns a value with the rest, or an error.  The locale
  \<open>prefix_codec\<close> is the contract between a writer and its reader: what was written is
  read back whatever follows it, and a file cut inside it is an end-of-file error,
  never another value.  Its lemmas carry the contract from an item to a counted list.
\<close>

datatype storage_error = StIo | StFormat string | StProtobuf

type_synonym 'a reader = "bytes \<Rightarrow> storage_error + 'a \<times> bytes"

definition read_exact :: "nat \<Rightarrow> bytes reader" where
  "read_exact n b = (if n \<le> length b then Inr (take n b, drop n b) else Inl StIo)"

definition read_be :: "nat \<Rightarrow> ('a::len word) reader" where
  "read_be n b = and_then (read_exact n b) (\<lambda>(v, r). Inr (of_nat (be_nat v), r))"

definition read_u8 :: "u8 reader" where "read_u8 = read_be 1"
definition read_u16 :: "u16 reader" where "read_u16 = read_be 2"
definition read_u32 :: "u32 reader" where "read_u32 = read_be 4"
definition read_i32 :: "i32 reader" where "read_i32 = read_be 4"
definition read_u64 :: "u64 reader" where "read_u64 = read_be 8"

text \<open>A loop \<open>for _ in 0..n\<close> that pushes one item per round.\<close>

fun read_many :: "'a reader \<Rightarrow> nat \<Rightarrow> 'a list reader" where
  "read_many dec 0 b = Inr ([], b)"
| "read_many dec (Suc n) b =
     and_then (dec b) (\<lambda>(x, b). and_then (read_many dec n b) (\<lambda>(xs, b). Inr (x # xs, b)))"

subsection \<open>Cut streams\<close>

lemma strict_prefix_append_cases:
  assumes "strict_prefix b (u @ v)"
  obtains "strict_prefix b u" | c where "b = u @ c" "strict_prefix c v"
proof (cases "strict_prefix b u")
  case False
  from assms have p: "prefix b (u @ v)" "b \<noteq> u @ v" by (simp_all add: strict_prefix_def)
  from p(1) False obtain c where c: "b = u @ c" "prefix c v"
    by (auto simp: prefix_append strict_prefix_def)
  with p(2) have "strict_prefix c v" by (auto simp: strict_prefix_def)
  with c(1) that(2) show thesis by blast
qed (use that(1) in blast)

text \<open>Reading one part and going on, on a stream cut somewhere inside both.\<close>

lemma and_then_cut:
  assumes "strict_prefix b (u @ v)"
    and "\<And>b. strict_prefix b u \<Longrightarrow> dec b = Inl e"
    and "\<And>r. dec (u @ r) = Inr (x, r)"
    and "\<And>c. strict_prefix c v \<Longrightarrow> k (x, c) = Inl e"
  shows "and_then (dec b) k = Inl e"
  using assms(1) by (rule strict_prefix_append_cases) (simp_all add: assms(2-4))

locale prefix_codec =
  fixes enc :: "'a \<Rightarrow> bytes" and dec :: "'a reader" and ok :: "'a \<Rightarrow> bool"
  assumes dec_enc: "ok x \<Longrightarrow> dec (enc x @ r) = Inr (x, r)"
    and dec_cut: "ok x \<Longrightarrow> strict_prefix b (enc x) \<Longrightarrow> dec b = Inl StIo"
begin

lemma read_many_enc:
  "list_all ok xs \<Longrightarrow> read_many dec (length xs) (concat (map enc xs) @ r) = Inr (xs, r)"
  by (induction xs) (simp_all add: dec_enc)

lemma read_many_cut:
  "list_all ok xs \<Longrightarrow> strict_prefix b (concat (map enc xs)) \<Longrightarrow> read_many dec (length xs) b = Inl StIo"
proof (induction xs arbitrary: b)
  case (Cons x xs)
  then have x: "ok x" "list_all ok xs" by simp_all
  have cut: "strict_prefix b (enc x @ concat (map enc xs))" using Cons.prems(2) by simp
  have "and_then (dec b) (\<lambda>(x, b). and_then (read_many dec (length xs) b) (\<lambda>(xs, b). Inr (x # xs, b))) = Inl StIo"
    by (rule and_then_cut [OF cut dec_cut [OF x(1)] dec_enc [OF x(1)]]) (simp_all add: Cons.IH [OF x(2)])
  then show ?case by (simp del: and_then_Inr)
qed (simp add: strict_prefix_def)

lemma enc_inj: "ok x \<Longrightarrow> ok y \<Longrightarrow> enc x @ r = enc y @ s \<Longrightarrow> x = y \<and> r = s"
  by (metis dec_enc Inr_inject prod.inject)

end

subsection \<open>The readers of the storage formats\<close>

lemma read_exact_append: "length u = n \<Longrightarrow> read_exact n (u @ r) = Inr (u, r)"
  by (simp add: read_exact_def)

lemma read_exact_cut: "length u = n \<Longrightarrow> strict_prefix b u \<Longrightarrow> read_exact n b = Inl StIo"
  by (auto simp: read_exact_def dest: prefix_length_less)

lemma read_be_append:
  "LENGTH('a) \<le> 8 * n \<Longrightarrow> read_be n (to_be_bytes n (w :: 'a::len word) @ r) = Inr (w, r)"
  by (simp add: read_be_def read_exact_append del: and_then_Inr)

lemma read_be_cut: "strict_prefix b (to_be_bytes n w) \<Longrightarrow> read_be n b = Inl StIo"
  by (simp add: read_be_def read_exact_cut [OF length_to_be_bytes])

interpretation fixed32: prefix_codec "\<lambda>b. b" "read_exact 32" "\<lambda>b. length b = 32"
  by (rule prefix_codec.intro) (erule read_exact_append, erule (1) read_exact_cut)

interpretation u8_be: prefix_codec "to_be_bytes 1" read_u8 "\<lambda>_. True"
  unfolding read_u8_def by (rule prefix_codec.intro) (simp add: read_be_append, erule read_be_cut)

interpretation u16_be: prefix_codec "to_be_bytes 2" read_u16 "\<lambda>_. True"
  unfolding read_u16_def by (rule prefix_codec.intro) (simp add: read_be_append, erule read_be_cut)

interpretation u32_be: prefix_codec "to_be_bytes 4" read_u32 "\<lambda>_. True"
  unfolding read_u32_def by (rule prefix_codec.intro) (simp add: read_be_append, erule read_be_cut)

interpretation i32_be: prefix_codec "to_be_bytes 4" read_i32 "\<lambda>_. True"
  unfolding read_i32_def by (rule prefix_codec.intro) (simp add: read_be_append, erule read_be_cut)

interpretation u64_be: prefix_codec "to_be_bytes 8" read_u64 "\<lambda>_. True"
  unfolding read_u64_def by (rule prefix_codec.intro) (simp add: read_be_append, erule read_be_cut)

end
