(* ===== verification/Storage.thy ===== *)
theory Storage
  imports Model Prefix_Codec Uma_Events
begin

text \<open>
  The catalog file and the cursor files of \<open>storage.rs\<close>.  The data directory is a
  record with one optional content per file; a file is replaced as a whole, since
  every writer goes through a temporary file and a rename.  The journal file
  \<open>events.wal\<close> is in theory \<open>Journal\<close>.
\<close>

record disk =
  catalog_bin :: "bytes option"
  enrichment_cursor_file :: "string option"
  closed_market_cursor_file :: "string option"
  uma_cursor_file :: "string option"

definition CATALOG_MAGIC :: bytes where "CATALOG_MAGIC = [85, 77, 65, 67, 65, 84, 51, 0]"
definition CATALOG_MAGIC_V1 :: bytes where "CATALOG_MAGIC_V1 = [85, 77, 65, 67, 65, 84, 49, 0]"
definition CATALOG_MAGIC_V2 :: bytes where "CATALOG_MAGIC_V2 = [85, 77, 65, 67, 65, 84, 50, 0]"

subsection \<open>The catalog file\<close>

definition read_market :: "pb_enums \<Rightarrow> market_enrichment reader" where
  "read_market P b =
     and_then (read_u64 b) (\<lambda>(market_id, b).
     and_then (read_exact 32 b) (\<lambda>(condition_id, b).
     and_then (read_u16 b) (\<lambda>(token_count, b).
     and_then (read_many (read_exact 32) (unat token_count) b) (\<lambda>(tokens, b).
     and_then (read_u16 b) (\<lambda>(tag_count, b).
     and_then (read_many read_u32 (unat tag_count) b) (\<lambda>(tags, b).
     and_then (read_u8 b) (\<lambda>(cat, b).
     and_then (read_i32 b) (\<lambda>(bet, b).
     and_then (read_u8 b) (\<lambda>(neg, b).
       Inr (\<lparr> me_market_id = market_id, me_condition_id = condition_id, token_ids = tokens,
              tag_ids = tags, me_category = category_from_proto P (ucast cat),
              me_bet_type = bet_type_from_proto P bet, neg_risk = (neg \<noteq> 0) \<rparr>, b))))))))))"

definition discard_stale_catalog :: "disk \<Rightarrow> disk" where
  "discard_stale_catalog d = d\<lparr> enrichment_cursor_file := None, closed_market_cursor_file := None \<rparr>"

definition load_catalog :: "pb_enums \<Rightarrow> disk \<Rightarrow> (storage_error + market_enrichment list) \<times> disk" where
  "load_catalog P d =
     (case catalog_bin d of
        None \<Rightarrow> (Inr [], d)
      | Some file \<Rightarrow>
          (case read_exact 8 file of
             Inl e \<Rightarrow> (Inl e, d)
           | Inr (magic, b) \<Rightarrow>
               if magic = CATALOG_MAGIC_V1 \<or> magic = CATALOG_MAGIC_V2 then (Inr [], discard_stale_catalog d)
               else if magic \<noteq> CATALOG_MAGIC then (Inl (StFormat ''catalog magic''), d)
               else (and_then (read_u32 b) (\<lambda>(count, b).
                     and_then (read_many (read_market P) (unat count) b) (\<lambda>(markets, _). Inr markets)), d)))"

definition write_market :: "pb_enums \<Rightarrow> market_enrichment \<Rightarrow> bytes" where
  "write_market P m =
     to_be_bytes 8 (me_market_id m) @ me_condition_id m @
     to_be_bytes 2 (of_nat (length (token_ids m)) :: u16) @ concat (token_ids m) @
     to_be_bytes 2 (of_nat (length (tag_ids m)) :: u16) @ concat (map (to_be_bytes 4) (tag_ids m)) @
     to_be_bytes 1 (ucast (category_to_proto P (me_category m)) :: u8) @
     to_be_bytes 4 (bet_type_to_proto P (me_bet_type m)) @
     to_be_bytes 1 (if neg_risk m then 1 else 0 :: u8)"

fun write_markets :: "pb_enums \<Rightarrow> market_enrichment list \<Rightarrow> storage_error + bytes" where
  "write_markets P [] = Inr []"
| "write_markets P (m # ms) =
     (if length (token_ids m) \<ge> 65536 then Inl (StFormat ''too many token IDs'')
      else if length (tag_ids m) \<ge> 65536 then Inl (StFormat ''too many tag IDs'')
      else and_then (write_markets P ms) (\<lambda>rest. Inr (write_market P m @ rest)))"

definition save_catalog :: "pb_enums \<Rightarrow> market_enrichment list \<Rightarrow> disk \<Rightarrow> (storage_error + unit) \<times> disk" where
  "save_catalog P markets d =
     (let ordered = sort_key me_market_id markets
      in case write_markets P ordered of
           Inl e \<Rightarrow> (Inl e, d)
         | Inr body \<Rightarrow>
             (Inr (), d\<lparr> catalog_bin :=
                Some (CATALOG_MAGIC @ to_be_bytes 4 (of_nat (length ordered) :: u32) @ body) \<rparr>))"

subsection \<open>Cursor files\<close>

text \<open>\<open>str::trim\<close> on the text of a cursor file, and the decimal \<open>Display\<close> of an integer.\<close>

definition is_space :: "char \<Rightarrow> bool" where
  "is_space c \<longleftrightarrow> (let n = of_char c :: nat in 9 \<le> n \<and> n \<le> 13 \<or> n = 32)"

definition trim :: "string \<Rightarrow> string" where
  "trim s = rev (dropWhile is_space (rev (dropWhile is_space s)))"

fun nat_decimal :: "nat \<Rightarrow> string" where
  "nat_decimal n = (if n < 10 then [char_of (48 + n)] else nat_decimal (n div 10) @ [char_of (48 + n mod 10)])"

declare nat_decimal.simps [simp del]

definition text_cursor :: "string option \<Rightarrow> string option" where
  "text_cursor file =
     (case file of
        None \<Rightarrow> None
      | Some value \<Rightarrow> (let value = trim value in if value = [] then None else Some value))"

definition load_enrichment_cursor :: "disk \<Rightarrow> string option" where
  "load_enrichment_cursor d = text_cursor (enrichment_cursor_file d)"

definition save_enrichment_cursor :: "string \<Rightarrow> disk \<Rightarrow> disk" where
  "save_enrichment_cursor cursor d = d\<lparr> enrichment_cursor_file := Some cursor \<rparr>"

definition load_closed_market_cursor :: "disk \<Rightarrow> string option" where
  "load_closed_market_cursor d = text_cursor (closed_market_cursor_file d)"

definition save_closed_market_cursor :: "string \<Rightarrow> disk \<Rightarrow> disk" where
  "save_closed_market_cursor cursor d = d\<lparr> closed_market_cursor_file := Some cursor \<rparr>"

definition load_uma_cursor :: "disk \<Rightarrow> storage_error + u64 option" where
  "load_uma_cursor d =
     (case uma_cursor_file d of
        None \<Rightarrow> Inr None
      | Some value \<Rightarrow>
          (case u64_from_str 10 dec_digit (trim value) of
             Some block \<Rightarrow> Inr (Some block)
           | None \<Rightarrow> Inl (StFormat ''UMA cursor'')))"

definition save_uma_cursor :: "u64 \<Rightarrow> disk \<Rightarrow> disk" where
  "save_uma_cursor block d = d\<lparr> uma_cursor_file := Some (nat_decimal (unat block)) \<rparr>"

subsection \<open>One market is a prefix codec\<close>

definition market_ok :: "market_enrichment \<Rightarrow> bool" where
  "market_ok m \<longleftrightarrow>
     length (me_condition_id m) = 32 \<and> list_all (\<lambda>t. length t = 32) (token_ids m) \<and>
     length (token_ids m) < 65536 \<and> length (tag_ids m) < 65536"

text \<open>
  The wire numbers of the categories fit in the byte the file has for them.
\<close>

definition category_byte :: "pb_enums \<Rightarrow> bool" where
  "category_byte P \<longleftrightarrow> (\<forall>c. unat (category_as P c) < 256)"

lemma unat_of_nat_u16: "n < 65536 \<Longrightarrow> unat (of_nat n :: u16) = n"
  by (simp add: unat_of_nat take_bit_eq_mod)

lemma category_byte_round_trip:
  assumes "pb_enums_ok P" "category_byte P"
  shows "category_from_proto P (ucast (ucast (category_to_proto P c) :: u8)) = c"
proof -
  have "unat (category_to_proto P c) < 256"
    using assms(2) by (simp add: category_byte_def category_to_proto_def)
  then have "unat (ucast (ucast (category_to_proto P c) :: u8) :: i32) = unat (category_to_proto P c)"
    by (simp add: unsigned_ucast_eq take_bit_eq_mod unat_mod)
  then have "ucast (ucast (category_to_proto P c) :: u8) = category_to_proto P c"
    by (simp add: word_unat_eq_iff)
  then show ?thesis using assms(1) by (simp add: codec_simps)
qed

lemmas leaf_enc = u64_be.dec_enc fixed32.dec_enc u16_be.dec_enc u8_be.dec_enc i32_be.dec_enc

lemma read_market_enc:
  assumes "pb_enums_ok P" "category_byte P" "market_ok m"
  shows "read_market P (write_market P m @ r) = Inr (m, r)"
proof -
  have w: "length (me_condition_id m) = 32" "list_all (\<lambda>t. length t = 32) (token_ids m)"
    "unat (of_nat (length (token_ids m)) :: u16) = length (token_ids m)"
    "unat (of_nat (length (tag_ids m)) :: u16) = length (tag_ids m)"
    using assms(3) by (simp_all add: market_ok_def unat_of_nat_u16)
  note toks = fixed32.read_many_enc [OF w(2), unfolded map_ident]
  note tags = u32_be.read_many_enc [of "tag_ids m", OF list_all_iff [THEN iffD2], rule_format]
  show ?thesis
    using assms(1,2)
    by (simp add: read_market_def write_market_def leaf_enc w toks tags category_byte_round_trip codec_simps
        del: and_then_Inr One_nat_def)
qed

lemmas leaf_cut = u64_be.dec_cut [OF TrueI] u16_be.dec_cut [OF TrueI] u8_be.dec_cut [OF TrueI] i32_be.dec_cut [OF TrueI]

lemma read_market_cut:
  assumes "market_ok m" "strict_prefix b (write_market P m)"
  shows "read_market P b = Inl StIo"
proof -
  have w: "length (me_condition_id m) = 32" "list_all (\<lambda>t. length t = 32) (token_ids m)"
    "list_all (\<lambda>_. True) (tag_ids m)"
    "unat (of_nat (length (token_ids m)) :: u16) = length (token_ids m)"
    "unat (of_nat (length (tag_ids m)) :: u16) = length (tag_ids m)"
    using assms(1) by (simp_all add: market_ok_def unat_of_nat_u16 list_all_iff)
  note toks_enc = fixed32.read_many_enc [OF w(2), unfolded map_ident]
    and toks_cut = fixed32.read_many_cut [OF w(2), unfolded map_ident]
    and tags_enc = u32_be.read_many_enc [OF w(3)] and tags_cut = u32_be.read_many_cut [OF w(3)]
  show ?thesis
    using assms(2) unfolding read_market_def write_market_def
    by (elim strict_prefix_append_cases)
      (simp_all add: leaf_enc leaf_cut w toks_enc toks_cut tags_enc tags_cut fixed32.dec_cut [OF w(1)]
        del: and_then_Inr One_nat_def)
qed

interpretation market_codec: prefix_codec "write_market P" "read_market P"
    "\<lambda>m. pb_enums_ok P \<and> category_byte P \<and> market_ok m" for P
  by (rule prefix_codec.intro) (blast intro: read_market_enc read_market_cut)+

subsection \<open>Saving and loading\<close>

lemma write_markets_ok:
  "list_all market_ok ms \<Longrightarrow> write_markets P ms = Inr (concat (map (write_market P) ms))"
  by (induction ms) (simp_all add: market_ok_def not_le del: and_then_Inr)

definition catalog_file :: "pb_enums \<Rightarrow> market_enrichment list \<Rightarrow> bytes" where
  "catalog_file P ms =
     CATALOG_MAGIC @ to_be_bytes 4 (of_nat (length ms) :: u32) @ concat (map (write_market P) ms)"

lemma save_catalog_file:
  assumes "list_all market_ok ms"
  shows "save_catalog P ms d = (Inr (), d\<lparr> catalog_bin := Some (catalog_file P (sort_key me_market_id ms)) \<rparr>)"
proof -
  have "list_all market_ok (sort_key me_market_id ms)" using assms by (simp add: list_all_iff)
  then show ?thesis by (simp add: save_catalog_def write_markets_ok catalog_file_def)
qed

lemma magic_simps [simp]:
  "length CATALOG_MAGIC = 8" "CATALOG_MAGIC \<noteq> CATALOG_MAGIC_V1" "CATALOG_MAGIC \<noteq> CATALOG_MAGIC_V2"
  by (simp_all add: CATALOG_MAGIC_def CATALOG_MAGIC_V1_def CATALOG_MAGIC_V2_def)

lemma load_catalog_file:
  assumes "pb_enums_ok P" "category_byte P" "list_all market_ok ms" "length ms < 2 ^ 32"
    and "catalog_bin d = Some (catalog_file P ms)"
  shows "load_catalog P d = (Inr ms, d)"
proof -
  have ok: "list_all (\<lambda>m. pb_enums_ok P \<and> category_byte P \<and> market_ok m) ms"
    using assms(1-3) by (simp add: list_all_iff)
  have n: "unat (of_nat (length ms) :: u32) = length ms"
    using assms(4) by (simp add: unat_of_nat take_bit_eq_mod)
  show ?thesis
    using assms(5) market_codec.read_many_enc [OF ok, of "[]"]
    by (simp add: load_catalog_def catalog_file_def read_exact_append u32_be.dec_enc n del: and_then_Inr)
qed

lemma load_catalog_cut:
  assumes "pb_enums_ok P" "category_byte P" "list_all market_ok ms" "length ms < 2 ^ 32"
    and "catalog_bin d = Some b" "strict_prefix b (catalog_file P ms)"
  shows "load_catalog P d = (Inl StIo, d)"
proof -
  have ok: "list_all (\<lambda>m. pb_enums_ok P \<and> category_byte P \<and> market_ok m) ms"
    using assms(1-3) by (simp add: list_all_iff)
  have n: "unat (of_nat (length ms) :: u32) = length ms"
    using assms(4) by (simp add: unat_of_nat take_bit_eq_mod)
  show ?thesis
    using assms(6) unfolding catalog_file_def
    by (elim strict_prefix_append_cases)
      (simp_all add: load_catalog_def assms(5) read_exact_append u32_be.dec_enc n
        read_exact_cut [of CATALOG_MAGIC] u32_be.dec_cut [OF TrueI] market_codec.read_many_cut [OF ok] del: and_then_Inr)
qed

text \<open>
  a catalog whose rows are well formed is saved, and loading it gives the same
  rows ordered by market id, leaving the directory as it is; a file cut at any
  byte is reported as an I/O error and never read as another catalog.
\<close>

theorem catalog_file_round_trip:
  assumes "pb_enums_ok P" "category_byte P" "list_all market_ok ms" "length ms < 2 ^ 32"
  shows "\<exists>file. save_catalog P ms d = (Inr (), d\<lparr> catalog_bin := Some file \<rparr>) \<and>
    load_catalog P (d\<lparr> catalog_bin := Some file \<rparr>) =
      (Inr (sort_key me_market_id ms), d\<lparr> catalog_bin := Some file \<rparr>) \<and>
    (\<forall>b. strict_prefix b file \<longrightarrow>
      load_catalog P (d\<lparr> catalog_bin := Some b \<rparr>) = (Inl StIo, d\<lparr> catalog_bin := Some b \<rparr>))"
proof -
  let ?s = "sort_key me_market_id ms"
  have s: "list_all market_ok ?s" "length ?s < 2 ^ 32" using assms(3,4) by (simp_all add: list_all_iff)
  show ?thesis
    using save_catalog_file [OF assms(3), of P d] load_catalog_file [OF assms(1,2) s]
      load_catalog_cut [OF assms(1,2) s]
    by (intro exI [of _ "catalog_file P ?s"]) simp
qed

lemma sample_category_byte: "category_byte sample_enums"
proof -
  have "position all_categories c mod 4294967296 < 256" for c
  proof -
    have "position all_categories c < 9"
      using position_less [OF all_listed(3) [of c]] by (simp add: all_categories_def)
    then show ?thesis by simp
  qed
  then show ?thesis
    by (simp add: category_byte_def sample_enums_def number_as_def unat_of_nat take_bit_eq_mod)
qed

definition empty_disk :: disk where
  "empty_disk = \<lparr> catalog_bin = None, enrichment_cursor_file = Some ''a'', closed_market_cursor_file = None,
     uma_cursor_file = None \<rparr>"

theorem catalog_file_round_trip_witness:
  "pb_enums_ok sample_enums \<and> category_byte sample_enums \<and> list_all market_ok [sample_enrichment] \<and>
   (\<exists>file. save_catalog sample_enums [sample_enrichment] empty_disk = (Inr (), empty_disk\<lparr> catalog_bin := Some file \<rparr>) \<and>
    load_catalog sample_enums (empty_disk\<lparr> catalog_bin := Some file \<rparr>) =
      (Inr [sample_enrichment], empty_disk\<lparr> catalog_bin := Some file \<rparr>))"
proof -
  have ok: "list_all market_ok [sample_enrichment]" by (simp add: market_ok_def sample_enrichment_def)
  with catalog_file_round_trip [OF sample_enums_ok sample_category_byte ok, of empty_disk] sample_enums_ok sample_category_byte
  show ?thesis by auto
qed

lemma load_catalog_old:
  assumes "\<exists>body. catalog_bin d = Some (CATALOG_MAGIC_V1 @ body) \<or> catalog_bin d = Some (CATALOG_MAGIC_V2 @ body)"
  shows "load_catalog P d = (Inr [], discard_stale_catalog d)"
proof -
  have "length CATALOG_MAGIC_V1 = 8" "length CATALOG_MAGIC_V2 = 8"
    by (simp_all add: CATALOG_MAGIC_V1_def CATALOG_MAGIC_V2_def)
  with assms show ?thesis by (auto simp: load_catalog_def read_exact_append)
qed

lemma load_catalog_current:
  assumes "\<nexists>body. catalog_bin d = Some (CATALOG_MAGIC_V1 @ body) \<or> catalog_bin d = Some (CATALOG_MAGIC_V2 @ body)"
  shows "snd (load_catalog P d) = d"
proof (cases "catalog_bin d")
  case (Some f)
  show ?thesis
  proof (cases "read_exact 8 f")
    case (Inr v)
    then have v: "v = (take 8 f, drop 8 f)" by (simp add: read_exact_def split: if_splits)
    have "take 8 f \<noteq> CATALOG_MAGIC_V1" "take 8 f \<noteq> CATALOG_MAGIC_V2"
      using assms Some append_take_drop_id [of 8 f] by metis+
    with Some Inr v show ?thesis by (simp add: load_catalog_def)
  qed (simp add: load_catalog_def Some)
qed (simp add: load_catalog_def)

text \<open>
  a catalog in one of the two older formats is dropped together with both
  synchronisation cursors, so that the next synchronisation starts from scratch;
  in every other case loading the catalog changes nothing on disk.
\<close>

theorem load_catalog_stale:
  assumes "load_catalog P d = (r, d')"
  shows "if \<exists>body. catalog_bin d = Some (CATALOG_MAGIC_V1 @ body) \<or> catalog_bin d = Some (CATALOG_MAGIC_V2 @ body)
    then r = Inr [] \<and> load_enrichment_cursor d' = None \<and> load_closed_market_cursor d' = None \<and>
      load_uma_cursor d' = load_uma_cursor d
    else d' = d"
proof (cases "\<exists>body. catalog_bin d = Some (CATALOG_MAGIC_V1 @ body) \<or> catalog_bin d = Some (CATALOG_MAGIC_V2 @ body)")
  case True
  then have "load_catalog P d = (Inr [], discard_stale_catalog d)" by (rule load_catalog_old)
  with assms have "r = Inr []" "d' = discard_stale_catalog d" by simp_all
  with True show ?thesis
    by (simp add: discard_stale_catalog_def text_cursor_def
        load_enrichment_cursor_def load_closed_market_cursor_def load_uma_cursor_def)
next
  case False
  with load_catalog_current [of d P] assms show ?thesis by simp
qed

theorem load_catalog_stale_witness:
  "load_catalog sample_enums (empty_disk\<lparr> catalog_bin := Some (CATALOG_MAGIC_V1 @ [0, 0]) \<rparr>) =
     (Inr [], empty_disk\<lparr> catalog_bin := Some (CATALOG_MAGIC_V1 @ [0, 0]), enrichment_cursor_file := None \<rparr>) \<and>
   load_enrichment_cursor
     (empty_disk\<lparr> catalog_bin := Some (CATALOG_MAGIC_V1 @ [0, 0]), enrichment_cursor_file := None \<rparr>) = None"
proof -
  have l: "load_catalog sample_enums (empty_disk\<lparr> catalog_bin := Some (CATALOG_MAGIC_V1 @ [0, 0]) \<rparr>) =
     (Inr [], empty_disk\<lparr> catalog_bin := Some (CATALOG_MAGIC_V1 @ [0, 0]), enrichment_cursor_file := None \<rparr>)"
    by (simp add: load_catalog_def read_exact_def CATALOG_MAGIC_V1_def discard_stale_catalog_def empty_disk_def)
  from load_catalog_stale [OF l] l show ?thesis by (auto split: if_splits)
qed

subsection \<open>The block cursor\<close>

lemma dec_digit_char: "d < 10 \<Longrightarrow> dec_digit (char_of (48 + d)) = Some d"
  by (simp add: dec_digit_def)

lemma nat_decimal_digits:
  "nat_decimal n \<noteq> [] \<and> list_all (\<lambda>c. dec_digit c \<noteq> None) (nat_decimal n) \<and>
   radix_value 10 dec_digit 0 (nat_decimal n) = n"
proof (induction n rule: nat_decimal.induct)
  case (1 n)
  show ?case
  proof (cases "n < 10")
    case True
    then show ?thesis by (simp add: nat_decimal.simps [of n] radix_value_def dec_digit_char)
  next
    case False
    then show ?thesis
      using 1 by (simp add: nat_decimal.simps [of n] radix_value_def dec_digit_char)
  qed
qed

lemma dec_digit_not_space: "dec_digit c \<noteq> None \<Longrightarrow> \<not> is_space c \<and> c \<noteq> CHR ''+''"
  by (auto simp: dec_digit_def is_space_def Let_def split: if_splits)

lemma trim_no_spaces:
  assumes "\<forall>c\<in>set s. \<not> is_space c"
  shows "trim s = s"
proof -
  have d: "dropWhile is_space t = t" if "\<forall>c\<in>set t. \<not> is_space c" for t
    using that by (cases t) simp_all
  from d [of s] d [of "rev s"] assms show ?thesis by (simp add: trim_def)
qed

lemma trim_digits: "list_all (\<lambda>c. dec_digit c \<noteq> None) s \<Longrightarrow> trim s = s"
  using dec_digit_not_space by (intro trim_no_spaces) (auto simp: list_all_iff)

lemma u64_from_nat_decimal: "u64_from_str 10 dec_digit (nat_decimal (unat (b :: u64))) = Some b"
proof -
  let ?s = "nat_decimal (unat b)"
  have s: "?s \<noteq> []" "list_all (\<lambda>c. dec_digit c \<noteq> None) ?s" "radix_value 10 dec_digit 0 ?s = unat b"
    using nat_decimal_digits [of "unat b"] by blast+
  then have "hd ?s \<noteq> CHR ''+''"
    using dec_digit_not_space [of "hd ?s"] by (cases ?s) auto
  moreover have "radix_digits 10 dec_digit 0 ?s = Some (unat b)"
    using radix_digits_value [of 10 dec_digit ?s 0] s(2,3) unat_u64_lt [of b] by simp
  ultimately show ?thesis using s(1) by (simp add: u64_from_str_def)
qed

text \<open>
  the block cursor written to disk is read back exactly.
\<close>

theorem uma_cursor_round_trip:
  "load_uma_cursor (save_uma_cursor block d) = Inr (Some block)"
  using nat_decimal_digits [of "unat block"]
  by (simp add: load_uma_cursor_def save_uma_cursor_def trim_digits u64_from_nat_decimal)

end
