(* ===== verification/Journal.thy ===== *)
theory Journal
  imports Storage
begin

text \<open>
  The event journal of \<open>storage.rs\<close>: the write-ahead log \<open>events.wal\<close>, its recovery at
  start-up and the storage writer task.  The journal keeps the bytes on disk apart
  from those still in the \<open>BufWriter\<close>, so that a crash is the loss of the buffer.
  The protobuf encoder and the checksum are the fields of \<open>wal_env\<close>.  Writes to the
  file do not fail here: an I/O error of a write is logged by the code and not modelled.
\<close>

record wal_env =
  pb_encode :: "pb_uma_event \<Rightarrow> bytes"
  pb_decode :: "bytes \<Rightarrow> pb_uma_event option"
  crc32 :: "bytes \<Rightarrow> u32"

definition WAL_MAGIC :: bytes where "WAL_MAGIC = [85, 77, 65, 87, 65, 76, 49, 0]"
definition MAX_WAL_RECORD :: nat where "MAX_WAL_RECORD = 1048576"

subsection \<open>Recovery\<close>

definition read_u32_eof :: "bytes \<Rightarrow> (u32 \<times> bytes) option" where
  "read_u32_eof b = (if 4 \<le> length b then Some (of_nat (be_nat (take 4 b)), drop 4 b) else None)"

definition push_event :: "nat \<Rightarrow> event_record option \<Rightarrow> event_record list \<Rightarrow> event_record list" where
  "push_event capacity ev events =
     (case ev of None \<Rightarrow> events | Some e \<Rightarrow> take_last (max capacity 1) (events @ [e]))"

function recover :: "pb_enums \<Rightarrow> wal_env \<Rightarrow> nat \<Rightarrow> event_record list \<Rightarrow> bytes \<Rightarrow> storage_error + event_record list" where
  "recover P W capacity events b =
     (case read_u32_eof b of
        None \<Rightarrow> Inr events
      | Some (len, b1) \<Rightarrow>
          if unat len > MAX_WAL_RECORD then Inr events
          else (case read_u32_eof b1 of
             None \<Rightarrow> Inr events
           | Some (expected_crc, b2) \<Rightarrow>
               if length b2 < unat len then Inr events
               else if crc32 W (take (unat len) b2) \<noteq> expected_crc then Inr events
               else (case pb_decode W (take (unat len) b2) of
                  None \<Rightarrow> Inl StProtobuf
                | Some proto \<Rightarrow>
                    recover P W capacity (push_event capacity (from_proto P proto) events) (drop (unat len) b2))))"
  by pat_completeness auto

termination
  by (relation "measure (\<lambda>(_, _, _, _, b). length b)") (auto simp: read_u32_eof_def split: if_splits)

declare recover.simps [simp del]

definition load_events ::
  "pb_enums \<Rightarrow> wal_env \<Rightarrow> nat \<Rightarrow> bytes option \<Rightarrow> storage_error + event_record list" where
  "load_events P W capacity file =
     (case file of
        None \<Rightarrow> Inr []
      | Some f \<Rightarrow> and_then (read_exact 8 f) (\<lambda>(magic, b).
          if magic \<noteq> WAL_MAGIC then Inl (StFormat ''event WAL magic'') else recover P W capacity [] b))"

subsection \<open>The journal\<close>

record journal =
  jfile :: bytes
  jbuf :: bytes
  jrecords :: nat

text \<open>\<open>BufWriter::write_all\<close> of the standard library with its 8 KiB buffer.\<close>

definition buf_write :: "bytes \<Rightarrow> journal \<Rightarrow> journal" where
  "buf_write data j =
     (let spare = 8192 - length (jbuf j)
      in if length data < spare then j\<lparr> jbuf := jbuf j @ data \<rparr>
         else let j = (if length data > spare then j\<lparr> jfile := jfile j @ jbuf j, jbuf := [] \<rparr> else j)
              in if length data \<ge> 8192 then j\<lparr> jfile := jfile j @ data \<rparr> else j\<lparr> jbuf := jbuf j @ data \<rparr>)"

definition journal_flush :: "journal \<Rightarrow> journal" where
  "journal_flush j = j\<lparr> jfile := jfile j @ jbuf j, jbuf := [] \<rparr>"

definition journal_open :: "bytes option \<Rightarrow> journal" where
  "journal_open file =
     (case file of
        Some f \<Rightarrow> if f = [] then journal_flush (buf_write WAL_MAGIC \<lparr> jfile = [], jbuf = [], jrecords = 0 \<rparr>)
                 else \<lparr> jfile = f, jbuf = [], jrecords = 0 \<rparr>
      | None \<Rightarrow> journal_flush (buf_write WAL_MAGIC \<lparr> jfile = [], jbuf = [], jrecords = 0 \<rparr>))"

definition event_payload :: "pb_enums \<Rightarrow> wal_env \<Rightarrow> event_record \<Rightarrow> bytes" where
  "event_payload P W e = pb_encode W (to_proto P e)"

definition write_record :: "wal_env \<Rightarrow> bytes \<Rightarrow> journal \<Rightarrow> journal" where
  "write_record W payload j =
     buf_write payload
       (buf_write (to_be_bytes 4 (crc32 W payload))
         (buf_write (to_be_bytes 4 (of_nat (length payload) :: u32)) j))"

definition journal_append ::
  "pb_enums \<Rightarrow> wal_env \<Rightarrow> event_record \<Rightarrow> journal \<Rightarrow> (storage_error + unit) \<times> journal" where
  "journal_append P W e j =
     (let payload = event_payload P W e
      in if length payload > MAX_WAL_RECORD then (Inl (StFormat ''event WAL record too large''), j)
         else (Inr (), (write_record W payload j)\<lparr> jrecords := jrecords j + 1 \<rparr>))"

definition journal_rewrite :: "pb_enums \<Rightarrow> wal_env \<Rightarrow> event_record list \<Rightarrow> journal \<Rightarrow> journal" where
  "journal_rewrite P W events j =
     (let fresh = buf_write WAL_MAGIC \<lparr> jfile = [], jbuf = [], jrecords = 0 \<rparr>;
          written = journal_flush (fold (\<lambda>e. write_record W (event_payload P W e)) events fresh)
      in \<lparr> jfile = jfile written, jbuf = [], jrecords = length events \<rparr>)"

subsection \<open>The storage writer\<close>

record enrichment_snapshot =
  hits :: u64
  hits_via_market_id :: u64
  misses :: u64

definition persist_enrichment_stats ::
  "enrichment_snapshot \<Rightarrow> enrichment_snapshot \<Rightarrow> enrichment_snapshot option \<Rightarrow>
   enrichment_snapshot \<times> enrichment_snapshot option" where
  "persist_enrichment_stats current previous file =
     (if hits current = hits previous \<and> hits_via_market_id current = hits_via_market_id previous \<and>
         misses current = misses previous
      then (previous, file) else (current, Some current))"

record writer =
  w_journal :: journal
  w_uma_cursor :: u64
  w_last_stats :: enrichment_snapshot
  w_stats_file :: "enrichment_snapshot option"
  w_disk :: disk

text \<open>
  One round of the writer's loop.  A tick carries the counters at that moment, an
  event command the hub's snapshot a compaction would take.
\<close>

datatype storage_step =
    FlushTick enrichment_snapshot
  | EventCommand event_record "event_record list"
  | CheckpointCommand u64

definition writer_open :: "bytes option \<Rightarrow> enrichment_snapshot option \<Rightarrow> disk \<Rightarrow> writer" where
  "writer_open wal stats d =
     \<lparr> w_journal = journal_open wal,
       w_uma_cursor = (case load_uma_cursor d of Inr (Some block) \<Rightarrow> block | _ \<Rightarrow> 0),
       w_last_stats = \<lparr> hits = 0, hits_via_market_id = 0, misses = 0 \<rparr>,
       w_stats_file = stats, w_disk = d \<rparr>"

definition compact_above :: "u64 \<Rightarrow> nat" where
  "compact_above event_capacity = max (unat (saturating_mul event_capacity 2)) 2"

definition writer_flush :: "enrichment_snapshot \<Rightarrow> writer \<Rightarrow> writer" where
  "writer_flush current w =
     (let (previous, file) = persist_enrichment_stats current (w_last_stats w) (w_stats_file w)
      in w\<lparr> w_journal := journal_flush (w_journal w),
            w_disk := (if w_uma_cursor w > 0 then save_uma_cursor (w_uma_cursor w) (w_disk w) else w_disk w),
            w_last_stats := previous, w_stats_file := file \<rparr>)"

fun writer_step :: "pb_enums \<Rightarrow> wal_env \<Rightarrow> u64 \<Rightarrow> storage_step \<Rightarrow> writer \<Rightarrow> writer" where
  "writer_step P W event_capacity (FlushTick current) w = writer_flush current w"
| "writer_step P W event_capacity (EventCommand e snapshot) w =
     (let j = snd (journal_append P W e (w_journal w))
      in w\<lparr> w_journal :=
              (if jrecords j > compact_above event_capacity then journal_rewrite P W snapshot j else j) \<rparr>)"
| "writer_step P W event_capacity (CheckpointCommand block) w =
     w\<lparr> w_uma_cursor := max (w_uma_cursor w) block \<rparr>"

definition run_storage_writer ::
  "pb_enums \<Rightarrow> wal_env \<Rightarrow> u64 \<Rightarrow> storage_step list \<Rightarrow> writer \<Rightarrow> writer" where
  "run_storage_writer P W event_capacity steps w = fold (writer_step P W event_capacity) steps w"

subsection \<open>Images of the journal\<close>

definition wal_record :: "pb_enums \<Rightarrow> wal_env \<Rightarrow> event_record \<Rightarrow> bytes" where
  "wal_record P W e =
     to_be_bytes 4 (of_nat (length (event_payload P W e)) :: u32) @
     to_be_bytes 4 (crc32 W (event_payload P W e)) @ event_payload P W e"

definition wal_records :: "pb_enums \<Rightarrow> wal_env \<Rightarrow> event_record list \<Rightarrow> bytes" where
  "wal_records P W es = concat (map (wal_record P W) es)"

definition wal_image :: "pb_enums \<Rightarrow> wal_env \<Rightarrow> event_record list \<Rightarrow> bytes" where
  "wal_image P W es = WAL_MAGIC @ wal_records P W es"

text \<open>
  What recovery needs of an event: the widths of its ids, a payload within the
  limit, and that the protobuf decoder inverts the encoder on it.
\<close>

definition wal_ok :: "pb_enums \<Rightarrow> wal_env \<Rightarrow> event_record \<Rightarrow> bool" where
  "wal_ok P W e \<longleftrightarrow> record_widths e \<and> length (event_payload P W e) \<le> MAX_WAL_RECORD \<and>
     pb_decode W (event_payload P W e) = Some (to_proto P e)"

definition reread :: "pb_enums \<Rightarrow> event_record \<Rightarrow> event_record" where
  "reread P e = the (from_proto P (to_proto P e))"

lemma reread_Some: "pb_enums_ok P \<Longrightarrow> record_widths e \<Longrightarrow> from_proto P (to_proto P e) = Some (reread P e)"
  by (erule (1) from_to_proto) (simp add: reread_def)

lemma read_u32_eof_append: "read_u32_eof (to_be_bytes 4 w @ r) = Some (w, r)"
  by (simp add: read_u32_eof_def)

lemma unat_length_payload:
  "length p \<le> MAX_WAL_RECORD \<Longrightarrow> unat (of_nat (length p) :: u32) = length p"
  by (simp add: MAX_WAL_RECORD_def unat_of_nat take_bit_eq_mod)

lemma recover_record:
  assumes "pb_enums_ok P" "wal_ok P W e"
  shows "recover P W capacity es (wal_record P W e @ r) =
    recover P W capacity (take_last (max capacity 1) (es @ [reread P e])) r"
proof -
  have w: "record_widths e" "length (event_payload P W e) \<le> MAX_WAL_RECORD"
    "pb_decode W (event_payload P W e) = Some (to_proto P e)"
    using assms(2) by (simp_all add: wal_ok_def)
  show ?thesis
    by (subst recover.simps)
      (simp add: wal_record_def read_u32_eof_append unat_length_payload w leD [OF w(2)] reread_Some [OF assms(1) w(1)] push_event_def)
qed

lemma recover_records:
  assumes "pb_enums_ok P" "list_all (wal_ok P W) xs" "length es \<le> max capacity 1"
  shows "recover P W capacity es (wal_records P W xs @ r) =
    recover P W capacity (take_last (max capacity 1) (es @ map (reread P) xs)) r"
  using assms(2,3)
proof (induction xs arbitrary: es)
  case Nil
  then show ?case by (simp add: wal_records_def take_last_all)
next
  case (Cons x xs)
  then show ?case
    using take_last_append_take_last [of "max capacity 1" "es @ [reread P x]"]
    by (simp add: wal_records_def recover_record [OF assms(1)])
qed

text \<open>A record cut anywhere ends the recovery.\<close>

lemma recover_cut:
  assumes "length (event_payload P W e) \<le> MAX_WAL_RECORD" "strict_prefix b (wal_record P W e)"
  shows "recover P W capacity es b = Inr es"
  using assms(2) unfolding wal_record_def
proof (elim strict_prefix_append_cases)
  assume "strict_prefix b (to_be_bytes 4 (of_nat (length (event_payload P W e)) :: u32))"
  then have "length b < 4" using prefix_length_less by fastforce
  then show ?thesis by (simp add: recover.simps read_u32_eof_def)
next
  fix c assume b: "b = to_be_bytes 4 (of_nat (length (event_payload P W e)) :: u32) @ c"
    and "strict_prefix c (to_be_bytes 4 (crc32 W (event_payload P W e)))"
  then have "read_u32_eof c = None" using prefix_length_less by (fastforce simp: read_u32_eof_def)
  then show ?thesis
    by (simp add: b recover.simps [of _ _ _ _ "to_be_bytes 4 _ @ _"] read_u32_eof_append)
next
  fix c d assume b: "b = to_be_bytes 4 (of_nat (length (event_payload P W e)) :: u32) @ c"
    "c = to_be_bytes 4 (crc32 W (event_payload P W e)) @ d" and "strict_prefix d (event_payload P W e)"
  then have "length d < length (event_payload P W e)" using prefix_length_less by blast
  then show ?thesis
    by (simp add: b recover.simps [of _ _ _ _ "to_be_bytes 4 _ @ _"] read_u32_eof_append
        unat_length_payload [OF assms(1)])
qed

lemma wal_records_simps [simp]:
  "wal_records P W [] = []" "wal_records P W (xs @ ys) = wal_records P W xs @ wal_records P W ys"
  "wal_records P W (x # xs) = wal_record P W x @ wal_records P W xs"
  by (simp_all add: wal_records_def)

text \<open>A prefix of the records is a number of whole records and a cut one.\<close>

lemma prefix_wal_records:
  assumes "prefix b (wal_records P W es)"
  shows "\<exists>n t. n \<le> length es \<and> b = wal_records P W (take n es) @ t \<and>
    (if n < length es then strict_prefix t (wal_record P W (es ! n)) else t = [])"
  using assms
proof (induction es arbitrary: b)
  case (Cons e es)
  show ?case
  proof (cases "strict_prefix b (wal_record P W e)")
    case True
    then show ?thesis by (intro exI [of _ 0] exI [of _ b]) simp
  next
    case False
    with Cons.prems obtain c where c: "b = wal_record P W e @ c" "prefix c (wal_records P W es)"
      by (auto simp: prefix_append strict_prefix_def)
    from Cons.IH [OF c(2)] obtain n t where "n \<le> length es" "c = wal_records P W (take n es) @ t"
      "if n < length es then strict_prefix t (wal_record P W (es ! n)) else t = []" by blast
    with c(1) show ?thesis by (intro exI [of _ "Suc n"] exI [of _ t]) simp
  qed
qed simp

lemma length_wal_records_take_mono:
  "m \<le> n \<Longrightarrow> length (wal_records P W (take m es)) \<le> length (wal_records P W (take n es))"
  by (metis length_append le_add1 take_add le_add_diff_inverse wal_records_simps(2))

lemma load_events_prefix:
  assumes "pb_enums_ok P" "list_all (wal_ok P W) es" "prefix b (wal_records P W es)"
  obtains n where "n \<le> length es"
    "\<And>m. m \<le> length es \<Longrightarrow> length (wal_records P W (take m es)) \<le> length b \<Longrightarrow> m \<le> n"
    "load_events P W capacity (Some (WAL_MAGIC @ b)) = Inr (take_last (max capacity 1) (map (reread P) (take n es)))"
proof -
  obtain n t where n: "n \<le> length es" "b = wal_records P W (take n es) @ t"
    "if n < length es then strict_prefix t (wal_record P W (es ! n)) else t = []"
    using prefix_wal_records [OF assms(3)] by blast
  have ok: "list_all (wal_ok P W) (take n es)"
    using assms(2) by (auto simp: list_all_iff dest: in_set_takeD)
  have t: "recover P W capacity xs t = Inr xs" for xs
  proof (cases "n < length es")
    case True
    then have "wal_ok P W (es ! n)" using assms(2) by (simp add: list_all_length)
    with n(3) True show ?thesis by (intro recover_cut [of P W "es ! n"]) (simp_all add: wal_ok_def)
  next
    case False
    with n(3) show ?thesis by (simp add: recover.simps read_u32_eof_def)
  qed
  have m: "length WAL_MAGIC = 8" by (simp add: WAL_MAGIC_def)
  have load: "load_events P W capacity (Some (WAL_MAGIC @ b)) =
      Inr (take_last (max capacity 1) (map (reread P) (take n es)))"
    using recover_records [OF assms(1) ok, of "[]" capacity t] t
    by (simp add: load_events_def read_exact_append m n(2) del: and_then_Inr)
  have "m \<le> n" if "m \<le> length es" "length (wal_records P W (take m es)) \<le> length b" for m
  proof (rule ccontr)
    assume "\<not> m \<le> n"
    with that(1) have "n < length es" "Suc n \<le> m" by simp_all
    with n(3) have "length t < length (wal_record P W (es ! n))" using prefix_length_less by simp
    moreover have "length (wal_records P W (take (Suc n) es)) \<le> length b"
      using length_wal_records_take_mono [OF \<open>Suc n \<le> m\<close>] that(2) by (rule order_trans)
    ultimately show False
      using \<open>n < length es\<close> by (simp add: n(2) take_Suc_conv_app_nth)
  qed
  with n(1) load that show thesis by blast
qed

subsection \<open>The abstract journal\<close>

text \<open>
  The specification of the journal: the list of events in it, how many of them a
  crash cannot take away, and the count that triggers a compaction.
\<close>

record wal_abs =
  a_log :: "event_record list"
  a_durable :: nat
  a_records :: nat

fun abs_step :: "pb_enums \<Rightarrow> wal_env \<Rightarrow> u64 \<Rightarrow> storage_step \<Rightarrow> wal_abs \<Rightarrow> wal_abs" where
  "abs_step P W event_capacity (FlushTick _) a = a\<lparr> a_durable := length (a_log a) \<rparr>"
| "abs_step P W event_capacity (EventCommand e snapshot) a =
     (let a = (if length (event_payload P W e) > MAX_WAL_RECORD then a
               else a\<lparr> a_log := a_log a @ [e], a_records := a_records a + 1 \<rparr>)
      in if a_records a > compact_above event_capacity
         then \<lparr> a_log = snapshot, a_durable = length snapshot, a_records = length snapshot \<rparr> else a)"
| "abs_step P W event_capacity (CheckpointCommand _) a = a"

definition journal_refines :: "pb_enums \<Rightarrow> wal_env \<Rightarrow> journal \<Rightarrow> wal_abs \<Rightarrow> bool" where
  "journal_refines P W j a \<longleftrightarrow>
     jfile j @ jbuf j = wal_image P W (a_log a) \<and> a_durable a \<le> length (a_log a) \<and>
     length (wal_image P W (take (a_durable a) (a_log a))) \<le> length (jfile j) \<and> jrecords j = a_records a"

lemma buf_write_spec:
  "jfile (buf_write data j) @ jbuf (buf_write data j) = jfile j @ jbuf j @ data"
  "length (jfile j) \<le> length (jfile (buf_write data j))"
  "jrecords (buf_write data j) = jrecords j"
  by (cases "jbuf j"; auto simp: buf_write_def Let_def)+

lemma write_record_spec:
  "jfile (write_record W (event_payload P W e) j) @ jbuf (write_record W (event_payload P W e) j) =
     jfile j @ jbuf j @ wal_record P W e"
  "length (jfile j) \<le> length (jfile (write_record W (event_payload P W e) j))"
  "jrecords (write_record W (event_payload P W e) j) = jrecords j"
  unfolding write_record_def
  by (simp_all add: buf_write_spec wal_record_def order_trans [OF _ buf_write_spec(2)]
      buf_write_spec(1) [THEN append_eq_appendI])

lemma write_records_spec:
  "jfile (fold (\<lambda>e. write_record W (event_payload P W e)) es j) @
     jbuf (fold (\<lambda>e. write_record W (event_payload P W e)) es j) = jfile j @ jbuf j @ wal_records P W es"
  by (induction es arbitrary: j) (simp_all add: write_record_spec(1))

lemma journal_rewrite_image:
  "journal_rewrite P W es j = \<lparr> jfile = wal_image P W es, jbuf = [], jrecords = length es \<rparr>"
  by (simp add: journal_rewrite_def journal_flush_def write_records_spec buf_write_spec(1) wal_image_def Let_def)

lemma journal_append_refines:
  assumes "journal_refines P W j a"
  shows "journal_refines P W (snd (journal_append P W e j))
    (if length (event_payload P W e) > MAX_WAL_RECORD then a
     else a\<lparr> a_log := a_log a @ [e], a_records := a_records a + 1 \<rparr>)"
  using assms write_record_spec [where W = W and P = P and e = e and j = j]
  by (auto simp: journal_refines_def journal_append_def Let_def wal_image_def)

lemma journal_refines_step:
  assumes "journal_refines P W (w_journal w) a"
  shows "journal_refines P W (w_journal (writer_step P W cap ev w)) (abs_step P W cap ev a)"
proof (cases ev)
  case (FlushTick s)
  with assms show ?thesis
    by (auto simp: journal_refines_def writer_flush_def journal_flush_def split: prod.splits)
next
  case (EventCommand e snapshot)
  let ?j = "snd (journal_append P W e (w_journal w))"
  let ?a = "if length (event_payload P W e) > MAX_WAL_RECORD then a
     else a\<lparr> a_log := a_log a @ [e], a_records := a_records a + 1 \<rparr>"
  have r: "journal_refines P W ?j ?a" by (rule journal_append_refines [OF assms])
  then have "jrecords ?j = a_records ?a" by (simp add: journal_refines_def)
  with r EventCommand show ?thesis
    by (simp add: journal_rewrite_image journal_refines_def Let_def)
qed (use assms in simp)

lemma journal_refines_run:
  "journal_refines P W (w_journal w) a \<Longrightarrow>
   journal_refines P W (w_journal (run_storage_writer P W cap steps w)) (fold (abs_step P W cap) steps a)"
  unfolding run_storage_writer_def
  by (induction steps arbitrary: w a) (simp_all add: journal_refines_step)

lemma journal_open_image:
  "journal_open None = \<lparr> jfile = wal_image P W [], jbuf = [], jrecords = 0 \<rparr>"
  "journal_open (Some (wal_image P W es)) = \<lparr> jfile = wal_image P W es, jbuf = [], jrecords = 0 \<rparr>"
  by (simp_all add: journal_open_def journal_flush_def buf_write_spec(1) wal_image_def WAL_MAGIC_def buf_write_def)

lemma abs_log_ok:
  assumes "list_all (wal_ok P W) (a_log a)"
    and "\<And>e snapshot. EventCommand e snapshot \<in> set steps \<Longrightarrow> list_all (wal_ok P W) (e # snapshot)"
  shows "list_all (wal_ok P W) (a_log (fold (abs_step P W cap) steps a))"
  using assms
proof (induction steps arbitrary: a)
  case (Cons ev steps)
  have "list_all (wal_ok P W) (a_log (abs_step P W cap ev a))"
    using Cons.prems by (cases ev) (auto simp: Let_def)
  moreover have "list_all (wal_ok P W) (e # snapshot)" if "EventCommand e snapshot \<in> set steps" for e snapshot
    using Cons.prems(2) that by (metis list.set_intros(2))
  ultimately show ?case using Cons.IH [of "abs_step P W cap ev a"] by simp
qed simp

lemma journal_refines_file:
  assumes "journal_refines P W j a"
  obtains b where "jfile j = WAL_MAGIC @ b" "prefix b (wal_records P W (a_log a))"
    "length (wal_records P W (take (a_durable a) (a_log a))) \<le> length b" "a_durable a \<le> length (a_log a)"
proof -
  have r: "jfile j @ jbuf j = WAL_MAGIC @ wal_records P W (a_log a)" "a_durable a \<le> length (a_log a)"
    "length WAL_MAGIC + length (wal_records P W (take (a_durable a) (a_log a))) \<le> length (jfile j)"
    using assms by (simp_all add: journal_refines_def wal_image_def)
  have "take (length WAL_MAGIC) (jfile j @ jbuf j) = WAL_MAGIC" by (simp add: r(1))
  with r(3) have "take (length WAL_MAGIC) (jfile j) = WAL_MAGIC" by simp
  then obtain b where b: "jfile j = WAL_MAGIC @ b" by (metis append_take_drop_id)
  with r(1) have "b @ jbuf j = wal_records P W (a_log a)" by simp
  then have "prefix b (wal_records P W (a_log a))" by (metis prefixI)
  with b r that show thesis by simp
qed

lemma journal_recovers:
  assumes "pb_enums_ok P" "list_all (wal_ok P W) es"
    and "\<forall>e snapshot. EventCommand e snapshot \<in> set steps \<longrightarrow> list_all (wal_ok P W) (e # snapshot)"
    and "wal = Some (wal_image P W es) \<or> wal = None \<and> es = []"
    and a: "a = fold (abs_step P W cap) steps \<lparr> a_log = es, a_durable = length es, a_records = 0 \<rparr>"
  obtains n where "a_durable a \<le> n" "n \<le> length (a_log a)"
    "load_events P W capacity
       (Some (jfile (w_journal (run_storage_writer P W cap steps (writer_open wal stats d))))) =
     Inr (take_last (max capacity 1) (map (reread P) (take n (a_log a))))"
proof -
  let ?a0 = "\<lparr> a_log = es, a_durable = length es, a_records = 0 \<rparr>"
  define w where "w = run_storage_writer P W cap steps (writer_open wal stats d)"
  have "journal_refines P W (w_journal (writer_open wal stats d)) ?a0"
    using assms(4) by (auto simp: writer_open_def journal_open_image [of P W] journal_refines_def)
  then have r: "journal_refines P W (w_journal w) a" unfolding w_def a by (rule journal_refines_run)
  have ok: "list_all (wal_ok P W) (a_log a)"
    unfolding a using assms(2,3) by (intro abs_log_ok) simp_all
  obtain b where b: "jfile (w_journal w) = WAL_MAGIC @ b" "prefix b (wal_records P W (a_log a))"
    and dur: "length (wal_records P W (take (a_durable a) (a_log a))) \<le> length b" "a_durable a \<le> length (a_log a)"
    by (rule journal_refines_file [OF r])
  from load_events_prefix [OF assms(1) ok b(2), of capacity] dur b(1) that show thesis
    by (metis w_def)
qed


subsection \<open>The block cursor against the journal\<close>

fun events_of :: "storage_step list \<Rightarrow> event_record list" where
  "events_of [] = []"
| "events_of (EventCommand e _ # steps) = e # events_of steps"
| "events_of (_ # steps) = events_of steps"

fun blocks_of :: "storage_step list \<Rightarrow> u64 list" where
  "blocks_of [] = []"
| "blocks_of (CheckpointCommand b # steps) = b # blocks_of steps"
| "blocks_of (_ # steps) = blocks_of steps"

fun no_tick :: "storage_step \<Rightarrow> bool" where
  "no_tick (FlushTick _) = False"
| "no_tick _ = True"

lemma events_of_append: "events_of (xs @ ys) = events_of xs @ events_of ys"
  by (induction xs rule: events_of.induct) simp_all

lemma abs_run_plain:
  assumes "a_records a + length (events_of steps) \<le> compact_above cap"
    and "list_all (\<lambda>e. length (event_payload P W e) \<le> MAX_WAL_RECORD) (events_of steps)"
    and "a_durable a \<le> length (a_log a)"
  shows "a_log (fold (abs_step P W cap) steps a) = a_log a @ events_of steps \<and>
    a_records (fold (abs_step P W cap) steps a) = a_records a + length (events_of steps) \<and>
    a_durable a \<le> a_durable (fold (abs_step P W cap) steps a)"
  using assms
proof (induction steps arbitrary: a)
  case (Cons ev steps)
  show ?case
  proof (cases ev)
    case (FlushTick s)
    have "a_durable a \<le> length (a_log a)" by (rule Cons.prems(3))
    with Cons.IH [of "abs_step P W cap ev a"] Cons.prems FlushTick show ?thesis by auto
  next
    case (EventCommand e snapshot)
    with Cons.prems have "abs_step P W cap ev a = a\<lparr> a_log := a_log a @ [e], a_records := a_records a + 1 \<rparr>"
      by (simp add: Let_def)
    with Cons.IH [of "abs_step P W cap ev a"] Cons.prems EventCommand show ?thesis by simp
  next
    case (CheckpointCommand b)
    with Cons.IH [of a] Cons.prems show ?thesis by simp
  qed
qed simp

lemma cursor_run:
  "w_uma_cursor (fold (writer_step P W cap) steps w) = fold max (blocks_of steps) (w_uma_cursor w)"
proof (induction steps arbitrary: w)
  case (Cons ev steps)
  then show ?case
    by (cases ev) (simp_all add: writer_flush_def Let_def max.commute split: prod.splits)
qed simp

lemma disk_run_no_tick:
  "list_all no_tick steps \<Longrightarrow> w_disk (fold (writer_step P W cap) steps w) = w_disk w"
proof (induction steps arbitrary: w)
  case (Cons ev steps)
  then show ?case by (cases ev) (simp_all add: Let_def)
qed simp

lemma events_of_ok:
  "\<forall>e snapshot. EventCommand e snapshot \<in> set steps \<longrightarrow> Q e \<Longrightarrow> list_all Q (events_of steps)"
proof (induction steps)
  case (Cons ev steps)
  have "list_all Q (events_of steps)" by (rule Cons.IH) (use Cons.prems in simp)
  with Cons.prems show ?case by (cases ev) simp_all
qed simp

lemma cursor_on_disk:
  assumes "list_all no_tick ys"
  shows "w_disk (fold (writer_step P W cap) (xs @ FlushTick s # ys) w) =
    (let c = fold max (blocks_of xs) (w_uma_cursor w); d = w_disk (fold (writer_step P W cap) xs w)
     in if c > 0 then save_uma_cursor c d else d)"
  by (simp add: disk_run_no_tick [OF assms] writer_flush_def cursor_run Let_def split: prod.splits)

lemma load_save_uma_cursor: "load_uma_cursor (save_uma_cursor c d) = Inr (Some c)"
  using nat_decimal_digits [of "unat c"]
  by (simp add: load_uma_cursor_def save_uma_cursor_def trim_digits u64_from_nat_decimal)

text \<open>Until the cursor is positive nothing is written to its file.\<close>

lemma fold_max_zero: "fold max bs x = (0 :: u64) \<longleftrightarrow> x = 0 \<and> (\<forall>b\<in>set bs. b = 0)"
proof (induction bs arbitrary: x)
  case (Cons b bs)
  have "max b x = 0 \<longleftrightarrow> b = 0 \<and> x = 0"
    by (metis max.cobounded1 max.cobounded2 max.idem word_le_0_iff)
  then show ?case using Cons [of "max b x"] by auto
qed simp

lemma disk_run_zero:
  "w_uma_cursor w = 0 \<Longrightarrow> \<forall>b\<in>set (blocks_of steps). b = 0 \<Longrightarrow>
   w_disk (fold (writer_step P W cap) steps w) = w_disk w"
proof (induction steps arbitrary: w)
  case (Cons ev steps)
  have "w_disk (writer_step P W cap ev w) = w_disk w" "w_uma_cursor (writer_step P W cap ev w) = 0"
    using Cons.prems by (cases ev; simp add: writer_flush_def Let_def split: prod.splits)+
  moreover have "\<forall>b\<in>set (blocks_of steps). b = 0" using Cons.prems(2) by (cases ev) simp_all
  ultimately show ?case using Cons.IH [of "writer_step P W cap ev w"] by simp
qed simp

lemma durable_at_tick:
  assumes "length (events_of (xs @ FlushTick s # ys)) \<le> compact_above cap"
    and "list_all (\<lambda>e. length (event_payload P W e) \<le> MAX_WAL_RECORD) (events_of (xs @ FlushTick s # ys))"
  shows "a_log (fold (abs_step P W cap) (xs @ FlushTick s # ys) \<lparr> a_log = es, a_durable = length es, a_records = 0 \<rparr>) =
      es @ events_of xs @ events_of ys \<and>
    length es + length (events_of xs) \<le>
      a_durable (fold (abs_step P W cap) (xs @ FlushTick s # ys) \<lparr> a_log = es, a_durable = length es, a_records = 0 \<rparr>)"
proof -
  let ?a0 = "\<lparr> a_log = es, a_durable = length es, a_records = 0 \<rparr>"
  let ?a1 = "fold (abs_step P W cap) xs ?a0"
  have x: "a_log ?a1 = es @ events_of xs" "a_records ?a1 = length (events_of xs)"
    using abs_run_plain [of ?a0 xs cap P W] assms by (simp_all add: events_of_append)
  let ?a2 = "abs_step P W cap (FlushTick s) ?a1"
  have "a_log (fold (abs_step P W cap) ys ?a2) = a_log ?a2 @ events_of ys \<and>
      a_records (fold (abs_step P W cap) ys ?a2) = a_records ?a2 + length (events_of ys) \<and>
      a_durable ?a2 \<le> a_durable (fold (abs_step P W cap) ys ?a2)"
    using assms x by (intro abs_run_plain) (simp_all add: events_of_append)
  with x show ?thesis by simp
qed


subsection \<open>A torn tail\<close>

lemma recover_torn:
  assumes "length (event_payload P W e) \<le> MAX_WAL_RECORD"
    and "let p = take (length (event_payload P W e)) r
         in length p = length (event_payload P W e) \<longrightarrow> crc32 W p \<noteq> crc32 W (event_payload P W e)"
  shows "recover P W capacity es (to_be_bytes 4 (of_nat (length (event_payload P W e)) :: u32) @
    to_be_bytes 4 (crc32 W (event_payload P W e)) @ r) = Inr es"
  using assms(2)
  by (subst recover.simps)
    (auto simp: read_u32_eof_append unat_length_payload [OF assms(1)] leD [OF assms(1)] Let_def min_def)

lemma append_all_spec:
  assumes "list_all (wal_ok P W) es"
  shows "jfile (journal_flush (fold (\<lambda>e j. snd (journal_append P W e j)) es j)) =
    jfile j @ jbuf j @ wal_records P W es"
  using assms
proof (induction es arbitrary: j)
  case (Cons e es)
  have "jfile (snd (journal_append P W e j)) @ jbuf (snd (journal_append P W e j)) =
      jfile j @ jbuf j @ wal_record P W e"
    using Cons.prems write_record_spec(1) [of W P e j] by (simp add: journal_append_def wal_ok_def Let_def)
  with Cons show ?case by simp
qed (simp add: journal_flush_def)

text \<open>
  C17: a journal that ends in a torn record (its header whole, its payload cut) is
  reopened for appending without cutting the torn bytes off; the events appended
  and flushed afterwards are lost at the next start, which recovers only those
  before the torn record (unless the checksum of the torn record happens to fit
  the bytes of the new ones).
\<close>

theorem torn_tail_hides_appends:
  assumes "pb_enums_ok P" "list_all (wal_ok P W) es" "wal_ok P W torn" "list_all (wal_ok P W) later"
    and "8 \<le> k" "k < length (wal_record P W torn)"
    and "let p = take (length (event_payload P W torn)) (drop 8 (take k (wal_record P W torn)) @ wal_records P W later)
         in length p = length (event_payload P W torn) \<longrightarrow> crc32 W p \<noteq> crc32 W (event_payload P W torn)"
  shows "let j = journal_open (Some (wal_image P W es @ take k (wal_record P W torn)));
      j' = journal_flush (fold (\<lambda>e j. snd (journal_append P W e j)) later j)
    in load_events P W capacity (Some (jfile j')) = Inr (take_last (max capacity 1) (map (reread P) es))"
proof -
  let ?t = "take k (wal_record P W torn)" and ?p = "event_payload P W torn"
  let ?r = "drop 8 ?t @ wal_records P W later"
  have len: "length ?p \<le> MAX_WAL_RECORD" using assms(3) by (simp add: wal_ok_def)
  have m: "length WAL_MAGIC = 8" by (simp add: WAL_MAGIC_def)
  have head: "?t = to_be_bytes 4 (of_nat (length ?p) :: u32) @ to_be_bytes 4 (crc32 W ?p) @ drop 8 ?t"
    using assms(5) by (simp add: wal_record_def take_append)
  have rec: "recover P W capacity es' (?t @ wal_records P W later) = Inr es'" for es'
    using recover_torn [OF len, of ?r capacity es'] assms(7) head by (metis append.assoc)
  have "jfile (journal_flush (fold (\<lambda>e j. snd (journal_append P W e j)) later
      (journal_open (Some (wal_image P W es @ ?t))))) = WAL_MAGIC @ wal_records P W es @ ?t @ wal_records P W later"
    by (simp add: append_all_spec [OF assms(4)] journal_open_def wal_image_def WAL_MAGIC_def)
  then show ?thesis
    using recover_records [OF assms(1,2), of "[]" capacity "?t @ wal_records P W later"] rec
    by (simp add: load_events_def read_exact_append m Let_def del: and_then_Inr)
qed

subsection \<open>A sample environment\<close>

definition sample_event_record :: "u64 \<Rightarrow> event_record" where
  "sample_event_record n = sample_record n 1 (Some sample_enrichment)"

definition sample_wal :: wal_env where
  "sample_wal =
     \<lparr> pb_encode = (\<lambda>p. to_be_bytes 8 (pb_sequence p)),
       pb_decode = (\<lambda>b. if length b = 8
         then Some (to_proto sample_enums (sample_event_record (of_nat (be_nat b)))) else None),
       crc32 = (\<lambda>b. foldl (\<lambda>a x. a * 31 + ucast x) 7 b) \<rparr>"

lemma sample_payload: "event_payload sample_enums sample_wal (sample_event_record n) = to_be_bytes 8 n"
  by (simp add: event_payload_def sample_wal_def sample_event_record_def to_proto_def sample_record_def Let_def)

lemma sample_wal_ok: "wal_ok sample_enums sample_wal (sample_event_record n)"
proof -
  have "pb_decode sample_wal (to_be_bytes 8 n) = Some (to_proto sample_enums (sample_event_record n))"
    by (simp add: sample_wal_def)
  then show ?thesis
    using sample_record_widths [of n 1]
    by (simp add: wal_ok_def sample_payload MAX_WAL_RECORD_def) (simp add: sample_event_record_def)
qed

abbreviation no_hits :: enrichment_snapshot where
  "no_hits \<equiv> \<lparr> hits = 0, hits_via_market_id = 0, misses = 0 \<rparr>"



theorem torn_tail_hides_appends_witness:
  "let j = journal_open (Some (wal_image sample_enums sample_wal [sample_event_record 1] @
        take 12 (wal_record sample_enums sample_wal (sample_event_record 2))));
      j' = journal_flush (fold (\<lambda>e j. snd (journal_append sample_enums sample_wal e j)) [sample_event_record 3] j)
    in load_events sample_enums sample_wal 9 (Some (jfile j')) = Inr [reread sample_enums (sample_event_record 1)]"
proof -
  have sample_bytes: "to_be_bytes 8 (2 :: u64) = [0, 0, 0, 0, 0, 0, 0, 2]"
    "to_be_bytes 4 (8 :: u32) = [0, 0, 0, 8]" "crc32 sample_wal [0, 0, 0, 0, 0, 0, 0, 8] \<noteq> crc32 sample_wal [0, 0, 0, 0, 0, 0, 0, 2]"
    by code_simp+
  have fit: "let p = take (length (event_payload sample_enums sample_wal (sample_event_record 2)))
         (drop 8 (take 12 (wal_record sample_enums sample_wal (sample_event_record 2))) @
           wal_records sample_enums sample_wal [sample_event_record 3])
     in length p = length (event_payload sample_enums sample_wal (sample_event_record 2)) \<longrightarrow>
       crc32 sample_wal p \<noteq> crc32 sample_wal (event_payload sample_enums sample_wal (sample_event_record 2))"
    by (simp add: wal_record_def sample_payload sample_bytes Let_def)
  have l: "12 < length (wal_record sample_enums sample_wal (sample_event_record 2))"
    by (simp add: wal_record_def sample_payload)
  have one: "list_all (wal_ok sample_enums sample_wal) [sample_event_record n]" for n
    by (simp add: sample_wal_ok)
  from torn_tail_hides_appends [OF sample_enums_ok one sample_wal_ok one _ l fit, of 1 9]
  show ?thesis by (simp add: take_last_all)
qed

end
