(* ===== verification/Forfeit.thy ===== *)
theory Forfeit
  imports Uma_Events "HOL-Library.List_Lexorder" "HOL-Library.Char_ord" "HOL-Library.Product_Lexorder"
begin

text \<open>
  \<open>forfeit.rs\<close>: the blocklist of matches with a forfeited game, fed by an append-only
  event log and expired by age.  The ordered map of matches is a list sorted by
  match id; the index the hot path reads is a map from condition id.  The enum of
  the generated protobuf module is the parameter \<open>lookup_status_try\<close>; the clock is
  an argument; the \<open>Notify\<close> that wakes the saver is left out.
\<close>

definition hex_prefixed :: "crypto \<Rightarrow> bytes \<Rightarrow> string" where
  "hex_prefixed C value = ''0x'' @ hex_encode C value"

definition RECENT_BLOCKED :: nat where "RECENT_BLOCKED = 200"
definition SNAPSHOT_VERSION :: u32 where "SNAPSHOT_VERSION = 1"

record blocked_market =
  bm_condition_id :: string
  sports_market_type :: string
  game_number :: u32
  question :: string
  is_forfeited_market :: bool

record blocked_match =
  pandascore_match_id :: u64
  game :: string
  league :: string
  match_name :: string
  team_a :: string
  team_b :: string
  winner :: string
  forfeited_games :: "u32 list"
  pm_event_slug :: string
  lookup_status :: string
  markets :: "blocked_market list"
  detect_at_us :: u64
  added_at_us :: u64
  updated_at_us :: u64
  feed_sequences :: "u64 list"
  blocked_events :: u64

record blocked_event =
  be_sequence :: u64
  be_kind :: string
  be_transaction_hash :: string
  be_condition_id :: string
  be_market_id :: u64
  be_match_id :: u64
  be_match_name :: string
  blocked_at_us :: u64

record forfeit_snapshot =
  snap_version :: u32
  snap_last_feed_sequence :: u64
  snap_blocked_events_total :: u64
  snap_matches :: "blocked_match list"
  snap_recent_blocked :: "blocked_event list"

record index_entry =
  entry_match_id :: u64
  entry_added_at_us :: u64

record blocklist =
  bl_enabled :: bool
  ttl_us :: u64
  bl_index :: "bytes \<rightharpoonup> index_entry"
  bl_matches :: "blocked_match list"
  recent_blocked :: "blocked_event list"
  last_feed_sequence :: u64
  blocked_events_total :: u64

text \<open>The message \<open>pb::ForfeitEvent\<close> and its enum.\<close>

datatype pb_lookup_status = LookupUnspecified | LookupMatched | LookupNotFound | LookupFailed

record forfeit_market =
  fm_condition_id :: bytes
  fm_sports_market_type :: string
  fm_game_number :: u32
  fm_question :: string
  fm_is_forfeited_market :: bool

record forfeit_event =
  fe_sequence :: u64
  fe_match_id :: u64
  fe_game :: string
  fe_league :: string
  fe_match_name :: string
  fe_team_a :: string
  fe_team_b :: string
  fe_winner :: string
  fe_forfeited_game_number :: u32
  fe_pm_event_slug :: string
  fe_lookup_status :: i32
  fe_markets :: "forfeit_market list"
  fe_condition_ids :: "bytes list"
  fe_detect_at_us :: u64

subsection \<open>Ordered map of matches\<close>

fun match_get :: "u64 \<Rightarrow> blocked_match list \<Rightarrow> blocked_match option" where
  "match_get k [] = None"
| "match_get k (m # ms) = (if pandascore_match_id m = k then Some m else match_get k ms)"

fun match_put :: "blocked_match \<Rightarrow> blocked_match list \<Rightarrow> blocked_match list" where
  "match_put v [] = [v]"
| "match_put v (m # ms) =
     (if pandascore_match_id v < pandascore_match_id m then v # m # ms
      else if pandascore_match_id v = pandascore_match_id m then v # ms
      else m # match_put v ms)"

subsection \<open>Construction and the hot path\<close>

definition blocklist_empty :: "bool \<Rightarrow> u64 \<Rightarrow> blocklist" where
  "blocklist_empty enabled ttl =
     \<lparr> bl_enabled = enabled, ttl_us = ttl, bl_index = Map.empty, bl_matches = [],
       recent_blocked = [], last_feed_sequence = 0, blocked_events_total = 0 \<rparr>"

definition blocklist_disabled :: blocklist where
  "blocklist_disabled = blocklist_empty False 0"

definition blocklist_lookup :: "bytes \<Rightarrow> blocklist \<Rightarrow> u64 option" where
  "blocklist_lookup condition_id l =
     (if \<not> bl_enabled l then None else map_option entry_match_id (bl_index l condition_id))"

definition blocked_before :: "bytes \<Rightarrow> u64 \<Rightarrow> blocklist \<Rightarrow> bool" where
  "blocked_before condition_id at_us l =
     (case bl_index l condition_id of None \<Rightarrow> False | Some entry \<Rightarrow> entry_added_at_us entry \<le> at_us)"

definition record_blocked :: "crypto \<Rightarrow> u64 \<Rightarrow> event_record \<Rightarrow> u64 \<Rightarrow> blocklist \<Rightarrow> blocklist" where
  "record_blocked C now r match_id l =
     (let (name, ms) = (case match_get match_id (bl_matches l) of
            Some b \<Rightarrow> (team_a b @ '' vs '' @ team_b b, match_put (b\<lparr> blocked_events := blocked_events b + 1 \<rparr>) (bl_matches l))
          | None \<Rightarrow> ([], bl_matches l));
          e = \<lparr> be_sequence = sequence r,
                be_kind = (case event_kind_of (event r) of Propose \<Rightarrow> ''propose'' | Dispute \<Rightarrow> ''dispute''),
                be_transaction_hash = hex_prefixed C (transaction_hash (event_chain (event r))),
                be_condition_id = hex_prefixed C (resolved_condition_id r),
                be_market_id = (case enrichment r of None \<Rightarrow> 0 | Some en \<Rightarrow> me_market_id en),
                be_match_id = match_id, be_match_name = name, blocked_at_us = now \<rparr>
      in l\<lparr> blocked_events_total := blocked_events_total l + 1, bl_matches := ms,
            recent_blocked := take RECENT_BLOCKED (e # recent_blocked l) \<rparr>)"

subsection \<open>Merging a feed event\<close>

definition status_text :: "(i32 \<Rightarrow> pb_lookup_status option) \<Rightarrow> i32 \<Rightarrow> string" where
  "status_text try_from n =
     (case try_from n of
        Some LookupMatched \<Rightarrow> ''matched''
      | Some LookupNotFound \<Rightarrow> ''not_found''
      | Some LookupFailed \<Rightarrow> ''failed''
      | _ \<Rightarrow> ''unspecified'')"

definition new_match :: "string \<Rightarrow> u64 \<Rightarrow> forfeit_event \<Rightarrow> blocked_match" where
  "new_match status now ev =
     \<lparr> pandascore_match_id = fe_match_id ev, game = fe_game ev, league = fe_league ev,
       match_name = fe_match_name ev, team_a = fe_team_a ev, team_b = fe_team_b ev, winner = fe_winner ev,
       forfeited_games = [], pm_event_slug = [], lookup_status = status, markets = [],
       detect_at_us = fe_detect_at_us ev, added_at_us = now, updated_at_us = now,
       feed_sequences = [], blocked_events = 0 \<rparr>"

text \<open>The two loops that collect the ids this match does not have yet.\<close>

fun add_markets ::
  "crypto \<Rightarrow> string set \<Rightarrow> forfeit_market list \<Rightarrow> blocked_market list \<times> bytes list \<Rightarrow> blocked_market list \<times> bytes list" where
  "add_markets C known [] acc = acc"
| "add_markets C known (m # ms) (mkts, new_ids) =
     (if length (fm_condition_id m) \<noteq> 32 then add_markets C known ms (mkts, new_ids)
      else let hex = hex_prefixed C (fm_condition_id m)
           in if hex \<in> known then add_markets C known ms (mkts, new_ids)
              else add_markets C known ms
                (mkts @ [\<lparr> bm_condition_id = hex, sports_market_type = fm_sports_market_type m,
                           game_number = fm_game_number m, question = fm_question m,
                           is_forfeited_market = fm_is_forfeited_market m \<rparr>],
                 new_ids @ [fm_condition_id m]))"

fun add_condition_ids ::
  "crypto \<Rightarrow> string set \<Rightarrow> bytes list \<Rightarrow> blocked_market list \<times> bytes list \<Rightarrow> blocked_market list \<times> bytes list" where
  "add_condition_ids C known [] acc = acc"
| "add_condition_ids C known (i # ids) (mkts, new_ids) =
     (if length i \<noteq> 32 then add_condition_ids C known ids (mkts, new_ids)
      else let hex = hex_prefixed C i
           in if hex \<in> known \<or> i \<in> set new_ids then add_condition_ids C known ids (mkts, new_ids)
              else add_condition_ids C known ids
                (mkts @ [\<lparr> bm_condition_id = hex, sports_market_type = [], game_number = 0, question = [],
                           is_forfeited_market = False \<rparr>],
                 new_ids @ [i]))"

definition index_insert :: "index_entry \<Rightarrow> bytes \<Rightarrow> (bytes \<rightharpoonup> index_entry) \<Rightarrow> bytes \<rightharpoonup> index_entry" where
  "index_insert entry i index = (case index i of Some _ \<Rightarrow> index | None \<Rightarrow> index(i \<mapsto> entry))"

definition push_sorted :: "'a::linorder \<Rightarrow> 'a list \<Rightarrow> bool \<times> 'a list" where
  "push_sorted x xs = (if x \<in> set xs then (False, xs) else (True, sort (xs @ [x])))"

text \<open>What \<open>apply\<close> does to the match under the state lock: the match, the new ids, and whether anything changed.\<close>

definition merge_into ::
  "crypto \<Rightarrow> string \<Rightarrow> u64 \<Rightarrow> forfeit_event \<Rightarrow> bool \<Rightarrow> blocked_match \<Rightarrow> blocked_match \<times> bytes list \<times> bool" where
  "merge_into C status now ev is_new b =
     (let (c1, games) = push_sorted (fe_forfeited_game_number ev) (forfeited_games b);
          (c2, seqs) = push_sorted (fe_sequence ev) (feed_sequences b);
          c3 = (lookup_status b \<noteq> ''matched'' \<and> lookup_status b \<noteq> status);
          c4 = (fe_pm_event_slug ev \<noteq> [] \<and> pm_event_slug b \<noteq> fe_pm_event_slug ev);
          known = set (map bm_condition_id (markets b));
          (mkts, new_ids) = add_condition_ids C known (fe_condition_ids ev)
            (add_markets C known (fe_markets ev) (markets b, []));
          changed = (is_new \<or> c1 \<or> c2 \<or> c3 \<or> c4 \<or> new_ids \<noteq> [])
      in (b\<lparr> forfeited_games := games, feed_sequences := seqs,
             lookup_status := (if c3 then status else lookup_status b),
             pm_event_slug := (if c4 then fe_pm_event_slug ev else pm_event_slug b),
             markets := (if new_ids \<noteq> [] then sort_key (\<lambda>m. (game_number m, sports_market_type m)) mkts else mkts),
             updated_at_us := (if changed then now else updated_at_us b) \<rparr>, new_ids, changed))"

definition merge_match ::
  "crypto \<Rightarrow> string \<Rightarrow> u64 \<Rightarrow> forfeit_event \<Rightarrow> blocked_match option \<Rightarrow> blocked_match \<times> bytes list \<times> bool" where
  "merge_match C status now ev old =
     merge_into C status now ev (old = None) (case old of Some b \<Rightarrow> b | None \<Rightarrow> new_match status now ev)"

definition blocklist_apply ::
  "crypto \<Rightarrow> (i32 \<Rightarrow> pb_lookup_status option) \<Rightarrow> u64 \<Rightarrow> forfeit_event \<Rightarrow> blocklist \<Rightarrow> bool \<times> blocklist" where
  "blocklist_apply C try_from now ev l =
     (let (b, new_ids, changed) =
            merge_match C (status_text try_from (fe_lookup_status ev)) now ev (match_get (fe_match_id ev) (bl_matches l));
          entry = \<lparr> entry_match_id = fe_match_id ev, entry_added_at_us = added_at_us b \<rparr>
      in (changed, l\<lparr> last_feed_sequence := max (last_feed_sequence l) (fe_sequence ev),
                     bl_matches := match_put b (bl_matches l),
                     bl_index := fold (index_insert entry) new_ids (bl_index l) \<rparr>))"

subsection \<open>Expiry, saving and loading\<close>

definition index_market :: "crypto \<Rightarrow> blocked_match \<Rightarrow> blocked_market \<Rightarrow> (bytes \<rightharpoonup> index_entry) \<Rightarrow> bytes \<rightharpoonup> index_entry" where
  "index_market C m market index =
     (case hex_decode C (trim_start_0x (bm_condition_id market)) of
        None \<Rightarrow> index
      | Some i \<Rightarrow> if length i \<noteq> 32 then index
                 else index_insert \<lparr> entry_match_id = pandascore_match_id m, entry_added_at_us = added_at_us m \<rparr> i index)"

definition build_index :: "crypto \<Rightarrow> blocked_match list \<Rightarrow> bytes \<rightharpoonup> index_entry" where
  "build_index C ms = fold (\<lambda>m. fold (index_market C m) (markets m)) ms Map.empty"

definition live_match :: "u64 \<Rightarrow> u64 \<Rightarrow> blocked_match \<Rightarrow> bool" where
  "live_match ttl now m \<longleftrightarrow> saturating_add (added_at_us m) ttl > now"

definition blocklist_prune :: "crypto \<Rightarrow> u64 \<Rightarrow> blocklist \<Rightarrow> nat \<times> blocklist" where
  "blocklist_prune C now l =
     (if ttl_us l = 0 then (0, l)
      else let kept = filter (live_match (ttl_us l) now) (bl_matches l);
               removed = length (bl_matches l) - length kept
           in (removed, if removed > 0 then l\<lparr> bl_matches := kept, bl_index := build_index C kept \<rparr>
                        else l\<lparr> bl_matches := kept \<rparr>))"

definition snapshot_of :: "blocklist \<Rightarrow> forfeit_snapshot" where
  "snapshot_of l =
     \<lparr> snap_version = SNAPSHOT_VERSION, snap_last_feed_sequence = last_feed_sequence l,
       snap_blocked_events_total = blocked_events_total l, snap_matches = bl_matches l,
       snap_recent_blocked = recent_blocked l \<rparr>"

text \<open>
  Loading: no file, an unreadable or malformed one is \<open>None\<close> here.
\<close>

definition blocklist_load :: "crypto \<Rightarrow> u64 \<Rightarrow> forfeit_snapshot option \<Rightarrow> blocklist \<Rightarrow> blocklist" where
  "blocklist_load C now file l =
     (case file of
        None \<Rightarrow> l
      | Some snap \<Rightarrow>
          if snap_version snap \<noteq> SNAPSHOT_VERSION then l
          else let ms = fold match_put (snap_matches snap) []
               in snd (blocklist_prune C now
                    (l\<lparr> last_feed_sequence := snap_last_feed_sequence snap,
                       blocked_events_total := snap_blocked_events_total snap,
                       recent_blocked := snap_recent_blocked snap,
                       bl_matches := ms, bl_index := build_index C ms \<rparr>)))"

subsection \<open>The ordered map\<close>

abbreviation match_ids :: "blocked_match list \<Rightarrow> u64 list" where
  "match_ids ms \<equiv> map pandascore_match_id ms"

abbreviation ordered :: "blocked_match list \<Rightarrow> bool" where
  "ordered ms \<equiv> sorted_wrt (<) (match_ids ms)"

lemma match_put_ids: "set (match_ids (match_put v ms)) = insert (pandascore_match_id v) (set (match_ids ms))"
  by (induction ms) auto

lemma ordered_match_put: "ordered ms \<Longrightarrow> ordered (match_put v ms)"
proof (induction ms)
  case (Cons m ms)
  then show ?case
    using match_put_ids [of v ms] by (auto simp: not_less_iff_gr_or_eq)
qed simp

lemma match_get_notin: "k \<notin> set (match_ids ms) \<Longrightarrow> match_get k ms = None"
  by (induction ms) auto

lemma match_get_put:
  "ordered ms \<Longrightarrow> match_get k (match_put v ms) = (if k = pandascore_match_id v then Some v else match_get k ms)"
  by (induction ms) (auto simp: match_get_notin)

lemma match_get_Some: "ordered ms \<Longrightarrow> match_get k ms = Some m \<longleftrightarrow> m \<in> set ms \<and> pandascore_match_id m = k"
  by (induction ms) (auto simp: image_iff)

lemma set_match_put:
  "ordered ms \<Longrightarrow> set (match_put v ms) = insert v {x \<in> set ms. pandascore_match_id x \<noteq> pandascore_match_id v}"
  by (induction ms) auto

lemma Union_match_get:
  assumes "ordered ms"
  shows "(\<Union>m\<in>set ms. f m) =
    (case match_get k ms of None \<Rightarrow> {} | Some m \<Rightarrow> f m) \<union> (\<Union>m\<in>{x \<in> set ms. pandascore_match_id x \<noteq> k}. f m)"
proof (cases "match_get k ms")
  case None
  then have "\<forall>m\<in>set ms. pandascore_match_id m \<noteq> k" using match_get_Some [OF assms, of k] by auto
  with None show ?thesis by auto
next
  case (Some m)
  then have "set ms = insert m {x \<in> set ms. pandascore_match_id x \<noteq> k}"
    using match_get_Some [OF assms, of k] by (auto, metis option.inject)
  then have "(\<Union>x\<in>set ms. f x) = (\<Union>x\<in>insert m {x \<in> set ms. pandascore_match_id x \<noteq> k}. f x)" by (rule arg_cong)
  with Some show ?thesis by simp
qed

lemma ordered_filter: "ordered ms \<Longrightarrow> ordered (filter Q ms)"
  by (simp add: sorted_wrt_map sorted_wrt_filter)

lemma match_get_filter:
  assumes "ordered ms"
  shows "match_get k (filter Q ms) = (case match_get k ms of None \<Rightarrow> None | Some m \<Rightarrow> if Q m then Some m else None)"
proof (cases "match_get k ms")
  case None
  then have "k \<notin> set (match_ids ms)" using match_get_Some [OF assms, of k] by auto
  then show ?thesis using None by (auto intro!: match_get_notin)
next
  case (Some m)
  then have m: "m \<in> set ms" "pandascore_match_id m = k" by (simp_all add: match_get_Some [OF assms])
  show ?thesis
  proof (cases "Q m")
    case True
    with m Some show ?thesis by (simp add: match_get_Some [OF ordered_filter [OF assms]])
  next
    case False
    have "k \<notin> set (match_ids (filter Q ms))"
      using False Some match_get_Some [OF assms, of k] by (auto, metis option.inject)
    with False Some show ?thesis by (simp add: match_get_notin)
  qed
qed

lemma fold_match_put_ordered: "ordered ms \<Longrightarrow> ordered (fold match_put xs ms)"
  by (induction xs arbitrary: ms) (simp_all add: ordered_match_put)

text \<open>Reading back the values of an ordered map gives the map.\<close>

lemma match_put_last: "\<forall>x\<in>set ms. pandascore_match_id x < pandascore_match_id m \<Longrightarrow> match_put m ms = ms @ [m]"
  by (induction ms) (auto dest: less_not_sym)

lemma fold_match_put_self: "ordered (xs @ ms) \<Longrightarrow> fold match_put ms xs = xs @ ms"
proof (induction ms arbitrary: xs)
  case (Cons m ms)
  then have "match_put m xs = xs @ [m]" by (intro match_put_last) (auto simp: sorted_wrt_append)
  with Cons show ?case by simp
qed simp

subsection \<open>Ids and index\<close>

definition ids_of :: "crypto \<Rightarrow> blocked_match \<Rightarrow> bytes set" where
  "ids_of C m = {i. length i = 32 \<and> hex_prefixed C i \<in> bm_condition_id ` set (markets m)}"

definition event_ids :: "forfeit_event \<Rightarrow> bytes set" where
  "event_ids ev = {i. length i = 32 \<and> (i \<in> fm_condition_id ` set (fe_markets ev) \<or> i \<in> set (fe_condition_ids ev))}"

definition hex_markets :: "crypto \<Rightarrow> blocked_match \<Rightarrow> bool" where
  "hex_markets C m \<longleftrightarrow> (\<forall>k\<in>set (markets m). \<exists>i. length i = 32 \<and> bm_condition_id k = hex_prefixed C i)"

lemma hex_prefixed_inj [simp]: "crypto_ok C \<Longrightarrow> hex_prefixed C i = hex_prefixed C j \<longleftrightarrow> i = j"
  unfolding hex_prefixed_def crypto_ok_def by (metis append_eq_append_conv option.inject)

lemma hex_prefixed_decode: "crypto_ok C \<Longrightarrow> hex_decode C (trim_start_0x (hex_prefixed C i)) = Some i"
  unfolding hex_prefixed_def crypto_ok_def by (simp add: trim_start_0x_no_x)

lemma dom_index_insert: "dom (index_insert e i index) = insert i (dom index)"
  by (auto simp: index_insert_def split: option.splits)

lemma dom_fold_index_insert: "dom (fold (index_insert e) ids index) = set ids \<union> dom index"
  by (induction ids arbitrary: index) (auto simp: dom_index_insert)

lemma dom_index_markets:
  assumes "crypto_ok C" "\<forall>k\<in>set ks. \<exists>i. length i = 32 \<and> bm_condition_id k = hex_prefixed C i"
  shows "dom (fold (index_market C m) ks index) =
    {i. length i = 32 \<and> hex_prefixed C i \<in> bm_condition_id ` set ks} \<union> dom index"
  using assms(2)
proof (induction ks arbitrary: index)
  case (Cons k ks)
  then obtain i where i: "length i = 32" "bm_condition_id k = hex_prefixed C i" by auto
  with Cons assms(1) show ?case
    by (auto simp: index_market_def hex_prefixed_decode dom_index_insert)
qed simp

lemma dom_build_index:
  assumes "crypto_ok C" "\<forall>m\<in>set ms. hex_markets C m"
  shows "dom (build_index C ms) = (\<Union>m\<in>set ms. ids_of C m)"
proof -
  have "dom (fold (\<lambda>m. fold (index_market C m) (markets m)) ms index) = (\<Union>m\<in>set ms. ids_of C m) \<union> dom index"
    for index
    using assms(2)
    by (induction ms arbitrary: index) (auto simp: dom_index_markets [OF assms(1)] hex_markets_def ids_of_def)
  then show ?thesis by (simp add: build_index_def)
qed

text \<open>The two loops together add the ids of the event the match does not have.\<close>

lemma add_markets_spec:
  assumes "crypto_ok C" "add_markets C known ms (mk, new) = (mk', new')"
  shows "set new' = set new \<union> {i \<in> fm_condition_id ` set ms. length i = 32 \<and> hex_prefixed C i \<notin> known}"
    "bm_condition_id ` set mk' = bm_condition_id ` set mk \<union>
       hex_prefixed C ` {i \<in> fm_condition_id ` set ms. length i = 32 \<and> hex_prefixed C i \<notin> known}"
  using assms(2)
proof (induction ms arbitrary: mk new)
  case (Cons m ms)
  { case 1 with Cons.IH(1) show ?case by (auto simp: Let_def split: if_splits) }
  { case 2 with Cons.IH(2) show ?case by (auto simp: Let_def split: if_splits) }
qed auto

lemma add_condition_ids_spec:
  assumes "crypto_ok C" "hex_prefixed C ` set new \<subseteq> bm_condition_id ` set mk"
    and "add_condition_ids C known ids (mk, new) = (mk', new')"
  shows "set new' = set new \<union> {i \<in> set ids. length i = 32 \<and> hex_prefixed C i \<notin> known} \<and>
    bm_condition_id ` set mk' = bm_condition_id ` set mk \<union> hex_prefixed C ` set new'"
  using assms(2,3)
proof (induction ids arbitrary: mk new)
  case (Cons i ids)
  show ?case
  proof (cases "length i = 32 \<and> hex_prefixed C i \<notin> known \<and> i \<notin> set new")
    case False
    then have "add_condition_ids C known ids (mk, new) = (mk', new')"
      using Cons.prems(2) by (auto simp: Let_def split: if_splits)
    with Cons.IH [OF Cons.prems(1)] False show ?thesis by auto
  next
    case True
    let ?m = "\<lparr> bm_condition_id = hex_prefixed C i, sports_market_type = [], game_number = 0, question = [],
      is_forfeited_market = False \<rparr>"
    have "add_condition_ids C known ids (mk @ [?m], new @ [i]) = (mk', new')"
      using True Cons.prems(2) by (simp add: Let_def)
    moreover have "hex_prefixed C ` set (new @ [i]) \<subseteq> bm_condition_id ` set (mk @ [?m])"
      using Cons.prems(1) by auto
    ultimately have "set new' = set (new @ [i]) \<union> {i \<in> set ids. length i = 32 \<and> hex_prefixed C i \<notin> known} \<and>
        bm_condition_id ` set mk' = bm_condition_id ` set (mk @ [?m]) \<union> hex_prefixed C ` set new'"
      by (rule Cons.IH [rotated])
    with True show ?thesis by auto
  qed
qed auto

lemma hex_markets_image: "hex_markets C m \<Longrightarrow> bm_condition_id ` set (markets m) = hex_prefixed C ` ids_of C m"
  unfolding hex_markets_def ids_of_def by (auto simp: image_iff) metis

lemma merge_into_ids:
  assumes C: "crypto_ok C" and m: "merge_into C status now ev is_new b0 = (b, new_ids, changed)"
    and b0: "hex_markets C b0"
  shows "set new_ids = event_ids ev - ids_of C b0" "ids_of C b = ids_of C b0 \<union> event_ids ev" "hex_markets C b"
    "pandascore_match_id b = pandascore_match_id b0" "added_at_us b = added_at_us b0"
proof -
  let ?known = "set (map bm_condition_id (markets b0))" and ?ids = "ids_of C b0"
  obtain mk1 new1 where a1: "add_markets C ?known (fe_markets ev) (markets b0, []) = (mk1, new1)" by fastforce
  obtain mk2 new2 where a2: "add_condition_ids C ?known (fe_condition_ids ev) (mk1, new1) = (mk2, new2)" by fastforce
  note s1 = add_markets_spec [OF C a1]
  have s2: "set new2 = set new1 \<union> {i \<in> set (fe_condition_ids ev). length i = 32 \<and> hex_prefixed C i \<notin> ?known}"
    "bm_condition_id ` set mk2 = bm_condition_id ` set mk1 \<union> hex_prefixed C ` set new2"
    using add_condition_ids_spec [OF C _ a2] s1 by auto
  obtain c1 games where p1: "push_sorted (fe_forfeited_game_number ev) (forfeited_games b0) = (c1, games)" by fastforce
  obtain c2 seqs where p2: "push_sorted (fe_sequence ev) (feed_sequences b0) = (c2, seqs)" by fastforce
  from m show "pandascore_match_id b = pandascore_match_id b0" "added_at_us b = added_at_us b0"
    unfolding merge_into_def Let_def p1 p2 prod.case a1 a2 by auto
  from m have mb: "new_ids = new2"
    "markets b = (if new2 \<noteq> [] then sort_key (\<lambda>m. (game_number m, sports_market_type m)) mk2 else mk2)"
    unfolding merge_into_def Let_def p1 p2 prod.case a1 a2 by auto
  then have b: "new_ids = new2" "set (markets b) = set mk2" by simp_all
  note known = hex_markets_image [OF b0]
  have new: "set new2 = event_ids ev - ?ids"
    using s1(1) s2(1) by (auto simp: event_ids_def ids_of_def)
  then show "set new_ids = event_ids ev - ?ids" by (simp add: b)
  have mk: "bm_condition_id ` set (markets b) = hex_prefixed C ` (?ids \<union> event_ids ev)"
  proof -
    have "bm_condition_id ` set mk1 = hex_prefixed C ` (?ids \<union> set new1)"
      unfolding s1(2) known s1(1) by (simp add: image_Un)
    moreover have "set new1 \<subseteq> set new2" unfolding s2(1) by blast
    ultimately show ?thesis using s2(2) new by (auto simp: b)
  qed
  have l: "\<forall>i\<in>?ids \<union> event_ids ev. length i = 32" by (auto simp: ids_of_def event_ids_def)
  with mk C show "ids_of C b = ?ids \<union> event_ids ev" by (auto simp: ids_of_def [of C b])
  from l mk show "hex_markets C b"
    unfolding hex_markets_def by (metis (no_types, lifting) image_iff)
qed

lemma new_match_simps [simp]:
  "pandascore_match_id (new_match status now ev) = fe_match_id ev" "added_at_us (new_match status now ev) = now"
  "hex_markets C (new_match status now ev)" "ids_of C (new_match status now ev) = {}"
  by (simp_all add: new_match_def hex_markets_def ids_of_def)

subsection \<open>The specification\<close>

text \<open>
  A blocklist promises a map from match to the time it was first seen and the
  condition ids named for it since.
\<close>

type_synonym block_spec = "u64 \<rightharpoonup> u64 \<times> bytes set"

definition spec_apply :: "u64 \<Rightarrow> forfeit_event \<Rightarrow> block_spec \<Rightarrow> block_spec" where
  "spec_apply now ev S =
     S(fe_match_id ev \<mapsto>
        (case S (fe_match_id ev) of None \<Rightarrow> (now, event_ids ev) | Some (t, ids) \<Rightarrow> (t, ids \<union> event_ids ev)))"

definition spec_prune :: "u64 \<Rightarrow> u64 \<Rightarrow> block_spec \<Rightarrow> block_spec" where
  "spec_prune ttl now S =
     (if ttl = 0 then S
      else (\<lambda>k. case S k of None \<Rightarrow> None | Some (t, ids) \<Rightarrow> if saturating_add t ttl > now then Some (t, ids) else None))"

definition spec_blocked :: "block_spec \<Rightarrow> bytes \<Rightarrow> bool" where
  "spec_blocked S i \<longleftrightarrow> (\<exists>k t ids. S k = Some (t, ids) \<and> i \<in> ids)"

definition blocklist_abs :: "crypto \<Rightarrow> blocklist \<Rightarrow> block_spec" where
  "blocklist_abs C l = (\<lambda>k. map_option (\<lambda>b. (added_at_us b, ids_of C b)) (match_get k (bl_matches l)))"

definition blocklist_ok :: "crypto \<Rightarrow> blocklist \<Rightarrow> bool" where
  "blocklist_ok C l \<longleftrightarrow> ordered (bl_matches l) \<and> (\<forall>m\<in>set (bl_matches l). hex_markets C m) \<and>
     dom (bl_index l) = (\<Union>m\<in>set (bl_matches l). ids_of C m)"

lemma blocklist_ok_lookup:
  assumes "blocklist_ok C l" "bl_enabled l"
  shows "blocklist_lookup i l \<noteq> None \<longleftrightarrow> spec_blocked (blocklist_abs C l) i"
proof -
  have "blocklist_lookup i l \<noteq> None \<longleftrightarrow> (\<exists>m\<in>set (bl_matches l). i \<in> ids_of C m)"
    using assms by (auto simp: blocklist_lookup_def blocklist_ok_def dom_def)
  moreover have "match_get (pandascore_match_id m) (bl_matches l) = Some m" if "m \<in> set (bl_matches l)" for m
    using assms(1) that by (simp add: blocklist_ok_def match_get_Some)
  moreover have "m \<in> set (bl_matches l)" if "match_get k (bl_matches l) = Some m" for k m
    using assms(1) that by (simp add: blocklist_ok_def match_get_Some)
  ultimately show ?thesis unfolding spec_blocked_def blocklist_abs_def by fastforce
qed

lemma blocklist_apply_refines:
  assumes C: "crypto_ok C" and ok: "blocklist_ok C l"
  shows "blocklist_ok C (snd (blocklist_apply C try_from now ev l)) \<and>
    blocklist_abs C (snd (blocklist_apply C try_from now ev l)) = spec_apply now ev (blocklist_abs C l)"
proof -
  let ?s = "status_text try_from (fe_lookup_status ev)" and ?k = "fe_match_id ev"
  let ?old = "match_get ?k (bl_matches l)"
  let ?b0 = "case ?old of Some b \<Rightarrow> b | None \<Rightarrow> new_match ?s now ev"
  obtain b new_ids changed where m: "merge_into C ?s now ev (?old = None) ?b0 = (b, new_ids, changed)"
    by (metis prod_cases3)
  have o: "ordered (bl_matches l)" "\<forall>m\<in>set (bl_matches l). hex_markets C m"
    "dom (bl_index l) = (\<Union>m\<in>set (bl_matches l). ids_of C m)"
    using ok by (simp_all add: blocklist_ok_def)
  have old: "m \<in> set (bl_matches l) \<and> pandascore_match_id m = ?k" if "?old = Some m" for m
    using that by (simp add: match_get_Some [OF o(1)])
  have b0: "hex_markets C ?b0" "pandascore_match_id ?b0 = ?k"
    using old o(2) by (auto split: option.splits)
  note mi = merge_into_ids [OF C m b0(1)]
  have id_b: "pandascore_match_id b = ?k" using mi(4) b0(2) by simp
  let ?l = "snd (blocklist_apply C try_from now ev l)"
  have l': "bl_matches ?l = match_put b (bl_matches l)" "dom (bl_index ?l) = set new_ids \<union> dom (bl_index l)"
    by (simp_all add: blocklist_apply_def merge_match_def m Let_def dom_fold_index_insert)
  have ord: "ordered (match_put b (bl_matches l))" by (rule ordered_match_put [OF o(1)])
  note mem = set_match_put [OF o(1), of b, unfolded id_b]
  have ids0: "ids_of C ?b0 = (case ?old of None \<Rightarrow> {} | Some m \<Rightarrow> ids_of C m)" by (simp split: option.splits)
  have dom: "dom (bl_index ?l) = (\<Union>m\<in>set (bl_matches ?l). ids_of C m)"
    unfolding l' mem using o(3) Union_match_get [OF o(1), of "ids_of C" ?k] ids0 mi(1,2) by auto
  have "blocklist_ok C ?l"
    unfolding blocklist_ok_def using ord dom mi(3) mem o(2) by (auto simp: l')
  moreover have "blocklist_abs C ?l = spec_apply now ev (blocklist_abs C l)"
    using mi(2,5) ids0
    by (auto simp: blocklist_abs_def spec_apply_def l' match_get_put [OF o(1)] id_b split: option.splits)
  ultimately show ?thesis by simp
qed

lemma blocklist_prune_refines:
  assumes C: "crypto_ok C" and ok: "blocklist_ok C l"
  shows "blocklist_ok C (snd (blocklist_prune C now l)) \<and>
    blocklist_abs C (snd (blocklist_prune C now l)) = spec_prune (ttl_us l) now (blocklist_abs C l)"
proof (cases "ttl_us l = 0")
  case True
  with ok show ?thesis by (simp add: blocklist_prune_def spec_prune_def)
next
  case False
  let ?kept = "filter (live_match (ttl_us l) now) (bl_matches l)" and ?l = "snd (blocklist_prune C now l)"
  have o: "ordered (bl_matches l)" "\<forall>m\<in>set (bl_matches l). hex_markets C m"
    "dom (bl_index l) = (\<Union>m\<in>set (bl_matches l). ids_of C m)"
    using ok by (simp_all add: blocklist_ok_def)
  have kept: "bl_matches ?l = ?kept" using False by (simp add: blocklist_prune_def Let_def)
  have "dom (bl_index ?l) = (\<Union>m\<in>set ?kept. ids_of C m)"
  proof (cases "length ?kept < length (bl_matches l)")
    case True
    have "\<forall>m\<in>set ?kept. hex_markets C m" using o(2) by simp
    with True False show ?thesis by (simp add: blocklist_prune_def Let_def dom_build_index [OF C])
  next
    case False
    then have "?kept = bl_matches l"
      by (metis filter_id_conv length_filter_less)
    with \<open>ttl_us l \<noteq> 0\<close> o(3) show ?thesis by (simp add: blocklist_prune_def Let_def)
  qed
  then have "blocklist_ok C ?l"
    using o ordered_filter [OF o(1)] by (simp add: blocklist_ok_def kept)
  moreover have "blocklist_abs C ?l = spec_prune (ttl_us l) now (blocklist_abs C l)"
    using False
    by (auto simp: blocklist_abs_def spec_prune_def kept match_get_filter [OF o(1)] live_match_def fun_eq_iff
        split: option.splits)
  ultimately show ?thesis by simp
qed

lemma record_blocked_refines:
  assumes "blocklist_ok C l"
  shows "blocklist_ok C (record_blocked C now r k l) \<and> blocklist_abs C (record_blocked C now r k l) = blocklist_abs C l"
proof (cases "match_get k (bl_matches l)")
  case None
  with assms show ?thesis by (simp add: record_blocked_def blocklist_ok_def blocklist_abs_def)
next
  case (Some b)
  have o: "ordered (bl_matches l)" using assms by (simp add: blocklist_ok_def)
  let ?b = "b\<lparr> blocked_events := blocked_events b + 1 \<rparr>"
  have b: "b \<in> set (bl_matches l)" "pandascore_match_id b = k" using Some by (simp_all add: match_get_Some [OF o])
  have ids: "ids_of C ?b = ids_of C b" "hex_markets C ?b = hex_markets C b"
    by (simp_all add: ids_of_def hex_markets_def)
  have "(\<Union>m\<in>set (match_put ?b (bl_matches l)). ids_of C m) = (\<Union>m\<in>set (bl_matches l). ids_of C m)"
    using Union_match_get [OF o, of "ids_of C" k] Some b(2) ids by (simp add: set_match_put [OF o])
  with assms Some b ids show ?thesis
    by (auto simp: record_blocked_def blocklist_ok_def blocklist_abs_def ordered_match_put match_get_put set_match_put
        fun_eq_iff)
qed

datatype forfeit_op = FeedEvent u64 forfeit_event | PruneAt u64 | BlockedEvent u64 event_record u64

fun forfeit_step :: "crypto \<Rightarrow> (i32 \<Rightarrow> pb_lookup_status option) \<Rightarrow> forfeit_op \<Rightarrow> blocklist \<Rightarrow> blocklist" where
  "forfeit_step C try_from (FeedEvent now ev) l = snd (blocklist_apply C try_from now ev l)"
| "forfeit_step C try_from (PruneAt now) l = snd (blocklist_prune C now l)"
| "forfeit_step C try_from (BlockedEvent now r k) l = record_blocked C now r k l"

fun spec_step :: "u64 \<Rightarrow> forfeit_op \<Rightarrow> block_spec \<Rightarrow> block_spec" where
  "spec_step ttl (FeedEvent now ev) S = spec_apply now ev S"
| "spec_step ttl (PruneAt now) S = spec_prune ttl now S"
| "spec_step ttl (BlockedEvent _ _ _) S = S"

lemma forfeit_step_simps [simp]:
  "bl_enabled (forfeit_step C try_from op l) = bl_enabled l" "ttl_us (forfeit_step C try_from op l) = ttl_us l"
  by (cases op; simp add: blocklist_apply_def blocklist_prune_def record_blocked_def Let_def split: prod.splits)+

lemma forfeit_run:
  assumes "crypto_ok C" "blocklist_ok C l"
  shows "blocklist_ok C (fold (forfeit_step C try_from) ops l) \<and>
    blocklist_abs C (fold (forfeit_step C try_from) ops l) = fold (spec_step (ttl_us l)) ops (blocklist_abs C l) \<and>
    bl_enabled (fold (forfeit_step C try_from) ops l) = bl_enabled l"
  using assms(2)
proof (induction ops arbitrary: l)
  case (Cons op ops)
  have "blocklist_ok C (forfeit_step C try_from op l) \<and>
      blocklist_abs C (forfeit_step C try_from op l) = spec_step (ttl_us l) op (blocklist_abs C l)"
    using blocklist_apply_refines [OF assms(1) Cons.prems] blocklist_prune_refines [OF assms(1) Cons.prems]
      record_blocked_refines [OF Cons.prems] by (cases op) simp_all
  with Cons.IH [of "forfeit_step C try_from op l"] show ?case by simp
qed simp

lemma blocklist_empty_ok: "blocklist_ok C (blocklist_empty en ttl)" "blocklist_abs C (blocklist_empty en ttl) = Map.empty"
  by (simp_all add: blocklist_ok_def blocklist_empty_def blocklist_abs_def fun_eq_iff)


text \<open>
  a restart keeps the blocklist.  Saving the list and loading it into a fresh
  one blocks exactly the ids of the matches that have not expired by then; the feed
  position and the counters survive as well.
\<close>

theorem blocklist_restart:
  assumes "crypto_ok C" "l = fold (forfeit_step C try_from) ops (blocklist_empty True ttl)"
    and "l' = blocklist_load C now (Some (snapshot_of l)) (blocklist_empty True ttl)"
  shows "blocklist_abs C l' = spec_prune ttl now (blocklist_abs C l) \<and>
    (blocklist_lookup i l' \<noteq> None \<longleftrightarrow> spec_blocked (spec_prune ttl now (blocklist_abs C l)) i) \<and>
    last_feed_sequence l' = last_feed_sequence l \<and> blocked_events_total l' = blocked_events_total l \<and>
    recent_blocked l' = recent_blocked l"
proof -
  have ok: "blocklist_ok C l"
    using forfeit_run [OF assms(1) blocklist_empty_ok(1), of try_from ops True ttl] assms(2) by simp
  let ?l0 = "(blocklist_empty True ttl)\<lparr> last_feed_sequence := last_feed_sequence l,
      blocked_events_total := blocked_events_total l, recent_blocked := recent_blocked l,
      bl_matches := bl_matches l, bl_index := build_index C (bl_matches l) \<rparr>"
  have "fold match_put (bl_matches l) [] = bl_matches l"
    using ok fold_match_put_self [of "[]" "bl_matches l"] by (simp add: blocklist_ok_def)
  then have l': "l' = snd (blocklist_prune C now ?l0)"
    by (simp add: assms(3) blocklist_load_def snapshot_of_def SNAPSHOT_VERSION_def Let_def)
  have ok0: "blocklist_ok C ?l0" "blocklist_abs C ?l0 = blocklist_abs C l" "ttl_us ?l0 = ttl"
    using ok by (simp_all add: blocklist_ok_def dom_build_index [OF assms(1)] blocklist_abs_def blocklist_empty_def)
  note pr = blocklist_prune_refines [OF assms(1) ok0(1), of now, folded l']
  have en: "bl_enabled l'" "last_feed_sequence l' = last_feed_sequence l"
    "blocked_events_total l' = blocked_events_total l" "recent_blocked l' = recent_blocked l"
    by (simp_all add: l' blocklist_prune_def Let_def blocklist_empty_def)
  from pr ok0 en blocklist_ok_lookup [of C l' i] show ?thesis by simp
qed

subsection \<open>Repeated pushes\<close>

lemma add_markets_known:
  assumes "\<forall>i\<in>fm_condition_id ` set ms. length i = 32 \<longrightarrow> hex_prefixed C i \<in> known"
  shows "add_markets C known ms acc = acc"
  using assms by (induction ms) (cases acc; auto simp: Let_def)+

lemma add_condition_ids_known:
  assumes "\<forall>i\<in>set ids. length i = 32 \<longrightarrow> hex_prefixed C i \<in> known"
  shows "add_condition_ids C known ids acc = acc"
  using assms by (induction ids) (cases acc; auto simp: Let_def)+

lemma merge_into_known:
  assumes "fe_forfeited_game_number ev \<in> set (forfeited_games b)" "fe_sequence ev \<in> set (feed_sequences b)"
    and "lookup_status b = ''matched'' \<or> lookup_status b = status"
    and "fe_pm_event_slug ev = [] \<or> pm_event_slug b = fe_pm_event_slug ev"
    and "event_ids ev \<subseteq> ids_of C b"
  shows "merge_into C status now ev False b = (b, [], False)"
proof -
  let ?known = "set (map bm_condition_id (markets b))"
  have "add_markets C ?known (fe_markets ev) (markets b, []) = (markets b, [])"
    using assms(5) by (intro add_markets_known) (auto simp: event_ids_def ids_of_def)
  moreover have "add_condition_ids C ?known (fe_condition_ids ev) (markets b, []) = (markets b, [])"
    using assms(5) by (intro add_condition_ids_known) (auto simp: event_ids_def ids_of_def)
  ultimately show ?thesis
    using assms(1-4) by (cases b) (auto simp: merge_into_def push_sorted_def Let_def)
qed

lemma merge_into_result:
  assumes m: "merge_into C status now ev is_new b0 = (b, new_ids, changed)"
  shows "fe_forfeited_game_number ev \<in> set (forfeited_games b)" "fe_sequence ev \<in> set (feed_sequences b)"
    "lookup_status b = ''matched'' \<or> lookup_status b = status"
    "fe_pm_event_slug ev = [] \<or> pm_event_slug b = fe_pm_event_slug ev"
proof -
  obtain mk new where a: "add_condition_ids C (set (map bm_condition_id (markets b0))) (fe_condition_ids ev)
      (add_markets C (set (map bm_condition_id (markets b0))) (fe_markets ev) (markets b0, [])) = (mk, new)"
    by fastforce
  obtain c1 games where p1: "push_sorted (fe_forfeited_game_number ev) (forfeited_games b0) = (c1, games)" by fastforce
  obtain c2 seqs where p2: "push_sorted (fe_sequence ev) (feed_sequences b0) = (c2, seqs)" by fastforce
  have "fe_forfeited_game_number ev \<in> set games" "fe_sequence ev \<in> set seqs"
    using p1 p2 by (auto simp: push_sorted_def split: if_splits)
  have b: "b = fst (merge_into C status now ev is_new b0)" by (simp add: m)
  have r: "forfeited_games b = games" "feed_sequences b = seqs"
    "lookup_status b = (if lookup_status b0 \<noteq> ''matched'' \<and> lookup_status b0 \<noteq> status then status else lookup_status b0)"
    "pm_event_slug b = (if fe_pm_event_slug ev \<noteq> [] \<and> pm_event_slug b0 \<noteq> fe_pm_event_slug ev
       then fe_pm_event_slug ev else pm_event_slug b0)"
    unfolding b merge_into_def Let_def p1 p2 prod.case a by simp_all
  show "fe_forfeited_game_number ev \<in> set (forfeited_games b)" "fe_sequence ev \<in> set (feed_sequences b)"
    by (simp_all add: r \<open>fe_forfeited_game_number ev \<in> set games\<close> \<open>fe_sequence ev \<in> set seqs\<close>)
  show "lookup_status b = ''matched'' \<or> lookup_status b = status" by (auto simp: r(3))
  show "fe_pm_event_slug ev = [] \<or> pm_event_slug b = fe_pm_event_slug ev" by (auto simp: r(4))
qed

lemma match_put_again: "ordered ms \<Longrightarrow> match_put v (match_put v ms) = match_put v ms"
  by (induction ms) auto

text \<open>
  merging is idempotent: a feed event pushed again, at any later time, changes
  nothing and reports no change.
\<close>

theorem blocklist_apply_idempotent:
  assumes "crypto_ok C" "l = fold (forfeit_step C try_from) ops (blocklist_empty True ttl)"
    and "l' = snd (blocklist_apply C try_from now ev l)"
  shows "blocklist_apply C try_from later ev l' = (False, l')"
proof -
  have ok: "blocklist_ok C l"
    using forfeit_run [OF assms(1) blocklist_empty_ok(1), of try_from ops True ttl] assms(2) by simp
  then have o: "ordered (bl_matches l)" by (simp add: blocklist_ok_def)
  let ?s = "status_text try_from (fe_lookup_status ev)" and ?old = "match_get (fe_match_id ev) (bl_matches l)"
  let ?b0 = "case ?old of Some b \<Rightarrow> b | None \<Rightarrow> new_match ?s now ev"
  obtain b new_ids changed where m: "merge_into C ?s now ev (?old = None) ?b0 = (b, new_ids, changed)"
    by (metis prod_cases3)
  have b0: "hex_markets C ?b0" "pandascore_match_id ?b0 = fe_match_id ev"
    using ok match_get_Some [OF o] by (auto simp: blocklist_ok_def split: option.splits)
  note mi = merge_into_ids [OF assms(1) m b0(1)]
  have l': "bl_matches l' = match_put b (bl_matches l)"
    "last_feed_sequence l' = max (last_feed_sequence l) (fe_sequence ev)"
    by (simp_all add: assms(3) blocklist_apply_def merge_match_def m Let_def)
  then have "match_get (fe_match_id ev) (bl_matches l') = Some b"
    using mi(4) b0(2) by (simp add: match_get_put [OF o])
  moreover have "merge_into C ?s later ev False b = (b, [], False)"
    using merge_into_result [OF m] mi(2) by (intro merge_into_known) auto
  ultimately show ?thesis
    by (simp add: blocklist_apply_def merge_match_def l' match_put_again [OF o] max.assoc)
qed

subsection \<open>Expiry and merging at the same time\<close>

text \<open>
  The saver's \<open>prune\<close> builds the new index under the state lock, releases it and only
  then replaces the index, so an \<open>apply\<close> of the feed session can run in between.
\<close>

definition prune_begin :: "crypto \<Rightarrow> u64 \<Rightarrow> blocklist \<Rightarrow> (bytes \<rightharpoonup> index_entry) \<times> blocklist" where
  "prune_begin C now l =
     (let kept = filter (live_match (ttl_us l) now) (bl_matches l)
      in (build_index C kept, l\<lparr> bl_matches := kept \<rparr>))"

definition prune_end :: "(bytes \<rightharpoonup> index_entry) \<Rightarrow> blocklist \<Rightarrow> blocklist" where
  "prune_end index l = l\<lparr> bl_index := index \<rparr>"

text \<open>
  C19: a feed event merged between the two halves of an expiry is not blocked
  afterwards.  When at least one match expires, the two halves alone are the
  expiry; with the event in between, an id that only this event announces is in
  the list of matches and yet not found by the lookup.
\<close>

theorem prune_race_loses_block:
  assumes "crypto_ok C" "blocklist_ok C l" "bl_enabled l" "ttl_us l > 0"
    and "\<exists>m\<in>set (bl_matches l). \<not> live_match (ttl_us l) now m"
    and "i \<in> event_ids ev" "\<forall>m\<in>set (bl_matches l). i \<notin> ids_of C m"
    and "prune_begin C now l = (index, l1)"
  shows "snd (blocklist_prune C now l) = prune_end index l1 \<and>
    (let l2 = prune_end index (snd (blocklist_apply C try_from at ev l1))
     in spec_blocked (blocklist_abs C l2) i \<and> blocklist_lookup i l2 = None)"
proof -
  let ?kept = "filter (live_match (ttl_us l) now) (bl_matches l)"
  have pb: "index = build_index C ?kept" "l1 = l\<lparr> bl_matches := ?kept \<rparr>"
    using assms(8) by (simp_all add: prune_begin_def Let_def)
  have "length ?kept < length (bl_matches l)" using assms(5) by (auto intro: length_filter_less)
  with assms(4) have pr: "snd (blocklist_prune C now l) = prune_end index l1"
    by (simp add: blocklist_prune_def prune_end_def pb Let_def)
  then have ok1: "blocklist_ok C (prune_end index l1)"
    using blocklist_prune_refines [OF assms(1,2), of now] by simp
  let ?l2 = "prune_end index (snd (blocklist_apply C try_from at ev l1))"
  have "bl_matches ?l2 = bl_matches (snd (blocklist_apply C try_from at ev (prune_end index l1)))"
    by (simp add: prune_end_def blocklist_apply_def Let_def split: prod.splits)
  then have "blocklist_abs C ?l2 = spec_apply at ev (blocklist_abs C (prune_end index l1))"
    using blocklist_apply_refines [OF assms(1) ok1] by (simp add: blocklist_abs_def)
  then have "spec_blocked (blocklist_abs C ?l2) i"
    using assms(6) by (auto simp: spec_blocked_def spec_apply_def split: option.splits)
  moreover have "index i = None"
    using assms(2,7) dom_build_index [OF assms(1), of ?kept] by (auto simp: pb blocklist_ok_def)
  then have "blocklist_lookup i ?l2 = None" by (simp add: blocklist_lookup_def prune_end_def)
  ultimately show ?thesis using pr by (simp add: Let_def)
qed

subsection \<open>Sample events\<close>

definition sample_forfeit :: "u64 \<Rightarrow> u64 \<Rightarrow> bytes list \<Rightarrow> forfeit_event" where
  "sample_forfeit n k ids =
     \<lparr> fe_sequence = n, fe_match_id = k, fe_game = ''cs2'', fe_league = [], fe_match_name = [], fe_team_a = ''a'',
       fe_team_b = ''b'', fe_winner = [], fe_forfeited_game_number = 1, fe_pm_event_slug = [], fe_lookup_status = 1,
       fe_markets = [], fe_condition_ids = ids, fe_detect_at_us = 3 \<rparr>"

abbreviation all_matched :: "i32 \<Rightarrow> pb_lookup_status option" where
  "all_matched \<equiv> \<lambda>_. Some LookupMatched"

abbreviation sample_ops :: "forfeit_op list" where
  "sample_ops \<equiv> [FeedEvent 5 (sample_forfeit 1 7 [replicate 32 9])]"

lemma sample_event_ids [simp]: "event_ids (sample_forfeit n k ids) = {i \<in> set ids. length i = 32}"
  by (auto simp: event_ids_def sample_forfeit_def)

lemma sample_match_id [simp]: "fe_match_id (sample_forfeit n k ids) = k"
  by (simp add: sample_forfeit_def)

lemma sample_spec: "fold (spec_step ttl) sample_ops Map.empty = [7 \<mapsto> (5, {replicate 32 9})]"
  by (simp add: spec_apply_def Collect_conv_if)

definition sample_list :: "u64 \<Rightarrow> blocklist" where
  "sample_list ttl = fold (forfeit_step sample_crypto all_matched) sample_ops (blocklist_empty True ttl)"

lemma sample_list_simps [simp]: "bl_enabled (sample_list ttl)" "ttl_us (sample_list ttl) = ttl"
  by (simp_all add: sample_list_def del: forfeit_step.simps) (simp_all add: blocklist_empty_def)

lemma sample_blocklist:
  "blocklist_abs sample_crypto (sample_list ttl) = [7 \<mapsto> (5, {replicate 32 9})]"
  "blocklist_ok sample_crypto (sample_list ttl)"
proof -
  have "ttl_us (blocklist_empty True ttl) = ttl" by (simp add: blocklist_empty_def)
  with forfeit_run [OF sample_crypto_ok blocklist_empty_ok(1), of all_matched sample_ops True ttl] sample_spec [of ttl]
  show "blocklist_abs sample_crypto (sample_list ttl) = [7 \<mapsto> (5, {replicate 32 9})]"
    "blocklist_ok sample_crypto (sample_list ttl)"
    unfolding sample_list_def blocklist_empty_ok(2) by metis+
qed


theorem blocklist_restart_witness:
  "blocklist_lookup (replicate 32 9)
     (blocklist_load sample_crypto 8 (Some (snapshot_of (sample_list 10))) (blocklist_empty True 10)) \<noteq> None \<and>
   blocklist_lookup (replicate 32 9)
     (blocklist_load sample_crypto 80 (Some (snapshot_of (sample_list 10))) (blocklist_empty True 10)) = None"
proof -
  note r = blocklist_restart [OF sample_crypto_ok sample_list_def [of 10] refl, where i = "replicate 32 9", unfolded sample_blocklist]
  have "spec_blocked (spec_prune 10 8 [7 \<mapsto> (5, {replicate 32 9})]) (replicate 32 9)"
    "\<not> spec_blocked (spec_prune 10 80 [7 \<mapsto> (5, {replicate 32 9})]) (replicate 32 9)"
    by (auto simp: spec_blocked_def spec_prune_def saturating_add_def split: if_splits option.splits)
  with r [of 8] r [of 80] show ?thesis by blast
qed

theorem blocklist_apply_idempotent_witness:
  "blocklist_apply sample_crypto all_matched 99 (sample_forfeit 2 7 [replicate 32 8])
     (snd (blocklist_apply sample_crypto all_matched 6 (sample_forfeit 2 7 [replicate 32 8])
       (sample_list 10))) =
   (False, snd (blocklist_apply sample_crypto all_matched 6 (sample_forfeit 2 7 [replicate 32 8])
       (sample_list 10)))"
  by (rule blocklist_apply_idempotent [OF sample_crypto_ok sample_list_def refl])

theorem prune_race_loses_block_witness:
  "\<exists>index l1. prune_begin sample_crypto 100 (sample_list 10) = (index, l1) \<and>
     blocklist_lookup (replicate 32 8)
       (prune_end index (snd (blocklist_apply sample_crypto all_matched 100 (sample_forfeit 2 6 [replicate 32 8]) l1))) = None"
proof -
  let ?l = "sample_list 10"
  have "\<exists>m. bl_matches ?l = [m]"
    by (simp add: sample_list_def blocklist_empty_def blocklist_apply_def Let_def split: prod.splits)
  then obtain m where m: "bl_matches ?l = [m]" ..
  have ids: "ids_of sample_crypto m = {replicate 32 9}" "added_at_us m = 5"
    using sample_blocklist(1) [of 10, THEN fun_cong, of "pandascore_match_id m"] m
    by (auto simp: blocklist_abs_def split: if_splits)
  have dead: "\<exists>m\<in>set (bl_matches ?l). \<not> live_match (ttl_us ?l) 100 m"
    by (simp add: m ids live_match_def saturating_add_def)
  have here: "replicate 32 8 \<in> event_ids (sample_forfeit 2 6 [replicate 32 8])"
    "\<forall>m\<in>set (bl_matches ?l). replicate 32 8 \<notin> ids_of sample_crypto m"
    by (simp_all add: m ids)
  obtain index l1 where pb: "prune_begin sample_crypto 100 ?l = (index, l1)" by fastforce
  from prune_race_loses_block [OF sample_crypto_ok sample_blocklist(2) _ _ dead here pb,
      where try_from = all_matched and at = 100] pb
  show ?thesis by (auto simp: Let_def)
qed

end
