(* ===== verification/Pipeline.thy ===== *)
theory Pipeline
  imports "HOL-Library.Multiset" Hub Catalog Journal Forfeit
begin

text \<open>
  \<open>pipeline.rs\<close> and the counters of \<open>stats.rs\<close>.  \<open>process\<close> is called concurrently, one
  task per upstream source, so it is three atomic parts: \<open>prepare\<close> (decode, duplicate
  test, enrichment, sequence number), \<open>admit\<close> (insertion into the event hub) and
  \<open>deliver\<close> (storage queue, forfeit list, batch queue).  \<open>process_log\<close> runs them in a
  row; the step relation interleaves them.  The batch channel is the list of all
  records sent into it; the storage channel is a queue with a capacity.  Counters
  are 64-bit and wrap.
\<close>

subsection \<open>Counters\<close>

record source_race_stats =
  race_received :: u64
  race_won :: u64

record stats =
  rpc_logs_received :: u64
  events_decoded :: u64
  decode_errors :: u64
  duplicates :: u64
  enrichment_hits :: u64
  enrichment_hits_via_market_id :: u64
  enrichment_misses :: u64
  enrichment_recent_hits :: u64
  enrichment_recent_total :: u64
  last_upstream_received_at_us :: u64
  storage_queue_dropped :: u64
  latest_block :: u64
  source_race :: "string \<rightharpoonup> source_race_stats"

definition record_source_race :: "string \<Rightarrow> bool \<Rightarrow> stats \<Rightarrow> stats" where
  "record_source_race source won s =
     (let entry = (case source_race s source of Some e \<Rightarrow> e | None \<Rightarrow> \<lparr> race_received = 0, race_won = 0 \<rparr>);
          entry = entry\<lparr> race_received := race_received entry + 1 \<rparr>;
          entry = (if won then entry\<lparr> race_won := race_won entry + 1 \<rparr> else entry)
      in s\<lparr> source_race := (source_race s)(source \<mapsto> entry) \<rparr>)"

definition set_max :: "u64 \<Rightarrow> u64 \<Rightarrow> u64" where
  "set_max current candidate = (if candidate > current then candidate else current)"

subsection \<open>The processor\<close>

definition RECENT_ENRICHMENT_WINDOW :: nat where "RECENT_ENRICHMENT_WINDOW = 1000"

datatype storage_command = StorageEvent event_record | StorageCheckpoint u64

record processor =
  contract_address_bytes :: "bytes list"
  require_market_id :: bool
  pcatalog :: catalog
  events :: event_hub
  batch_tx :: "event_record list"
  storage_tx :: "storage_command list"
  storage_capacity :: nat
  pstats :: stats
  forfeit :: blocklist
  psequence :: u64
  recent_enrichment :: "bool list"

definition record_recent_enrichment :: "bool \<Rightarrow> processor \<Rightarrow> processor" where
  "record_recent_enrichment hit p =
     (let window = recent_enrichment p @ [hit];
          n = (if hit then enrichment_recent_hits (pstats p) + 1 else enrichment_recent_hits (pstats p));
          (window, n) = (if length window > RECENT_ENRICHMENT_WINDOW
                         then (tl window, if hd window then saturating_sub n 1 else n) else (window, n))
      in p\<lparr> recent_enrichment := window,
            pstats := (pstats p)\<lparr> enrichment_recent_hits := n, enrichment_recent_total := of_nat (length window) \<rparr> \<rparr>)"

definition try_send_storage :: "storage_command \<Rightarrow> processor \<Rightarrow> processor" where
  "try_send_storage c p =
     (if length (storage_tx p) < storage_capacity p then p\<lparr> storage_tx := storage_tx p @ [c] \<rparr>
      else p\<lparr> pstats := (pstats p)\<lparr> storage_queue_dropped := storage_queue_dropped (pstats p) + 1 \<rparr> \<rparr>)"

definition checkpoint :: "u64 \<Rightarrow> processor \<Rightarrow> processor" where
  "checkpoint block p = try_send_storage (StorageCheckpoint block) p"

definition event_outcome :: "uma_event \<Rightarrow> price_outcome" where
  "event_outcome e =
     (case event_kind_of e of
        Propose \<Rightarrow> from_propose_price (proposed_price (event_request e))
      | Dispute \<Rightarrow> OutcomeUnspecified)"

definition chain_key :: "chain_log \<Rightarrow> event_key" where
  "chain_key c = \<lparr> key_transaction_hash = transaction_hash c, key_log_index = log_index c, key_removed = removed c \<rparr>"

definition count_duplicate :: "string \<Rightarrow> processor \<Rightarrow> processor" where
  "count_duplicate source p =
     p\<lparr> pstats := record_source_race source False ((pstats p)\<lparr> duplicates := duplicates (pstats p) + 1 \<rparr>) \<rparr>"

definition count_enrichment :: "bool \<Rightarrow> bool \<Rightarrow> stats \<Rightarrow> stats" where
  "count_enrichment enriched via_market_id s =
     (if enriched
      then (let s = s\<lparr> enrichment_hits := enrichment_hits s + 1 \<rparr>
            in if via_market_id then s\<lparr> enrichment_hits_via_market_id := enrichment_hits_via_market_id s + 1 \<rparr> else s)
      else s\<lparr> enrichment_misses := enrichment_misses s + 1 \<rparr>)"

definition prepare :: "crypto \<Rightarrow> rpc_log \<Rightarrow> u64 \<Rightarrow> string \<Rightarrow> processor \<Rightarrow> event_record option \<times> processor" where
  "prepare C raw received source p =
     (let p = p\<lparr> pstats := (pstats p)\<lparr> rpc_logs_received := rpc_logs_received (pstats p) + 1,
                                      last_upstream_received_at_us := received \<rparr> \<rparr>
      in case decode_signal_log C raw received (contract_address_bytes p) (require_market_id p) of
           Inl _ \<Rightarrow> (None, p\<lparr> pstats := (pstats p)\<lparr> decode_errors := decode_errors (pstats p) + 1 \<rparr> \<rparr>)
         | Inr decoded \<Rightarrow>
             if event_hub_contains (chain_key (event_chain decoded)) (events p) then (None, count_duplicate source p)
             else
               let market_id = anc_market_id (ancillary (event_request decoded));
                   en = resolve market_id (request_condition_id (event_request decoded)) (pcatalog p);
                   p = record_recent_enrichment (en \<noteq> None) p;
                   p = p\<lparr> pstats := count_enrichment (en \<noteq> None) (market_id \<noteq> None) (pstats p),
                         psequence := psequence p + 1 \<rparr>
               in (Some \<lparr> sequence = psequence p, event = decoded, enrichment = en,
                          price_outcome = event_outcome decoded \<rparr>, p))"

definition admit :: "event_record \<Rightarrow> string \<Rightarrow> processor \<Rightarrow> bool \<times> processor" where
  "admit r source p =
     (case event_hub_insert r (events p) of
        (False, _) \<Rightarrow> (False, count_duplicate source p)
      | (True, h) \<Rightarrow>
          (True, p\<lparr> events := h,
                   pstats := (record_source_race source True (pstats p))\<lparr>
                     events_decoded := events_decoded (pstats p) + 1,
                     latest_block := set_max (latest_block (pstats p)) (block_number (event_chain (event r))) \<rparr> \<rparr>))"

definition deliver :: "crypto \<Rightarrow> u64 \<Rightarrow> event_record \<Rightarrow> processor \<Rightarrow> processor" where
  "deliver C now r p =
     (let p = try_send_storage (StorageEvent r) p
      in if enrichment r = None then p
         else case blocklist_lookup (resolved_condition_id r) (forfeit p) of
                Some match_id \<Rightarrow> p\<lparr> forfeit := record_blocked C now r match_id (forfeit p) \<rparr>
              | None \<Rightarrow> p\<lparr> batch_tx := batch_tx p @ [r] \<rparr>)"

definition process_log :: "crypto \<Rightarrow> u64 \<Rightarrow> rpc_log \<Rightarrow> u64 \<Rightarrow> string \<Rightarrow> processor \<Rightarrow> processor" where
  "process_log C now raw received source p =
     (case prepare C raw received source p of
        (None, p) \<Rightarrow> p
      | (Some r, p) \<Rightarrow>
          (case admit r source p of (False, p) \<Rightarrow> p | (True, p) \<Rightarrow> deliver C now r p))"

subsection \<open>Interleaved sources\<close>

text \<open>
  Between the parts of one call any other task may run: another source, the
  catalog synchronisation, the forfeit feed, or the storage writer taking a command.
\<close>

record processing =
  proc :: processor
  prepared :: "(event_record \<times> string) list"
  admitted_now :: "event_record list"

inductive processing_step :: "crypto \<Rightarrow> processing \<Rightarrow> processing \<Rightarrow> bool" for C where
  Refuse: "prepare C raw received source (proc s) = (None, p) \<Longrightarrow> processing_step C s (s\<lparr> proc := p \<rparr>)"
| Prepare: "prepare C raw received source (proc s) = (Some r, p) \<Longrightarrow>
    processing_step C s (s\<lparr> proc := p, prepared := (r, source) # prepared s \<rparr>)"
| AdmitDuplicate: "\<lbrakk> prepared s = xs @ (r, source) # ys; admit r source (proc s) = (False, p) \<rbrakk> \<Longrightarrow>
    processing_step C s (s\<lparr> proc := p, prepared := xs @ ys \<rparr>)"
| Admit: "\<lbrakk> prepared s = xs @ (r, source) # ys; admit r source (proc s) = (True, p) \<rbrakk> \<Longrightarrow>
    processing_step C s (s\<lparr> proc := p, prepared := xs @ ys, admitted_now := r # admitted_now s \<rparr>)"
| Deliver: "admitted_now s = xs @ r # ys \<Longrightarrow>
    processing_step C s (s\<lparr> proc := deliver C now r (proc s), admitted_now := xs @ ys \<rparr>)"
| Checkpoint: "processing_step C s (s\<lparr> proc := checkpoint block (proc s) \<rparr>)"
| CatalogChange: "processing_step C s (s\<lparr> proc := (proc s)\<lparr> pcatalog := cat \<rparr> \<rparr>)"
| ForfeitChange: "processing_step C s (s\<lparr> proc := (proc s)\<lparr> forfeit := bl \<rparr> \<rparr>)"
| StorageTakes: "storage_tx (proc s) = c # cs \<Longrightarrow>
    processing_step C s (s\<lparr> proc := (proc s)\<lparr> storage_tx := cs \<rparr> \<rparr>)"

definition processor_new ::
  "bytes list \<Rightarrow> bool \<Rightarrow> catalog \<Rightarrow> event_hub \<Rightarrow> nat \<Rightarrow> stats \<Rightarrow> blocklist \<Rightarrow> u64 \<Rightarrow> processor" where
  "processor_new contracts require cat hub cap st bl initial_sequence =
     \<lparr> contract_address_bytes = contracts, require_market_id = require, pcatalog = cat, events = hub,
       batch_tx = [], storage_tx = [], storage_capacity = cap, pstats = st, forfeit = bl,
       psequence = initial_sequence, recent_enrichment = [] \<rparr>"

definition stats_new :: stats where
  "stats_new = \<lparr> rpc_logs_received = 0, events_decoded = 0, decode_errors = 0, duplicates = 0,
     enrichment_hits = 0, enrichment_hits_via_market_id = 0, enrichment_misses = 0,
     enrichment_recent_hits = 0, enrichment_recent_total = 0, last_upstream_received_at_us = 0,
     storage_queue_dropped = 0, latest_block = 0, source_race = Map.empty \<rparr>"

subsection \<open>What one part changes\<close>

lemma record_source_race_simps [simp]:
  "rpc_logs_received (record_source_race src w s) = rpc_logs_received s"
  "events_decoded (record_source_race src w s) = events_decoded s"
  "decode_errors (record_source_race src w s) = decode_errors s"
  "duplicates (record_source_race src w s) = duplicates s"
  "enrichment_recent_hits (record_source_race src w s) = enrichment_recent_hits s"
  "enrichment_recent_total (record_source_race src w s) = enrichment_recent_total s"
  by (simp_all add: record_source_race_def Let_def)

lemma count_enrichment_simps [simp]:
  "rpc_logs_received (count_enrichment e v s) = rpc_logs_received s"
  "events_decoded (count_enrichment e v s) = events_decoded s"
  "decode_errors (count_enrichment e v s) = decode_errors s"
  "duplicates (count_enrichment e v s) = duplicates s"
  "enrichment_recent_hits (count_enrichment e v s) = enrichment_recent_hits s"
  "enrichment_recent_total (count_enrichment e v s) = enrichment_recent_total s"
  by (simp_all add: count_enrichment_def Let_def)

lemma record_recent_enrichment_frame [simp]:
  "events (record_recent_enrichment hit p) = events p"
  "batch_tx (record_recent_enrichment hit p) = batch_tx p"
  "psequence (record_recent_enrichment hit p) = psequence p"
  "pcatalog (record_recent_enrichment hit p) = pcatalog p"
  "rpc_logs_received (pstats (record_recent_enrichment hit p)) = rpc_logs_received (pstats p)"
  "events_decoded (pstats (record_recent_enrichment hit p)) = events_decoded (pstats p)"
  "decode_errors (pstats (record_recent_enrichment hit p)) = decode_errors (pstats p)"
  "duplicates (pstats (record_recent_enrichment hit p)) = duplicates (pstats p)"
  by (simp_all add: record_recent_enrichment_def Let_def split: prod.splits)

lemma try_send_storage_frame [simp]:
  "events (try_send_storage c p) = events p" "batch_tx (try_send_storage c p) = batch_tx p"
  "psequence (try_send_storage c p) = psequence p" "recent_enrichment (try_send_storage c p) = recent_enrichment p"
  "rpc_logs_received (pstats (try_send_storage c p)) = rpc_logs_received (pstats p)"
  "events_decoded (pstats (try_send_storage c p)) = events_decoded (pstats p)"
  "decode_errors (pstats (try_send_storage c p)) = decode_errors (pstats p)"
  "duplicates (pstats (try_send_storage c p)) = duplicates (pstats p)"
  "enrichment_recent_hits (pstats (try_send_storage c p)) = enrichment_recent_hits (pstats p)"
  "enrichment_recent_total (pstats (try_send_storage c p)) = enrichment_recent_total (pstats p)"
  "forfeit (try_send_storage c p) = forfeit p"
  by (simp_all add: try_send_storage_def)

text \<open>Counted in, counted out.\<close>

definition balanced :: "nat \<Rightarrow> stats \<Rightarrow> bool" where
  "balanced in_flight s \<longleftrightarrow>
     rpc_logs_received s = decode_errors s + duplicates s + events_decoded s + of_nat in_flight"

definition window_ok :: "processor \<Rightarrow> bool" where
  "window_ok p \<longleftrightarrow> length (recent_enrichment p) \<le> RECENT_ENRICHMENT_WINDOW \<and>
     enrichment_recent_total (pstats p) = of_nat (length (recent_enrichment p)) \<and>
     enrichment_recent_hits (pstats p) = of_nat (length (filter id (recent_enrichment p)))"

lemma window_push:
  assumes "window_ok p"
  shows "window_ok (record_recent_enrichment hit p)"
proof (cases "length (recent_enrichment p) < RECENT_ENRICHMENT_WINDOW")
  case True
  with assms show ?thesis
    by (simp add: window_ok_def record_recent_enrichment_def Let_def)
next
  case False
  with assms obtain b bs where w: "recent_enrichment p = b # bs" "length bs = 999"
    by (cases "recent_enrichment p") (auto simp: window_ok_def RECENT_ENRICHMENT_WINDOW_def)
  have "saturating_sub (1 + of_nat k) 1 = (of_nat k :: u64)" if "k \<le> 1000" for k
  proof -
    have "unat (1 + of_nat k :: u64) = 1 + k" using that by (simp add: unat_of_nat take_bit_eq_mod unat_word_ariths)
    then show ?thesis by (simp add: saturating_sub_def word_le_nat_alt)
  qed
  from this [of "length (filter id bs)"] this [of "Suc (length (filter id bs))"] w(2) length_filter_le [of id bs]
  have "saturating_sub (1 + of_nat (length (filter id bs))) 1 = (of_nat (length (filter id bs)) :: u64)"
    "saturating_sub (2 + of_nat (length (filter id bs))) 1 = (1 + of_nat (length (filter id bs)) :: u64)"
    by simp_all
  then show ?thesis
    using assms w
    by (auto simp: window_ok_def record_recent_enrichment_def Let_def RECENT_ENRICHMENT_WINDOW_def)
qed

lemma prepare_None:
  assumes "prepare C raw rx src p = (None, p')"
  shows "balanced n (pstats p) \<Longrightarrow> balanced n (pstats p')" "window_ok p \<Longrightarrow> window_ok p'"
    "events p' = events p" "batch_tx p' = batch_tx p" "psequence p' = psequence p"
  using assms
  by (auto simp: prepare_def Let_def balanced_def window_ok_def count_duplicate_def algebra_simps
      split: sum.splits if_splits)

lemma prepare_Some:
  assumes "prepare C raw rx src p = (Some r, p')"
  shows "balanced n (pstats p) \<Longrightarrow> balanced (Suc n) (pstats p')" "window_ok p \<Longrightarrow> window_ok p'"
    "events p' = events p" "batch_tx p' = batch_tx p" "psequence p' = psequence p + 1"
    "sequence r = psequence p + 1" "price_outcome r = event_outcome (event r)"
    "\<not> event_hub_contains (key_of r) (events p)"
    "enrichment r = resolve (anc_market_id (ancillary (event_request (event r))))
       (request_condition_id (event_request (event r))) (pcatalog p)"
proof -
  let ?p1 = "p\<lparr> pstats := (pstats p)\<lparr> rpc_logs_received := rpc_logs_received (pstats p) + 1,
      last_upstream_received_at_us := rx \<rparr> \<rparr>"
  from assms obtain decoded where
    d: "\<not> event_hub_contains (chain_key (event_chain decoded)) (events p)"
      "r = \<lparr> sequence = psequence p + 1, event = decoded,
         enrichment = resolve (anc_market_id (ancillary (event_request decoded)))
           (request_condition_id (event_request decoded)) (pcatalog p), price_outcome = event_outcome decoded \<rparr>"
      "\<exists>e v. p' = (record_recent_enrichment e ?p1)\<lparr> pstats := count_enrichment e v (pstats (record_recent_enrichment e ?p1)),
         psequence := psequence p + 1 \<rparr>"
    by (auto simp: prepare_def Let_def split: sum.splits if_splits)
  from d(3) obtain e v where p': "p' = (record_recent_enrichment e ?p1)\<lparr> pstats :=
      count_enrichment e v (pstats (record_recent_enrichment e ?p1)), psequence := psequence p + 1 \<rparr>" by blast
  show "balanced n (pstats p) \<Longrightarrow> balanced (Suc n) (pstats p')"
    by (simp add: p' balanced_def)
  show "window_ok p \<Longrightarrow> window_ok p'"
    using window_push [of ?p1 e] by (simp add: p' window_ok_def)
qed (use assms in \<open>auto simp: prepare_def Let_def key_of_def chain_key_def split: sum.splits if_splits\<close>)

lemma admit_False:
  assumes "admit r src p = (False, p')"
  shows "balanced (Suc n) (pstats p) \<Longrightarrow> balanced n (pstats p')" "window_ok p \<Longrightarrow> window_ok p'"
    "events p' = events p" "batch_tx p' = batch_tx p" "psequence p' = psequence p"
  using assms
  by (auto simp: admit_def balanced_def window_ok_def count_duplicate_def algebra_simps split: prod.splits bool.splits)

lemma admit_True:
  assumes "admit r src p = (True, p')"
  shows "balanced (Suc n) (pstats p) \<Longrightarrow> balanced n (pstats p')" "window_ok p \<Longrightarrow> window_ok p'"
    "event_hub_insert r (events p) = (True, events p')" "batch_tx p' = batch_tx p" "psequence p' = psequence p"
  using assms
  by (auto simp: admit_def balanced_def window_ok_def algebra_simps split: prod.splits bool.splits)

lemma deliver_simps:
  "events (deliver C now r p) = events p" "psequence (deliver C now r p) = psequence p"
  "balanced n (pstats (deliver C now r p)) = balanced n (pstats p)"
  "window_ok (deliver C now r p) = window_ok p"
  "batch_tx (deliver C now r p) =
     batch_tx p @ (if enrichment r \<noteq> None \<and> blocklist_lookup (resolved_condition_id r) (forfeit p) = None then [r] else [])"
  by (auto simp: deliver_def Let_def balanced_def window_ok_def split: option.splits)

lemmas part_simps = prepare_None prepare_Some admit_False admit_True deliver_simps

subsection \<open>Invariants over all interleavings\<close>

definition counts_inv :: "processing \<Rightarrow> bool" where
  "counts_inv s \<longleftrightarrow> balanced (length (prepared s)) (pstats (proc s)) \<and> window_ok (proc s) \<and>
     (\<forall>r\<in>set (map fst (prepared s)) \<union> set (admitted_now s) \<union> set (batch_tx (proc s)).
        price_outcome r = event_outcome (event r)) \<and>
     (\<forall>r\<in>set (batch_tx (proc s)). enrichment r \<noteq> None)"

lemma balanced_checkpoint: "balanced n (pstats (checkpoint b p)) = balanced n (pstats p)"
  by (simp add: checkpoint_def balanced_def)

lemma counts_inv_step: "processing_step C s s' \<Longrightarrow> counts_inv s \<Longrightarrow> counts_inv s'"
proof (induction rule: processing_step.induct)
  case (Refuse raw received source s p)
  then show ?case by (simp add: counts_inv_def prepare_None)
next
  case (Prepare raw received source s r p)
  then show ?case by (auto simp: counts_inv_def prepare_Some)
next
  case (AdmitDuplicate s xs r source ys p)
  then show ?case by (auto simp: counts_inv_def admit_False)
next
  case (Admit s xs r source ys p)
  then show ?case by (auto simp: counts_inv_def admit_True)
next
  case (Deliver s xs r ys now)
  then show ?case by (auto simp: counts_inv_def deliver_simps)
qed (auto simp: counts_inv_def balanced_def window_ok_def checkpoint_def)

text \<open>Sequence numbers and keys, while neither the counter wraps nor the hub evicts.\<close>

definition in_flight :: "processing \<Rightarrow> event_record list" where
  "in_flight s = map fst (prepared s) @ admitted_now s @ batch_tx (proc s)"

definition sequence_inv :: "u64 \<Rightarrow> nat \<Rightarrow> processing \<Rightarrow> bool" where
  "sequence_inv init n s \<longleftrightarrow> unat (psequence (proc s)) \<le> unat init + n \<and> init \<le> psequence (proc s) \<and>
     distinct (map sequence (in_flight s)) \<and>
     (\<forall>r\<in>set (in_flight s). init < sequence r \<and> sequence r \<le> psequence (proc s))"

lemma fresh_sequence:
  assumes "sequence_inv init n s" "unat init + Suc n < 2 ^ 64"
  shows "unat (psequence (proc s) + 1) = unat (psequence (proc s)) + 1" "init < psequence (proc s) + 1"
    "x \<le> psequence (proc s) \<Longrightarrow> x < psequence (proc s) + 1"
proof -
  let ?q = "psequence (proc s)"
  have q: "unat ?q \<le> unat init + n" "unat init \<le> unat ?q"
    using assms(1) by (simp_all add: sequence_inv_def word_le_nat_alt)
  with assms(2) show u: "unat (?q + 1) = unat ?q + 1" by (simp add: unat_word_ariths)
  with q show "init < ?q + 1" by (simp add: word_less_nat_alt)
  show "x < ?q + 1" if "x \<le> ?q" using that u by (simp add: word_less_nat_alt word_le_nat_alt)
qed

lemma moved_last:
  assumes "distinct (map f (as @ (xs @ r # ys) @ cs))" "bs = [] \<or> bs = [r]"
  shows "distinct (map f (as @ (xs @ ys) @ cs @ bs))"
proof -
  have "mset (map f ((as @ (xs @ ys) @ cs) @ [r])) = mset (map f (as @ (xs @ r # ys) @ cs))" by simp
  then have d: "distinct (map f ((as @ (xs @ ys) @ cs) @ [r]))"
    using mset_eq_imp_distinct_iff assms(1) by blast
  then have "distinct (map f (as @ (xs @ ys) @ cs))"
    by (metis distinct_append map_append)
  with d assms(2) show ?thesis by (metis append_Nil2 append_assoc)
qed

lemma moved_last_set:
  "bs = [] \<or> bs = [r] \<Longrightarrow> set (as @ (xs @ ys) @ cs @ bs) \<subseteq> set (as @ (xs @ r # ys) @ cs)"
  by auto

lemma sequence_inv_step:
  assumes "processing_step C s s'" "sequence_inv init n s" "unat init + Suc n < 2 ^ 64"
  shows "sequence_inv init (Suc n) s'"
  using assms
proof (induction rule: processing_step.induct)
  case (Refuse raw received source s p)
  then show ?case by (simp add: sequence_inv_def in_flight_def prepare_None(4,5))
next
  case (Prepare raw received source s r p)
  note fresh = fresh_sequence [OF Prepare.prems]
  have "sequence x < psequence (proc s) + 1" if "x \<in> set (in_flight s)" for x
    using Prepare.prems(1) that by (auto simp: sequence_inv_def intro: fresh(3))
  then have old: "\<forall>x\<in>set (in_flight s). sequence x \<noteq> sequence r \<and> sequence x \<le> sequence r"
    using Prepare.hyps by (auto simp: less_le prepare_Some(6))
  moreover have "in_flight (s\<lparr> proc := p, prepared := (r, source) # prepared s \<rparr>) = r # in_flight s"
    using Prepare.hyps by (simp add: in_flight_def prepare_Some(4))
  moreover have "sequence r \<notin> sequence ` set (in_flight s)" using old by auto
  ultimately show ?case
    using Prepare fresh(1,2) by (simp add: sequence_inv_def prepare_Some(5,6))
next
  case (AdmitDuplicate s xs r source ys p)
  then show ?case by (auto simp: sequence_inv_def in_flight_def admit_False(4,5))
next
  case (Admit s xs r source ys p)
  then show ?case by (auto simp: sequence_inv_def in_flight_def admit_True(4,5))
next
  case (Deliver s xs r ys now)
  have "\<exists>bs. (bs = [] \<or> bs = [r]) \<and> batch_tx (deliver C now r (proc s)) = batch_tx (proc s) @ bs"
    unfolding deliver_simps(5) by simp
  then obtain bs where "bs = [] \<or> bs = [r]" "batch_tx (deliver C now r (proc s)) = batch_tx (proc s) @ bs" by blast
  then have fl: "in_flight (s\<lparr> proc := deliver C now r (proc s), admitted_now := xs @ ys \<rparr>) =
      map fst (prepared s) @ (xs @ ys) @ batch_tx (proc s) @ bs" "bs = [] \<or> bs = [r]"
    by (simp_all add: in_flight_def)
  have old: "in_flight s = map fst (prepared s) @ (xs @ r # ys) @ batch_tx (proc s)"
    using Deliver.hyps by (simp add: in_flight_def)
  have inv: "distinct (map sequence (in_flight s))" "unat (psequence (proc s)) \<le> Suc (unat init + n)"
    "init \<le> psequence (proc s)" "\<forall>r\<in>set (in_flight s). init < sequence r \<and> sequence r \<le> psequence (proc s)"
    using Deliver.prems(1) by (simp_all add: sequence_inv_def)
  let ?s = "s\<lparr> proc := deliver C now r (proc s), admitted_now := xs @ ys \<rparr>"
  have "distinct (map sequence (in_flight ?s))"
    unfolding fl(1) by (rule moved_last [OF inv(1) [unfolded old] fl(2)])
  moreover have "set (in_flight ?s) \<subseteq> set (in_flight s)"
    unfolding fl(1) old by (rule moved_last_set [OF fl(2)])
  ultimately show ?case
    using inv unfolding sequence_inv_def by (simp add: deliver_simps(2)) blast
qed (simp_all add: sequence_inv_def in_flight_def checkpoint_def)

definition key_inv :: "nat \<Rightarrow> nat \<Rightarrow> processing \<Rightarrow> bool" where
  "key_inv m n s \<longleftrightarrow> event_hub_ok (events (proc s)) \<and> length (eh_events (events (proc s))) \<le> m + n \<and>
     distinct (map key_of (admitted_now s @ batch_tx (proc s))) \<and>
     set (admitted_now s @ batch_tx (proc s)) \<subseteq> set (eh_events (events (proc s)))"

lemma key_inv_step:
  assumes "processing_step C s s'" "key_inv m n s" "m + Suc n \<le> eh_capacity (events (proc s))"
  shows "key_inv m (Suc n) s' \<and> eh_capacity (events (proc s')) = eh_capacity (events (proc s))"
  using assms
proof (induction rule: processing_step.induct)
  case (Refuse raw received source s p)
  then show ?case by (simp add: key_inv_def prepare_None(3,4))
next
  case (Prepare raw received source s r p)
  then show ?case by (simp add: key_inv_def prepare_Some(3,4))
next
  case (AdmitDuplicate s xs r source ys p)
  then show ?case by (simp add: key_inv_def admit_False(3,4))
next
  case (Admit s xs r source ys p)
  let ?h = "events (proc s)"
  have ins: "event_hub_insert r ?h = (True, events p)" "batch_tx p = batch_tx (proc s)"
    using admit_True [OF Admit.hyps(2)] by simp_all
  have inv: "event_hub_ok ?h" "length (eh_events ?h) < eh_capacity ?h" using Admit.prems by (simp_all add: key_inv_def)
  have fresh: "key_of r \<notin> eh_keys ?h" using ins(1) by (auto simp: event_hub_insert_def split: if_splits)
  then have h: "eh_events (events p) = eh_events ?h @ [r]" "eh_capacity (events p) = eh_capacity ?h" "event_hub_ok (events p)"
    using event_hub_insert_fresh [OF inv(1) fresh] event_hub_insert_ok [OF inv(1), of r] ins(1) inv(2)
    by (auto simp: take_last_all)
  moreover have "key_of r \<notin> key_of ` set (eh_events ?h)" using fresh inv(1) by (simp add: event_hub_ok_def)
  ultimately show ?case using Admit.prems by (auto simp: key_inv_def ins(2))
next
  case (Deliver s xs r ys now)
  then show ?case by (auto simp: key_inv_def deliver_simps)
qed (simp_all add: key_inv_def checkpoint_def)

definition processing_start :: "processor \<Rightarrow> processing" where
  "processing_start p = \<lparr> proc = p, prepared = [], admitted_now = [] \<rparr>"

lemma processing_run:
  assumes "(processing_step C ^^ n) (processing_start (processor_new contracts require cat hub cap stats_new bl init)) s"
    and "event_hub_ok hub"
  shows "counts_inv s" "unat init + n < 2 ^ 64 \<Longrightarrow> sequence_inv init n s"
    "length (eh_events hub) + n \<le> eh_capacity hub \<Longrightarrow>
       key_inv (length (eh_events hub)) n s \<and> eh_capacity (events (proc s)) = eh_capacity hub"
  using assms(1)
proof (induction n arbitrary: s)
  case 0
  { case 1 then show ?case
      by (auto simp: counts_inv_def processing_start_def processor_new_def balanced_def window_ok_def stats_new_def) }
  { case 2 then show ?case by (auto simp: sequence_inv_def in_flight_def processing_start_def processor_new_def) }
  { case 3 then show ?case using assms(2) by (auto simp: key_inv_def processing_start_def processor_new_def) }
next
  case (Suc n)
  { case 1 then obtain t where "(processing_step C ^^ n) (processing_start
        (processor_new contracts require cat hub cap stats_new bl init)) t" "processing_step C t s" by auto
    with Suc.IH(1) show ?case by (blast intro: counts_inv_step) }
  { case 2 then obtain t where "(processing_step C ^^ n) (processing_start
        (processor_new contracts require cat hub cap stats_new bl init)) t" "processing_step C t s" by auto
    with Suc.IH(2) 2(1) show ?case by (auto intro: sequence_inv_step) }
  { case 3 then obtain t where t: "(processing_step C ^^ n) (processing_start
        (processor_new contracts require cat hub cap stats_new bl init)) t" "processing_step C t s" by auto
    then have "key_inv (length (eh_events hub)) n t" "eh_capacity (events (proc t)) = eh_capacity hub"
      using Suc.IH(3) [OF _ t(1)] 3(1) by simp_all
    with key_inv_step [OF t(2), of "length (eh_events hub)" n] 3(1) show ?case by simp }
qed

text \<open>
  whatever sources, catalog changes, forfeit changes and queue reads are
  interleaved, every received log is accounted for exactly once (undecodable,
  duplicate, accepted or still in flight), the recent-enrichment counters are those
  of the last thousand outcomes, and only enriched events with the outcome of their
  own price are sent to the batcher.
\<close>

theorem processing_accounts:
  assumes "(processing_step C ^^ n) (processing_start (processor_new contracts require cat hub cap stats_new bl init)) s"
    and "event_hub_ok hub"
  shows "rpc_logs_received (pstats (proc s)) =
      decode_errors (pstats (proc s)) + duplicates (pstats (proc s)) + events_decoded (pstats (proc s)) +
      of_nat (length (prepared s)) \<and>
    length (recent_enrichment (proc s)) \<le> 1000 \<and>
    enrichment_recent_hits (pstats (proc s)) = of_nat (length (filter id (recent_enrichment (proc s)))) \<and>
    enrichment_recent_total (pstats (proc s)) = of_nat (length (recent_enrichment (proc s))) \<and>
    (\<forall>r\<in>set (batch_tx (proc s)). enrichment r \<noteq> None \<and> price_outcome r = event_outcome (event r))"
  using processing_run(1) [OF assms]
  by (auto simp: counts_inv_def balanced_def window_ok_def RECENT_ENRICHMENT_WINDOW_def)


subsection \<open>Two sources racing\<close>

definition record_of :: "uma_event \<Rightarrow> u64 \<Rightarrow> catalog \<Rightarrow> event_record" where
  "record_of e n cat = \<lparr> sequence = n, event = e,
     enrichment = resolve (anc_market_id (ancillary (event_request e))) (request_condition_id (event_request e)) cat,
     price_outcome = event_outcome e \<rparr>"

lemma key_record_of [simp]: "key_of (record_of e n cat) = chain_key (event_chain e)"
  by (simp add: record_of_def key_of_def chain_key_def)

definition same_setting :: "processor \<Rightarrow> processor \<Rightarrow> bool" where
  "same_setting p q \<longleftrightarrow> contract_address_bytes p = contract_address_bytes q \<and> require_market_id p = require_market_id q \<and>
     pcatalog p = pcatalog q \<and> forfeit p = forfeit q"

lemma prepare_accepts:
  assumes "decode_signal_log C raw rx (contract_address_bytes p) (require_market_id p) = Inr e"
    and "\<not> event_hub_contains (chain_key (event_chain e)) (events p)"
  shows "\<exists>p'. prepare C raw rx src p = (Some (record_of e (psequence p + 1) (pcatalog p)), p') \<and>
    same_setting p' p \<and> events p' = events p \<and> batch_tx p' = batch_tx p \<and> psequence p' = psequence p + 1"
  using assms
  by (simp add: prepare_def record_of_def same_setting_def Let_def record_recent_enrichment_def)

lemma admit_accepts:
  assumes "event_hub_ok (events p)" "key_of r \<notin> eh_keys (events p)"
  shows "\<exists>p'. admit r src p = (True, p') \<and> same_setting p' p \<and> batch_tx p' = batch_tx p \<and>
    event_hub_ok (events p') \<and> eh_keys (events p') \<subseteq> insert (key_of r) (eh_keys (events p))"
proof -
  have "eh_keys (snd (event_hub_insert r (events p))) \<subseteq> insert (key_of r) (eh_keys (events p))"
    using assms set_mono_suffix [OF suffix_take_last, of "eh_capacity (events p)" "eh_events (events p) @ [r]"]
    by (fastforce simp: event_hub_insert_fresh event_hub_ok_def)
  then show ?thesis
    using assms event_hub_insert_ok [OF assms(1), of r] by (simp add: event_hub_insert_fresh admit_def same_setting_def)
qed

lemma deliver_accepts:
  assumes "enrichment r = Some m" "blocklist_lookup (me_condition_id m) (forfeit p) = None"
  shows "batch_tx (deliver C now r p) = batch_tx p @ [r]" "events (deliver C now r p) = events p"
    "same_setting (deliver C now r p) p"
  using assms
  by (simp_all add: deliver_simps resolved_condition_id_def)
    (simp add: deliver_def Let_def same_setting_def try_send_storage_def resolved_condition_id_def)

lemma racing_run:
  assumes "decode_signal_log C l1 t1 contracts require = Inr e1" "decode_signal_log C l2 t2 contracts require = Inr e2"
    and "chain_key (event_chain e1) \<noteq> chain_key (event_chain e2)" "event_hub_ok hub"
    and "chain_key (event_chain e1) \<notin> eh_keys hub" "chain_key (event_chain e2) \<notin> eh_keys hub"
    and "enrichment (record_of e1 (init + 1) cat) = Some m1" "enrichment (record_of e2 (init + 2) cat) = Some m2"
    and "blocklist_lookup (me_condition_id m1) bl = None" "blocklist_lookup (me_condition_id m2) bl = None"
  shows "\<exists>s. (processing_step C ^^ 6) (processing_start (processor_new contracts require cat hub cap stats_new bl init)) s \<and>
    batch_tx (proc s) = [record_of e2 (init + 2) cat, record_of e1 (init + 1) cat]"
proof -
  let ?r1 = "record_of e1 (init + 1) cat" and ?r2 = "record_of e2 (init + 2) cat"
  define p0 where "p0 = processor_new contracts require cat hub cap stats_new bl init"
  have p0: "contract_address_bytes p0 = contracts" "require_market_id p0 = require" "pcatalog p0 = cat"
    "forfeit p0 = bl" "events p0 = hub" "psequence p0 = init" "batch_tx p0 = []"
    by (simp_all add: p0_def processor_new_def)
  obtain p1 where p1: "prepare C l1 t1 [] p0 = (Some ?r1, p1)" "same_setting p1 p0" "events p1 = hub"
    "batch_tx p1 = []" "psequence p1 = init + 1"
    using prepare_accepts [of C l1 t1 p0 e1 "[]"] assms(1,5) p0 by (auto simp: event_hub_contains_def)
  obtain p2 where p2: "prepare C l2 t2 [] p1 = (Some ?r2, p2)" "same_setting p2 p0" "events p2 = hub"
    "batch_tx p2 = []"
    using prepare_accepts [of C l2 t2 p1 e2 "[]"] assms(2,6) p1 p0
    by (auto simp: event_hub_contains_def same_setting_def algebra_simps)
  obtain p3 where p3: "admit ?r2 [] p2 = (True, p3)" "same_setting p3 p0" "batch_tx p3 = []"
    "event_hub_ok (events p3)" "eh_keys (events p3) \<subseteq> insert (key_of ?r2) (eh_keys hub)"
    using admit_accepts [of p2 ?r2 "[]"] assms(4,6) p2 by (auto simp: same_setting_def)
  let ?p4 = "deliver C 0 ?r2 p3"
  have p4: "batch_tx ?p4 = [?r2]" "events ?p4 = events p3" "same_setting ?p4 p0"
    using deliver_accepts [OF assms(8), of p3 C 0] assms(10) p3(2,3) p0 by (auto simp: same_setting_def)
  have "key_of ?r1 \<notin> eh_keys (events ?p4)" using p3(5) p4(2) assms(3,5) by auto
  then obtain p5 where p5: "admit ?r1 [] ?p4 = (True, p5)" "same_setting p5 p0" "batch_tx p5 = [?r2]"
    using admit_accepts [of ?p4 ?r1 "[]"] p3(4) p4 by (auto simp: same_setting_def)
  have p6: "batch_tx (deliver C 0 ?r1 p5) = [?r2, ?r1]"
    using deliver_accepts [OF assms(7), of p5 C 0] assms(9) p5(2,3) p0 by (auto simp: same_setting_def)
  let ?S = "\<lambda>p xs ys. \<lparr> proc = p, prepared = xs, admitted_now = ys \<rparr>"
  have s1: "processing_step C (?S p0 [] []) (?S p1 [(?r1, [])] [])"
    using processing_step.Prepare [of C l1 t1 "[]" "?S p0 [] []", simplified, OF p1(1)] by simp
  have s2: "processing_step C (?S p1 [(?r1, [])] []) (?S p2 [(?r2, []), (?r1, [])] [])"
    using processing_step.Prepare [of C l2 t2 "[]" "?S p1 [(?r1, [])] []", simplified, OF p2(1)] by simp
  have s3: "processing_step C (?S p2 [(?r2, []), (?r1, [])] []) (?S p3 [(?r1, [])] [?r2])"
    using processing_step.Admit [of "?S p2 [(?r2, []), (?r1, [])] []" "[]", simplified, OF _ p3(1)] by simp
  have s4: "processing_step C (?S p3 [(?r1, [])] [?r2]) (?S ?p4 [(?r1, [])] [])"
    using processing_step.Deliver [of "?S p3 [(?r1, [])] [?r2]" "[]" ?r2 "[]" C 0, simplified] by simp
  have s5: "processing_step C (?S ?p4 [(?r1, [])] []) (?S p5 [] [?r1])"
    using processing_step.Admit [of "?S ?p4 [(?r1, [])] []" "[]", simplified, OF _ p5(1)] by simp
  have s6: "processing_step C (?S p5 [] [?r1]) (?S (deliver C 0 ?r1 p5) [] [])"
    using processing_step.Deliver [of "?S p5 [] [?r1]" "[]" ?r1 "[]" C 0, simplified] by simp
  have "(processing_step C ^^ Suc (Suc (Suc (Suc (Suc (Suc 0)))))) (?S p0 [] []) (?S (deliver C 0 ?r1 p5) [] [])"
    by (rule relpowp_Suc_I2, rule s1, rule relpowp_Suc_I2, rule s2, rule relpowp_Suc_I2, rule s3,
      rule relpowp_Suc_I2, rule s4, rule relpowp_Suc_I2, rule s5, rule relpowp_Suc_I2, rule s6, rule relpowp_0_I)
  moreover have "(6 :: nat) = Suc (Suc (Suc (Suc (Suc (Suc 0)))))" by simp
  ultimately have "(processing_step C ^^ 6) (?S p0 [] []) (?S (deliver C 0 ?r1 p5) [] [])" by (simp only:)
  with p6 show ?thesis unfolding p0_def [symmetric] processing_start_def by fastforce
qed

text \<open>
  the batcher may receive sequence numbers out of order.  When two sources hold
  two different accepted logs, there is an interleaving in which the event with the
  higher number is sent first, because the number is drawn before the event is
  inserted and sent.
\<close>

theorem processing_out_of_order:
  assumes "decode_signal_log C l1 t1 contracts require = Inr e1" "decode_signal_log C l2 t2 contracts require = Inr e2"
    and "chain_key (event_chain e1) \<noteq> chain_key (event_chain e2)" "event_hub_ok hub"
    and "chain_key (event_chain e1) \<notin> eh_keys hub" "chain_key (event_chain e2) \<notin> eh_keys hub"
    and "enrichment (record_of e1 (init + 1) cat) = Some m1" "enrichment (record_of e2 (init + 2) cat) = Some m2"
    and "blocklist_lookup (me_condition_id m1) bl = None" "blocklist_lookup (me_condition_id m2) bl = None"
  shows "\<exists>s. (processing_step C)\<^sup>*\<^sup>* (processing_start (processor_new contracts require cat hub cap stats_new bl init)) s \<and>
    batch_tx (proc s) = [record_of e2 (init + 2) cat, record_of e1 (init + 1) cat]"
  using racing_run [OF assms] by (blast intro: relpowp_imp_rtranclp)

subsection \<open>A sample race: a log and its removal\<close>

definition removed_log :: rpc_log where
  "removed_log = sample_log\<lparr> log_removed := True \<rparr>"

definition removed_event :: uma_event where
  "removed_event =
     ProposePrice
       \<lparr> propose_chain = (event_chain sample_event)\<lparr> removed := True \<rparr>, propose_request = event_request sample_event \<rparr>"

lemma decode_removed_log: "decode_signal_log sample_crypto removed_log 9 [] True = Inr removed_event"
  using sample_data_fields sample_text_fields sample_text_number sample_text_utf8
  by (simp add: decode_signal_log_def removed_log_def removed_event_def sample_log_def sample_event_def decode_fixed_def
      decode_sample_hex [simplified] fixed_def parse_propose_def parse_data_def sample_data_def [symmetric]
      build_chain_def parse_request_def topic_address_def parse_ancillary_def
      derive_binary_condition_id_def event_market_id_def unwrap_or_default_def sample_keccak
      del: append_assoc and_then_Inr nat_be.simps)

definition sample_catalog :: catalog where
  "sample_catalog = catalog_new [sample_row 42 7 Sports]"

lemma sample_enriched:
  "enrichment (record_of sample_event n sample_catalog) = Some (sample_row 42 7 Sports)"
  "enrichment (record_of removed_event n sample_catalog) = Some (sample_row 42 7 Sports)"
  by (simp_all add: record_of_def resolve_def get_by_market_id_def sample_catalog_def catalog_new_def upsert_def
      catalog_empty_def sample_row_def sample_event_def removed_event_def)

lemma sample_keys:
  "chain_key (event_chain sample_event) \<noteq> chain_key (event_chain removed_event)"
  by (simp add: chain_key_def sample_event_def removed_event_def)

definition sample_processor :: processor where
  "sample_processor = processor_new [] True sample_catalog (event_hub_new 9) 0 stats_new blocklist_disabled 4"

lemma sample_race:
  "\<exists>s. (processing_step sample_crypto ^^ 6) (processing_start sample_processor) s \<and>
    batch_tx (proc s) = [record_of removed_event 6 sample_catalog, record_of sample_event 5 sample_catalog]"
  unfolding sample_processor_def
  using racing_run [OF decode_sample_log decode_removed_log sample_keys event_hub_new_ok _ _ sample_enriched,
    of 9 blocklist_disabled 0 4]
  by (simp add: event_hub_new_def blocklist_lookup_def blocklist_disabled_def blocklist_empty_def)

theorem processing_accounts_witness:
  "\<exists>s. (processing_step sample_crypto ^^ 6) (processing_start sample_processor) s \<and> length (batch_tx (proc s)) = 2 \<and>
    (\<forall>r\<in>set (batch_tx (proc s)). price_outcome r = event_outcome (event r))"
proof -
  obtain s where s: "(processing_step sample_crypto ^^ 6) (processing_start sample_processor) s"
    "batch_tx (proc s) = [record_of removed_event 6 sample_catalog, record_of sample_event 5 sample_catalog]"
    using sample_race by blast
  from processing_accounts [OF s(1) [unfolded sample_processor_def] event_hub_new_ok] s show ?thesis by auto
qed


theorem processing_out_of_order_witness:
  "\<exists>s. (processing_step sample_crypto)\<^sup>*\<^sup>* (processing_start sample_processor) s \<and>
    map sequence (batch_tx (proc s)) = [6, 5]"
  unfolding sample_processor_def
  using processing_out_of_order [OF decode_sample_log decode_removed_log sample_keys event_hub_new_ok _ _ sample_enriched,
    of 9 blocklist_disabled 0 4]
  by (auto simp: event_hub_new_def blocklist_lookup_def blocklist_disabled_def blocklist_empty_def record_of_def)

end
