(* ===== verification/Batcher.thy ===== *)
theory Batcher
  imports Hub
begin

text \<open>
  \<open>run_batcher\<close> of \<open>pipeline.rs\<close>: it takes the events of the batch channel in order,
  groups what is already there up to a number of events and of bytes, and publishes
  one frame per group.  A round is one pass of the loop; the events that reach the
  channel before or during it are an argument.  The encoded length of an event is a
  parameter (it comes from the generated protobuf code).
\<close>

record batch_config =
  batch_max_events :: nat
  batch_max_bytes :: nat
  batch_wire :: wire_config

record batcher =
  bt_pending :: "event_record option"
  bt_queue :: "event_record list"
  bt_sequence :: u64
  bt_frames :: frame_hub
  bt_last_broadcast :: u64
  bt_batches :: "event_record list list"

text \<open>\<open>bt_batches\<close> is the history of all groups taken, for the properties.\<close>

fun fill_batch ::
  "(event_record \<Rightarrow> nat) \<Rightarrow> batch_config \<Rightarrow> event_record list \<Rightarrow> nat \<Rightarrow> event_record list
   \<Rightarrow> event_record list \<times> event_record option \<times> event_record list" where
  "fill_batch len cfg batch estimated [] = (batch, None, [])"
| "fill_batch len cfg batch estimated (next # rest) =
     (if length batch < max (batch_max_events cfg) 1
      then (if estimated + len next > batch_max_bytes cfg \<and> batch \<noteq> [] then (batch, Some next, rest)
            else fill_batch len cfg (batch @ [next]) (estimated + len next) rest)
      else (batch, None, next # rest))"

definition next_batch_sequence :: "u64 \<Rightarrow> u64" where
  "next_batch_sequence n = max (n + 1) 1"

definition take_first :: "batcher \<Rightarrow> (event_record \<times> event_record list) option" where
  "take_first b =
     (case bt_pending b of
        Some e \<Rightarrow> Some (e, bt_queue b)
      | None \<Rightarrow> (case bt_queue b of [] \<Rightarrow> None | e # q \<Rightarrow> Some (e, q)))"

definition batch_round ::
  "wire_env \<Rightarrow> (event_record \<Rightarrow> nat) \<Rightarrow> batch_config \<Rightarrow> u64 \<Rightarrow> event_record list \<Rightarrow> batcher \<Rightarrow> batcher" where
  "batch_round E len cfg now arrivals b =
     (let b = b\<lparr> bt_queue := bt_queue b @ arrivals \<rparr>
      in case take_first b of
           None \<Rightarrow> b
         | Some (first, q) \<Rightarrow>
             (let (batch, pending, rest) = fill_batch len cfg [first] (len first) q;
                  seq = next_batch_sequence (bt_sequence b);
                  b = b\<lparr> bt_pending := pending, bt_queue := rest, bt_sequence := seq,
                         bt_batches := bt_batches b @ [batch] \<rparr>
              in case encode_frame E now seq batch (batch_wire cfg) of
                   Inr frame \<Rightarrow> b\<lparr> bt_last_broadcast := now, bt_frames := publish frame (bt_frames b) \<rparr>
                 | Inl _ \<Rightarrow> b))"

definition batcher_new :: "frame_hub \<Rightarrow> batcher" where
  "batcher_new h = \<lparr> bt_pending = None, bt_queue = [], bt_sequence = 0, bt_frames = h, bt_last_broadcast = 0,
     bt_batches = [] \<rparr>"

fun run_batcher ::
  "wire_env \<Rightarrow> (event_record \<Rightarrow> nat) \<Rightarrow> batch_config \<Rightarrow> (u64 \<times> event_record list) list \<Rightarrow> batcher \<Rightarrow> batcher" where
  "run_batcher E len cfg [] b = b"
| "run_batcher E len cfg ((now, arrivals) # rounds) b =
     run_batcher E len cfg rounds (batch_round E len cfg now arrivals b)"

subsection \<open>Grouping\<close>

definition waiting :: "batcher \<Rightarrow> event_record list" where
  "waiting b = (case bt_pending b of None \<Rightarrow> [] | Some e \<Rightarrow> [e]) @ bt_queue b"

definition batch_ok :: "(event_record \<Rightarrow> nat) \<Rightarrow> batch_config \<Rightarrow> event_record list \<Rightarrow> bool" where
  "batch_ok len cfg batch \<longleftrightarrow> batch \<noteq> [] \<and> length batch \<le> max (batch_max_events cfg) 1 \<and>
     (length batch > 1 \<longrightarrow> sum_list (map len batch) \<le> batch_max_bytes cfg)"

lemma fill_batch_spec:
  assumes "fill_batch len cfg batch est q = (batch', pending, rest)"
    and "est = sum_list (map len batch)" "batch_ok len cfg batch"
  shows "batch' @ (case pending of None \<Rightarrow> [] | Some e \<Rightarrow> [e]) @ rest = batch @ q \<and> batch_ok len cfg batch'"
  using assms
proof (induction q arbitrary: batch est)
  case (Cons e q)
  show ?case
  proof (cases "length batch < max (batch_max_events cfg) 1 \<and> \<not> (est + len e > batch_max_bytes cfg \<and> batch \<noteq> [])")
    case True
    have "fill_batch len cfg (batch @ [e]) (est + len e) q = (batch', pending, rest)"
      using Cons.prems(1) True by (simp split: if_splits)
    moreover have "batch_ok len cfg (batch @ [e])"
      using Cons.prems(2,3) True by (auto simp: batch_ok_def)
    ultimately show ?thesis using Cons.IH [of "batch @ [e]" "est + len e"] Cons.prems(2) by simp
  next
    case False
    with Cons.prems show ?thesis by (auto split: if_splits)
  qed
qed simp

lemma batcher_new_simps [simp]: "bt_batches (batcher_new h) = []" "waiting (batcher_new h) = []" "bt_frames (batcher_new h) = h"
  by (simp_all add: batcher_new_def waiting_def)

lemma take_first_waiting:
  "take_first b = None \<longleftrightarrow> waiting b = []" "take_first b = Some (e, q) \<Longrightarrow> waiting b = e # q"
  by (auto simp: take_first_def waiting_def split: option.splits list.splits)

lemma batch_round_spec:
  assumes "b' = batch_round E len cfg now arrivals b"
  shows "if waiting b @ arrivals = [] then b' = b
    else \<exists>batch. bt_batches b' = bt_batches b @ [batch] \<and> batch_ok len cfg batch \<and>
      batch @ waiting b' = waiting b @ arrivals \<and> bt_sequence b' = next_batch_sequence (bt_sequence b) \<and>
      bt_frames b' = (case encode_frame E now (bt_sequence b') batch (batch_wire cfg) of
        Inr frame \<Rightarrow> publish frame (bt_frames b) | Inl _ \<Rightarrow> bt_frames b)"
proof -
  let ?b = "b\<lparr> bt_queue := bt_queue b @ arrivals \<rparr>"
  have w: "waiting ?b = waiting b @ arrivals" by (simp add: waiting_def)
  show ?thesis
  proof (cases "take_first ?b")
    case None
    with take_first_waiting(1) [of ?b] w have e: "waiting b @ arrivals = []" by simp
    with None assms show ?thesis by (simp add: batch_round_def)
  next
    case (Some v)
    then obtain first q where v: "take_first ?b = Some (first, q)" by (cases v) simp
    with take_first_waiting(2) [OF v] w have fq: "waiting b @ arrivals = first # q" by simp
    obtain batch pending rest where f: "fill_batch len cfg [first] (len first) q = (batch, pending, rest)"
      by (metis prod_cases3)
    have spec: "batch @ (case pending of None \<Rightarrow> [] | Some e \<Rightarrow> [e]) @ rest = [first] @ q \<and> batch_ok len cfg batch"
      by (rule fill_batch_spec [OF f]) (simp_all add: batch_ok_def)
    have "b' = (case encode_frame E now (next_batch_sequence (bt_sequence b)) batch (batch_wire cfg) of
        Inr frame \<Rightarrow> ?b\<lparr> bt_pending := pending, bt_queue := rest, bt_sequence := next_batch_sequence (bt_sequence b),
          bt_batches := bt_batches b @ [batch], bt_last_broadcast := now, bt_frames := publish frame (bt_frames b) \<rparr>
      | Inl _ \<Rightarrow> ?b\<lparr> bt_pending := pending, bt_queue := rest, bt_sequence := next_batch_sequence (bt_sequence b),
          bt_batches := bt_batches b @ [batch] \<rparr>)"
      unfolding assms batch_round_def by (simp add: v f Let_def split: sum.splits)
    with spec fq show ?thesis
      by (intro if_not_P [THEN iffD2] exI [of _ batch]) (auto simp: waiting_def split: sum.splits)
  qed
qed

lemma run_batcher_spec:
  "concat (bt_batches (run_batcher E len cfg rounds b)) @ waiting (run_batcher E len cfg rounds b) =
     concat (bt_batches b) @ waiting b @ concat (map snd rounds) \<and>
   (list_all (batch_ok len cfg) (bt_batches b) \<longrightarrow>
     list_all (batch_ok len cfg) (bt_batches (run_batcher E len cfg rounds b)))"
proof (induction rounds arbitrary: b)
  case (Cons r rounds)
  obtain now arrivals where r: "r = (now, arrivals)" by (cases r)
  define b' where "b' = batch_round E len cfg now arrivals b"
  have "concat (bt_batches b') @ waiting b' = concat (bt_batches b) @ waiting b @ arrivals \<and>
      (list_all (batch_ok len cfg) (bt_batches b) \<longrightarrow> list_all (batch_ok len cfg) (bt_batches b'))"
    using batch_round_spec [OF b'_def] by (auto split: if_splits)
  with Cons.IH [of b'] show ?case by (simp add: r b'_def [symmetric])
qed simp

text \<open>
  the batcher neither loses, repeats nor reorders events.  Over any rounds, the
  groups taken so far followed by what is still waiting are the events that entered
  the channel, in order; every group is non-empty, has at most the configured number
  of events, and stays within the byte limit unless it is a single event.
\<close>

theorem batcher_keeps_order:
  "concat (bt_batches (run_batcher E len cfg rounds (batcher_new h))) @
     waiting (run_batcher E len cfg rounds (batcher_new h)) = concat (map snd rounds) \<and>
   list_all (\<lambda>batch. batch \<noteq> [] \<and> length batch \<le> max (batch_max_events cfg) 1 \<and>
      (length batch = 1 \<or> sum_list (map len batch) \<le> batch_max_bytes cfg))
     (bt_batches (run_batcher E len cfg rounds (batcher_new h)))"
proof -
  have "list_all (batch_ok len cfg) (bt_batches (run_batcher E len cfg rounds (batcher_new h)))"
    "concat (bt_batches (run_batcher E len cfg rounds (batcher_new h))) @
       waiting (run_batcher E len cfg rounds (batcher_new h)) = concat (map snd rounds)"
    using run_batcher_spec [of E len cfg rounds "batcher_new h"]
    by simp_all
  moreover have "length batch = 1 \<or> sum_list (map len batch) \<le> batch_max_bytes cfg" if "batch_ok len cfg batch" for batch
    using that by (cases batch) (auto simp: batch_ok_def)
  ultimately show ?thesis by (auto simp: batch_ok_def list_all_iff)
qed


subsection \<open>Frames\<close>

definition frame_of :: "wire_frame \<Rightarrow> event_record list \<Rightarrow> bool" where
  "frame_of f batch \<longleftrightarrow> first_sequence f = sequence (hd batch) \<and> last_sequence f = sequence (last batch)"

definition encodes :: "wire_env \<Rightarrow> batch_config \<Rightarrow> event_record list \<Rightarrow> bool" where
  "encodes E cfg es \<longleftrightarrow> (\<forall>now n batch. batch \<noteq> [] \<and> set batch \<subseteq> set es \<longrightarrow>
     (\<exists>f. encode_frame E now n batch (batch_wire cfg) = Inr f))"

lemma run_batcher_frames:
  assumes "encodes E cfg (waiting b @ concat (map snd rounds))"
  shows "\<exists>bs fs. bt_batches (run_batcher E len cfg rounds b) = bt_batches b @ bs \<and> list_all2 frame_of fs bs \<and>
    bt_frames (run_batcher E len cfg rounds b) = fold publish fs (bt_frames b)"
  using assms
proof (induction rounds arbitrary: b)
  case (Cons r rounds)
  obtain now arrivals where r: "r = (now, arrivals)" by (cases r)
  define b' where "b' = batch_round E len cfg now arrivals b"
  show ?case
  proof (cases "waiting b @ arrivals = []")
    case True
    with batch_round_spec [OF b'_def] have "run_batcher E len cfg (r # rounds) b = run_batcher E len cfg rounds b"
      by (simp add: r b'_def)
    with Cons.IH [of b] Cons.prems True show ?thesis by (simp add: r)
  next
    case False
    then obtain batch where b': "bt_batches b' = bt_batches b @ [batch]" "batch \<noteq> []"
      "batch @ waiting b' = waiting b @ arrivals"
      "bt_frames b' = (case encode_frame E now (bt_sequence b') batch (batch_wire cfg) of
        Inr frame \<Rightarrow> publish frame (bt_frames b) | Inl _ \<Rightarrow> bt_frames b)"
      using batch_round_spec [OF b'_def] by (auto simp: batch_ok_def split: if_splits)
    have "set batch \<union> set (waiting b') = set (waiting b @ arrivals)" using b'(3) by (metis set_append)
    then have sub: "set batch \<subseteq> set (waiting b @ concat (map snd (r # rounds)))"
      "set (waiting b' @ concat (map snd rounds)) \<subseteq> set (waiting b @ concat (map snd (r # rounds)))"
      by (auto simp: r)
    then obtain f where f: "encode_frame E now (bt_sequence b') batch (batch_wire cfg) = Inr f"
      using Cons.prems b'(2) unfolding encodes_def by blast
    have "encodes E cfg (waiting b' @ concat (map snd rounds))"
      using Cons.prems sub(2) unfolding encodes_def by blast
    from Cons.IH [OF this] obtain bs fs where
      "bt_batches (run_batcher E len cfg rounds b') = bt_batches b' @ bs" "list_all2 frame_of fs bs"
      "bt_frames (run_batcher E len cfg rounds b') = fold publish fs (bt_frames b')" by blast
    moreover have "frame_of f batch" using encode_frame_Inr [OF f] by (simp add: frame_of_def)
    ultimately show ?thesis
      using b' f by (intro exI [of _ "batch # bs"] exI [of _ "f # fs"]) (simp add: r b'_def [symmetric])
  qed
qed simp

lemma frames_increasing:
  assumes "list_all2 frame_of fs bs" "sorted_wrt (<) (map sequence (concat bs))" "\<forall>b\<in>set bs. b \<noteq> []"
  shows "sorted_wrt (<) (map last_sequence fs) \<and> (\<forall>f\<in>set fs. \<exists>e\<in>set (concat bs). last_sequence f = sequence e)"
  using assms
proof (induction fs bs rule: list_all2_induct)
  case (Cons f fs b bs)
  then have f: "last_sequence f = sequence (last b)" "last b \<in> set b" by (simp_all add: frame_of_def)
  have ih: "sorted_wrt (<) (map last_sequence fs)" "\<forall>f\<in>set fs. \<exists>e\<in>set (concat bs). last_sequence f = sequence e"
    using Cons by (simp_all add: sorted_wrt_append)
  have "sequence (last b) < sequence e" if "e \<in> set (concat bs)" for e
    using Cons.prems(1) f(2) that by (auto simp: sorted_wrt_append)
  with ih f show ?case by fastforce
qed simp

definition sample_wire_env :: wire_env where
  "sample_wire_env = \<lparr> pb_numbers = sample_enums, encode_batch = \<lambda>b. to_be_bytes 8 (pb_batch_sequence b),
     zstd_encode = Some \<rparr>"

definition sample_batching :: batch_config where
  "sample_batching = \<lparr> batch_max_events = 2, batch_max_bytes = 100,
     batch_wire = \<lparr> zstd_threshold = 50, max_decompressed_bytes = 64 \<rparr> \<rparr>"

lemma sample_encodes: "encodes sample_wire_env sample_batching es"
  by (auto simp: encodes_def sample_wire_env_def sample_batching_def encode_frame_def Let_def split: list.splits)


end
