(* ===== verification/Session.thy ===== *)
theory Session
  imports Hub
begin

text \<open>
  The downstream session of \<open>api.rs\<close>: \<open>websocket_session\<close> and \<open>send_available\<close>.  A session
  wakes up, reads the frame ring after its cursor and writes each frame; what the
  socket does with the \<open>k\<close>-th write of a wake-up is an argument.  The heartbeat and the
  client's pings write no frame; when one of them fails, the client leaves or the hub
  goes away, the session takes the \<open>Disconnect\<close> step.
\<close>

datatype write_result = Written | TimedOut | PeerClosed

datatype send_failure = CursorTooOld | WriteTimeout | WriteClosed

record session =
  after :: u64
  sent :: "wire_frame list"
  closed :: "send_failure option"

record session_stats =
  ws_frames_sent :: u64
  ws_bytes_sent :: u64
  slow_clients_dropped :: u64
  ws_cursor_rejected :: u64
  subscribers :: u64

definition session_open :: "u64 option \<Rightarrow> frame_hub \<Rightarrow> session_stats \<Rightarrow> session \<times> session_stats" where
  "session_open requested_after h st =
     (\<lparr> after = (case requested_after of Some a \<Rightarrow> a | None \<Rightarrow> fh_latest h), sent = [], closed = None \<rparr>,
      st\<lparr> subscribers := subscribers st + 1 \<rparr>)"

fun send_frames ::
  "(nat \<Rightarrow> write_result) \<Rightarrow> nat \<Rightarrow> wire_frame list \<Rightarrow> session \<times> session_stats \<Rightarrow> session \<times> session_stats" where
  "send_frames w k [] x = x"
| "send_frames w k (f # fs) (s, st) =
     (case w k of
        Written \<Rightarrow>
          send_frames w (Suc k) fs
            (s\<lparr> sent := sent s @ [f], after := max (after s) (last_sequence f) \<rparr>,
             st\<lparr> ws_frames_sent := ws_frames_sent st + 1,
                 ws_bytes_sent := ws_bytes_sent st + of_nat (length (frame_bytes f)) \<rparr>)
      | TimedOut \<Rightarrow> (s\<lparr> closed := Some WriteTimeout \<rparr>, st\<lparr> slow_clients_dropped := slow_clients_dropped st + 1 \<rparr>)
      | PeerClosed \<Rightarrow> (s\<lparr> closed := Some WriteClosed \<rparr>, st))"

definition send_available ::
  "(nat \<Rightarrow> write_result) \<Rightarrow> frame_hub \<Rightarrow> session \<times> session_stats \<Rightarrow> session \<times> session_stats" where
  "send_available w h x =
     (case x of (s, st) \<Rightarrow>
        (case frames_after (after s) h of
           Inl Lagged \<Rightarrow> (s\<lparr> closed := Some CursorTooOld \<rparr>, st\<lparr> ws_cursor_rejected := ws_cursor_rejected st + 1 \<rparr>)
         | Inr fs \<Rightarrow> send_frames w 0 fs (s, st)))"

definition subscriber_guard_drop :: "session \<times> session_stats \<Rightarrow> session \<times> session_stats" where
  "subscriber_guard_drop x =
     (case x of (s, st) \<Rightarrow>
        (s, if closed s = None then st else st\<lparr> subscribers := subscribers st - 1 \<rparr>))"

text \<open>A session lives among publications; a closed session does nothing more.\<close>

datatype session_op = PublishFrame wire_frame | WakeUp "nat \<Rightarrow> write_result" | Disconnect

fun session_step ::
  "session_op \<Rightarrow> frame_hub \<times> session \<times> session_stats \<Rightarrow> frame_hub \<times> session \<times> session_stats" where
  "session_step (PublishFrame f) (h, x) = (publish f h, x)"
| "session_step (WakeUp w) (h, s, st) =
     (h, if closed s = None then subscriber_guard_drop (send_available w h (s, st)) else (s, st))"
| "session_step Disconnect (h, s, st) =
     (h, if closed s = None then subscriber_guard_drop (s\<lparr> closed := Some WriteClosed \<rparr>, st) else (s, st))"

fun published :: "session_op list \<Rightarrow> wire_frame list" where
  "published [] = []"
| "published (PublishFrame f # ops) = f # published ops"
| "published (_ # ops) = published ops"

lemma fst_subscriber_guard_drop [simp]: "fst (subscriber_guard_drop x) = fst x"
  by (cases x) (simp add: subscriber_guard_drop_def)

subsection \<open>One wake-up\<close>

lemma send_frames_spec:
  assumes "sorted_wrt (<) (map last_sequence fs)" "\<forall>f\<in>set fs. after s < last_sequence f" "closed s = None"
  shows "\<exists>n \<le> length fs. let s' = fst (send_frames w k fs (s, st)) in
    sent s' = sent s @ take n fs \<and>
    after s' = (if n = 0 then after s else last_sequence (fs ! (n - 1))) \<and>
    (closed s' = None \<longleftrightarrow> n = length fs) \<and> closed s' \<noteq> Some CursorTooOld"
  using assms
proof (induction fs arbitrary: k s st)
  case (Cons f fs)
  show ?case
  proof (cases "w k")
    case Written
    let ?s = "s\<lparr> sent := sent s @ [f], after := max (after s) (last_sequence f) \<rparr>"
    let ?st = "st\<lparr> ws_frames_sent := ws_frames_sent st + 1,
      ws_bytes_sent := ws_bytes_sent st + of_nat (length (frame_bytes f)) \<rparr>"
    have m: "max (after s) (last_sequence f) = last_sequence f" using Cons.prems(2) by (simp add: max_absorb2 less_imp_le)
    obtain n where n: "n \<le> length fs" "sent (fst (send_frames w (Suc k) fs (?s, ?st))) = sent ?s @ take n fs"
      "after (fst (send_frames w (Suc k) fs (?s, ?st))) = (if n = 0 then after ?s else last_sequence (fs ! (n - 1)))"
      "closed (fst (send_frames w (Suc k) fs (?s, ?st))) = None \<longleftrightarrow> n = length fs"
      "closed (fst (send_frames w (Suc k) fs (?s, ?st))) \<noteq> Some CursorTooOld"
      using Cons.IH [of ?s "Suc k" ?st] Cons.prems m by (auto simp: Let_def)
    then show ?thesis
      using Written m by (intro exI [of _ "Suc n"]) (auto simp: Let_def nth_Cons')
  qed (use Cons.prems in \<open>auto simp: Let_def\<close>)
qed auto

subsection \<open>A session among publications\<close>

definition session_inv :: "u64 \<Rightarrow> wire_frame list \<Rightarrow> session \<Rightarrow> bool" where
  "session_inv a fs s \<longleftrightarrow> sent s = filter (\<lambda>f. a < last_sequence f \<and> last_sequence f \<le> after s) fs \<and>
     (after s = a \<or> a < after s \<and> after s \<in> last_sequence ` set fs)"

lemma session_inv_publish:
  assumes "session_inv a fs s" "\<forall>g\<in>set fs. last_sequence g < last_sequence f"
  shows "session_inv a (fs @ [f]) s"
proof -
  have "\<not> (a < last_sequence f \<and> last_sequence f \<le> after s)"
    using assms by (auto simp: session_inv_def)
  with assms show ?thesis by (auto simp: session_inv_def)
qed

lemma filter_upto:
  assumes "sorted_wrt (<) (map f gs)" "n < length gs"
  shows "filter (\<lambda>x. f x \<le> (f (gs ! n) :: 'b :: linorder)) gs = take (Suc n) gs"
proof -
  have s: "\<And>i j. i < j \<Longrightarrow> j < length gs \<Longrightarrow> f (gs ! i) < f (gs ! j)"
    using assms(1) by (simp add: sorted_wrt_iff_nth_less)
  have "\<forall>x\<in>set (take (Suc n) gs). f x \<le> f (gs ! n)"
    using s assms(2) by (auto simp: in_set_conv_nth) (metis less_Suc_eq less_imp_le order_refl)
  moreover have "\<forall>x\<in>set (drop (Suc n) gs). \<not> f x \<le> f (gs ! n)"
    using s assms(2) by (auto simp: in_set_conv_nth not_le)
  ultimately have "filter (\<lambda>x. f x \<le> f (gs ! n)) (take (Suc n) gs @ drop (Suc n) gs) = take (Suc n) gs"
    by (simp only: filter_append filter_True filter_False append_Nil2)
  then show ?thesis by simp
qed

lemma filter_split:
  assumes "sorted_wrt (<) (map f gs)"
  shows "gs = filter (\<lambda>x. f x \<le> (c :: 'b :: linorder)) gs @ filter (\<lambda>x. c < f x) gs"
  using assms
proof (induction gs)
  case (Cons g gs)
  show ?case
  proof (cases "f g \<le> c")
    case False
    then have "\<forall>x\<in>set gs. c < f x" using Cons.prems by (auto simp: not_le)
    then have "filter (\<lambda>x. f x \<le> c) gs = []" "filter (\<lambda>x. c < f x) gs = gs"
      by (auto simp: filter_empty_conv)
    with False show ?thesis by simp
  qed (use Cons in simp)
qed simp

lemma session_inv_send:
  assumes inv: "session_inv a fs s" and srt: "sorted_wrt (<) (map last_sequence fs)"
    and n: "n \<le> length (filter (\<lambda>f. after s < last_sequence f) fs)"
    and s': "sent s' = sent s @ take n (filter (\<lambda>f. after s < last_sequence f) fs)"
      "after s' = (if n = 0 then after s else last_sequence (filter (\<lambda>f. after s < last_sequence f) fs ! (n - 1)))"
  shows "session_inv a fs s'"
proof (cases "n = 0")
  case True
  with inv s' show ?thesis by (simp add: session_inv_def)
next
  case False
  let ?g = "filter (\<lambda>f. after s < last_sequence f) fs" and ?p = "filter (\<lambda>f. last_sequence f \<le> after s) fs"
  define m where "m = n - 1"
  have m: "m < length ?g" "n = Suc m" using False n by (simp_all add: m_def)
  have gin: "?g ! m \<in> set ?g" using m(1) by (rule nth_mem)
  have le: "a \<le> after s" using inv by (auto simp: session_inv_def)
  have af: "after s' = last_sequence (?g ! m)" "after s < after s'" using s'(2) m gin by simp_all
  have sg: "sorted_wrt (<) (map last_sequence ?g)" using srt by (simp add: sorted_wrt_map sorted_wrt_filter)
  have fs: "fs = ?p @ ?g" by (rule filter_split [OF srt])
  have g: "filter (\<lambda>f. a < last_sequence f \<and> last_sequence f \<le> after s') ?g = take n ?g"
  proof -
    have "filter (\<lambda>f. a < last_sequence f \<and> last_sequence f \<le> after s') ?g = filter (\<lambda>f. last_sequence f \<le> after s') ?g"
      using le by (intro filter_cong) auto
    also have "\<dots> = take n ?g" unfolding af(1) m(2) by (rule filter_upto [OF sg m(1)])
    finally show ?thesis .
  qed
  have p: "filter (\<lambda>f. a < last_sequence f \<and> last_sequence f \<le> after s') ?p =
      filter (\<lambda>f. a < last_sequence f \<and> last_sequence f \<le> after s) fs"
    using af(2) by (auto simp: filter_filter intro!: filter_cong)
  have "sent s' = filter (\<lambda>f. a < last_sequence f \<and> last_sequence f \<le> after s') (?p @ ?g)"
    using inv s'(1) unfolding filter_append g p by (simp add: session_inv_def)
  then show ?thesis using af le gin unfolding fs [symmetric] session_inv_def by auto
qed

lemma send_available_spec:
  assumes h: "h = fold publish fs (resuming_after cap recovered)" and a: "0 < a"
    and inv: "session_inv a fs s" and srt: "sorted_wrt (<) (map last_sequence fs)" and op: "closed s = None"
    and s': "s' = fst (send_available w h (s, st))"
  shows "session_inv a fs s' \<and> (closed s' = None \<longrightarrow> sent s' = filter (\<lambda>f. a < last_sequence f) fs) \<and>
    (closed s' = Some CursorTooOld \<longleftrightarrow> after s < recovered \<or>
      (\<exists>f\<in>set (take (length fs - max cap 1) fs). after s < last_sequence f))"
proof -
  let ?g = "filter (\<lambda>f. after s < last_sequence f) fs"
  let ?late = "after s < recovered \<or> (\<exists>f\<in>set (take (length fs - max cap 1) fs). after s < last_sequence f)"
  have le: "a \<le> after s" using inv by (auto simp: session_inv_def)
  then have pos: "0 < after s" using a by simp
  have rd: "frames_after (after s) h = (if ?late then Inl Lagged else Inr ?g)"
    using frames_after_read [OF h pos] by simp
  show ?thesis
  proof (cases ?late)
    case True
    then have "s' = s\<lparr> closed := Some CursorTooOld \<rparr>" by (simp add: s' send_available_def rd)
    with True inv show ?thesis by (simp add: session_inv_def)
  next
    case False
    then have sf: "s' = fst (send_frames w 0 ?g (s, st))" by (simp add: s' send_available_def rd)
    have "sorted_wrt (<) (map last_sequence ?g)" using srt by (simp add: sorted_wrt_map sorted_wrt_filter)
    moreover have "\<forall>f\<in>set ?g. after s < last_sequence f" by simp
    ultimately have "\<exists>n \<le> length ?g. sent s' = sent s @ take n ?g \<and>
        after s' = (if n = 0 then after s else last_sequence (?g ! (n - 1))) \<and>
        (closed s' = None \<longleftrightarrow> n = length ?g) \<and> closed s' \<noteq> Some CursorTooOld"
      using send_frames_spec [of ?g s w 0 st] op unfolding sf Let_def by blast
    then obtain n where "n \<le> length ?g \<and> sent s' = sent s @ take n ?g \<and>
        after s' = (if n = 0 then after s else last_sequence (?g ! (n - 1))) \<and>
        (closed s' = None \<longleftrightarrow> n = length ?g) \<and> closed s' \<noteq> Some CursorTooOld" ..
    then have n: "n \<le> length ?g" "sent s' = sent s @ take n ?g"
      "after s' = (if n = 0 then after s else last_sequence (?g ! (n - 1)))"
      "closed s' = None \<longleftrightarrow> n = length ?g" "closed s' \<noteq> Some CursorTooOld" by - (elim conjE, assumption)+
    have "filter (\<lambda>f. a < last_sequence f) fs =
        filter (\<lambda>f. a < last_sequence f) (filter (\<lambda>f. last_sequence f \<le> after s) fs @ ?g)"
      using filter_split [OF srt, of "after s"] by simp
    also have "\<dots> = sent s @ ?g"
      using inv le by (auto simp: session_inv_def filter_filter intro!: arg_cong2 [of _ _ _ _ append] filter_cong)
    finally have "closed s' = None \<longrightarrow> sent s' = filter (\<lambda>f. a < last_sequence f) fs" using n(2,4) by simp
    with session_inv_send [OF inv srt n(1-3)] n(5) False show ?thesis by simp
  qed
qed

lemma published_append: "published (xs @ ys) = published xs @ published ys"
  by (induction xs rule: published.induct) simp_all

lemma session_run:
  assumes "0 < a" "sorted_wrt (<) (map last_sequence (published ops))"
    and "(h, s, st) = fold session_step ops (resuming_after cap recovered, \<lparr> after = a, sent = [], closed = None \<rparr>, st0)"
  shows "h = fold publish (published ops) (resuming_after cap recovered) \<and> session_inv a (published ops) s"
  using assms(2,3)
proof (induction ops arbitrary: h s st rule: rev_induct)
  case Nil
  then show ?case by (simp add: session_inv_def)
next
  case (snoc op ops)
  obtain h1 s1 st1 where r: "fold session_step ops (resuming_after cap recovered, \<lparr> after = a, sent = [], closed = None \<rparr>, st0) =
      (h1, s1, st1)" by (metis prod_cases3)
  have srt: "sorted_wrt (<) (map last_sequence (published ops))"
    using snoc.prems(1) by (simp add: published_append sorted_wrt_append)
  have ih: "h1 = fold publish (published ops) (resuming_after cap recovered)" "session_inv a (published ops) s1"
    using snoc.IH [OF srt r [symmetric]] by simp_all
  show ?case
  proof (cases op)
    case (PublishFrame f)
    with snoc.prems r have "h = publish f h1" "s = s1" by simp_all
    moreover have "\<forall>g\<in>set (published ops). last_sequence g < last_sequence f"
      using snoc.prems(1) PublishFrame by (simp add: published_append sorted_wrt_append)
    ultimately show ?thesis using ih PublishFrame session_inv_publish by (simp add: published_append)
  next
    case (WakeUp w)
    with snoc.prems r have "h = h1" "closed s1 \<noteq> None \<Longrightarrow> s = s1"
      "closed s1 = None \<Longrightarrow> s = fst (send_available w h1 (s1, st1))" by (auto simp: prod_eq_iff)
    then show ?thesis
      using ih WakeUp send_available_spec [OF ih(1) assms(1) ih(2) srt, of s w st1]
      by (cases "closed s1 = None") (simp_all add: published_append)
  next
    case Disconnect
    with snoc.prems r have "h = h1" "s = s1 \<or> s = s1\<lparr> closed := Some WriteClosed \<rparr>"
      by (auto simp: prod_eq_iff)
    then show ?thesis using ih Disconnect by (auto simp: published_append session_inv_def)
  qed
qed


definition sample_session :: "frame_hub \<times> session \<times> session_stats" where
  "sample_session =
     (resuming_after 2 0, \<lparr> after = 1, sent = [], closed = None \<rparr>,
      \<lparr> ws_frames_sent = 0, ws_bytes_sent = 0, slow_clients_dropped = 0, ws_cursor_rejected = 0, subscribers = 1 \<rparr>)"

definition always_written :: "nat \<Rightarrow> write_result" where
  "always_written k = Written"

lemma always_written_step [simp]: "always_written k = Written"
  by (simp add: always_written_def)


text \<open>
  C23: sequence numbers published out of order are lost to a session.  When the frame
  with the higher number is published first and a session wakes up between the two
  publications, the frame with the lower number is not written to it however often it
  wakes up afterwards, although the ring holds it and the session stays open.
\<close>

theorem session_skips_late_frame:
  assumes "0 < a" "a < last_sequence f1" "last_sequence f1 < last_sequence f2"
    and "(h, s, st) = fold session_step ([PublishFrame f2, WakeUp always_written, PublishFrame f1] @ replicate n (WakeUp w))
       (resuming_after 2 0, \<lparr> after = a, sent = [], closed = None \<rparr>, st0)"
  shows "sent s = [f2] \<and> closed s = None \<and> frames_after a h = Inr [f2, f1]"
proof -
  define h2 where "h2 = publish f2 (resuming_after 2 0)"
  define h1 where "h1 = publish f1 h2"
  define s1 where "s1 = \<lparr> after = last_sequence f2, sent = [f2], closed = None \<rparr>"
  have a: "a < last_sequence f2" using assms(2,3) by simp
  have f2: "fh_frames h2 = [f2]" "replay_floor h2 = 0" "fh_capacity h2 = 2"
    by (simp_all add: h2_def publish_def resuming_after_def)
  have fr: "fh_frames h1 = [f2, f1]" "replay_floor h1 = 0" by (simp_all add: h1_def publish_def f2)
  have "frames_after a h2 = Inr [f2]" using a by (simp add: frames_after_def f2)
  then have "fst (send_available always_written h2 (\<lparr> after = a, sent = [], closed = None \<rparr>, st0)) = s1"
    using a by (simp add: send_available_def s1_def max_absorb2 less_imp_le)
  then obtain st1 where "session_step (WakeUp always_written) (h2, \<lparr> after = a, sent = [], closed = None \<rparr>, st0) = (h2, s1, st1)"
    by (simp add: subscriber_guard_drop_def split_beta)
  then have s1: "fold session_step [PublishFrame f2, WakeUp always_written, PublishFrame f1]
      (resuming_after 2 0, \<lparr> after = a, sent = [], closed = None \<rparr>, st0) = (h1, s1, st1)"
    by (simp add: h1_def h2_def)
  have "frames_after (after s1) h1 = Inr []" using assms(3) by (simp add: s1_def frames_after_def fr)
  then have idle: "session_step (WakeUp w) (h1, s1, st1) = (h1, s1, st1)"
    by (simp add: send_available_def subscriber_guard_drop_def s1_def)
  then have "fold session_step (replicate n (WakeUp w)) (h1, s1, st1) = (h1, s1, st1)" by (induction n) simp_all
  with s1 assms(4) have "h = h1" "s = s1" by (simp_all only: fold_append comp_apply prod.inject)
  with fr a assms(2) show ?thesis by (simp add: frames_after_def s1_def)
qed

theorem session_skips_late_frame_witness:
  "sent (fst (snd (fold session_step ([PublishFrame (sample_frame 1 3), WakeUp always_written,
      PublishFrame (sample_frame 2 2)] @ replicate 4 (WakeUp always_written)) sample_session))) = [sample_frame 1 3]"
proof -
  obtain h s st where r: "(h, s, st) = fold session_step ([PublishFrame (sample_frame 1 3), WakeUp always_written,
      PublishFrame (sample_frame 2 2)] @ replicate 4 (WakeUp always_written)) sample_session" by (metis prod_cases3)
  have "sent s = [sample_frame 1 3]"
    using session_skips_late_frame [where a = 1, OF _ _ _ r [unfolded sample_session_def]] by (simp add: sample_frame_def)
  then show ?thesis using r [symmetric] by simp
qed

end
