(* ===== verification/Service.thy ===== *)
theory Service
  imports Pipeline Batcher Session
begin

text \<open>
  The start of the service (\<open>run\<close> of \<open>main.rs\<close>) and the way of an event through it.
  \<open>boot\<close> reads the journal back, rebuilds the event hub, draws the sequence number to
  continue from and the floor below which a client's cursor is refused, and restores
  the counters.
\<close>

record service_config =
  event_ring_capacity :: nat
  frame_ring_capacity :: nat
  live_buffer :: nat
  service_contracts :: "bytes list"
  service_require_market_id :: bool

definition was_broadcast :: "blocklist \<Rightarrow> event_record \<Rightarrow> bool" where
  "was_broadcast bl e \<longleftrightarrow> enrichment e \<noteq> None \<and>
     \<not> blocked_before (resolved_condition_id e) (upstream_received_at_us (event_chain (event e))) bl"

definition recovery_step :: "blocklist \<Rightarrow> event_record \<Rightarrow> u64 \<times> u64 \<times> event_hub \<Rightarrow> u64 \<times> u64 \<times> event_hub" where
  "recovery_step bl e x =
     (case x of (initial_sequence, last_broadcast_sequence, hub) \<Rightarrow>
        (max initial_sequence (sequence e),
         if was_broadcast bl e then max last_broadcast_sequence (sequence e) else last_broadcast_sequence,
         snd (event_hub_insert e hub)))"

definition recovered_events :: "pb_enums \<Rightarrow> wal_env \<Rightarrow> nat \<Rightarrow> bytes option \<Rightarrow> event_record list" where
  "recovered_events P W capacity wal = (case load_events P W capacity wal of Inr es \<Rightarrow> es | Inl _ \<Rightarrow> [])"

definition restored_stats :: "enrichment_snapshot option \<Rightarrow> u64 option \<Rightarrow> stats" where
  "restored_stats snapshot uma_cursor =
     (let st = (case snapshot of
                  None \<Rightarrow> stats_new
                | Some v \<Rightarrow> stats_new\<lparr> enrichment_hits := hits v, enrichment_hits_via_market_id := hits_via_market_id v,
                                      enrichment_misses := misses v \<rparr>)
      in st\<lparr> latest_block := (case uma_cursor of Some b \<Rightarrow> b | None \<Rightarrow> 0) \<rparr>)"

definition boot ::
  "pb_enums \<Rightarrow> wal_env \<Rightarrow> service_config \<Rightarrow> bytes option \<Rightarrow> blocklist \<Rightarrow> catalog \<Rightarrow> stats \<Rightarrow> processor \<times> frame_hub" where
  "boot P W cfg wal bl cat st =
     (let recovered = recovered_events P W (event_ring_capacity cfg) wal;
          (initial_sequence, last_broadcast_sequence, hub) =
            fold (recovery_step bl) recovered (0, 0, event_hub_new (event_ring_capacity cfg))
      in (processor_new (service_contracts cfg) (service_require_market_id cfg) cat hub (max (live_buffer cfg) 1) st bl
            initial_sequence,
          resuming_after (frame_ring_capacity cfg) last_broadcast_sequence))"

subsection \<open>Recovery\<close>

lemma recovery_fold:
  "fold (recovery_step bl) es (n, b, h) =
     (fold (\<lambda>e m. max m (sequence e)) es n,
      fold (\<lambda>e m. max m (sequence e)) (filter (was_broadcast bl) es) b,
      fold (\<lambda>e h. snd (event_hub_insert e h)) es h)"
  by (induction es arbitrary: n b h) (simp_all add: recovery_step_def)

lemma fold_max_less: "(a :: u64) < fold (\<lambda>e m. max m (f e)) es n \<longleftrightarrow> a < n \<or> (\<exists>e\<in>set es. a < f e)"
  by (induction es arbitrary: n) (auto simp: less_max_iff_disj)

lemma fold_max_upper: "e \<in> set es \<Longrightarrow> f e \<le> fold (\<lambda>e m. max m (f e)) es (n :: u64)"
  using fold_max_less [of "fold (\<lambda>e m. max m (f e)) es n" f es n] by (auto simp: not_less)

lemma boot_parts:
  assumes "boot P W cfg wal bl cat st = (p, h)"
  defines "es \<equiv> recovered_events P W (event_ring_capacity cfg) wal"
  shows "p = processor_new (service_contracts cfg) (service_require_market_id cfg) cat
      (fold (\<lambda>e h. snd (event_hub_insert e h)) es (event_hub_new (event_ring_capacity cfg))) (max (live_buffer cfg) 1) st bl
      (fold (\<lambda>e m. max m (sequence e)) es 0)"
    "h = resuming_after (frame_ring_capacity cfg) (fold (\<lambda>e m. max m (sequence e)) (filter (was_broadcast bl) es) 0)"
  using assms(1) by (simp_all add: boot_def es_def recovery_fold Let_def)

text \<open>
  a restart neither repeats a sequence number of the journal nor hides a
  broadcast event from a client.  After \<open>boot\<close> the next number is greater than
  every recovered one, and a cursor is refused exactly when a recovered event past it
  had been broadcast; otherwise reading after it gives the empty list, never an error.
\<close>

theorem boot_resumes:
  assumes "boot P W cfg wal bl cat st = (p, h)" "0 < a"
  shows "(\<forall>e\<in>set (recovered_events P W (event_ring_capacity cfg) wal). sequence e \<le> psequence p) \<and>
    frames_after a h =
      (if \<exists>e\<in>set (recovered_events P W (event_ring_capacity cfg) wal).
            was_broadcast bl e \<and> a < sequence e then Inl Lagged else Inr [])"
proof -
  let ?es = "recovered_events P W (event_ring_capacity cfg) wal"
  have "frames_after a h = (if a < fold (\<lambda>e m. max m (sequence e)) (filter (was_broadcast bl) ?es) 0 then Inl Lagged else Inr [])"
    using assms(2) by (simp add: boot_parts(2) [OF assms(1)] frames_after_def resuming_after_def)
  moreover have "\<forall>e\<in>set ?es. sequence e \<le> psequence p"
    by (simp add: boot_parts(1) [OF assms(1)] processor_new_def fold_max_upper)
  ultimately show ?thesis by (auto simp: fold_max_less)
qed

subsection \<open>From the sources to a client\<close>

lemma sequence_run:
  assumes "(processing_step C ^^ n) (processing_start p) s" "batch_tx p = []" "unat (psequence p) + n < 2 ^ 64"
  shows "sequence_inv (psequence p) n s"
  using assms(1,3)
proof (induction n arbitrary: s)
  case 0
  then show ?case using assms(2) by (auto simp: sequence_inv_def in_flight_def processing_start_def)
next
  case (Suc n)
  then obtain t where "(processing_step C ^^ n) (processing_start p) t" "processing_step C t s" by auto
  with Suc show ?case by (auto intro: sequence_inv_step)
qed

definition covers :: "wire_frame \<Rightarrow> event_record \<Rightarrow> bool" where
  "covers f e \<longleftrightarrow> first_sequence f \<le> sequence e \<and> sequence e \<le> last_sequence f"

lemma sorted_hd_last:
  assumes "sorted_wrt (<) (map sequence b)" "e \<in> set b"
  shows "sequence (hd b) \<le> sequence e \<and> sequence e \<le> sequence (last b)"
proof -
  obtain i where i: "i < length b" "e = b ! i" using assms(2) by (auto simp: in_set_conv_nth)
  have "sorted (map sequence b)" using assms(1) by (rule strict_sorted_imp_sorted)
  then have "map sequence b ! 0 \<le> map sequence b ! i" "map sequence b ! i \<le> map sequence b ! (length b - 1)"
    using i(1) by (intro sorted_nth_mono; simp)+
  moreover have "b \<noteq> []" using i(1) by auto
  ultimately show ?thesis using i by (simp add: hd_conv_nth last_conv_nth)
qed

lemma covered_once:
  assumes "list_all2 frame_of fs bs" "sorted_wrt (<) (map sequence (concat bs))" "\<forall>b\<in>set bs. b \<noteq> []"
    and "e \<in> set (concat bs)"
  shows "\<exists>!f. f \<in> set fs \<and> covers f e"
  using assms
proof (induction fs bs rule: list_all2_induct)
  case (Cons f fs b bs)
  have b: "b \<noteq> []" "first_sequence f = sequence (hd b)" "last_sequence f = sequence (last b)"
    using Cons by (simp_all add: frame_of_def)
  have srt: "sorted_wrt (<) (map sequence b)" "sorted_wrt (<) (map sequence (concat bs))"
    and lt: "\<forall>x\<in>set b. \<forall>y\<in>set (concat bs). sequence x < sequence y"
    using Cons.prems(1) by (auto simp: sorted_wrt_append)
  have later: "\<exists>y\<in>set (concat bs). sequence y = first_sequence g" if "g \<in> set fs" for g
  proof -
    obtain c where "c \<in> set bs" "frame_of g c" using Cons.hyps(2) \<open>g \<in> set fs\<close> by (metis list_all2_conv_all_nth in_set_conv_nth)
    moreover have "hd c \<in> set c" using \<open>c \<in> set bs\<close> Cons.prems(2) by simp
    ultimately show ?thesis by (intro bexI [of _ "hd c"]) (auto simp: frame_of_def)
  qed
  show ?case
  proof (cases "e \<in> set b")
    case True
    have "covers f e" using sorted_hd_last [OF srt(1) True] b by (simp add: covers_def)
    moreover have "\<not> covers g e" if "g \<in> set fs" for g
      using later [OF that] lt True by (force simp: covers_def)
    ultimately show ?thesis by (intro ex1I [of _ f]) auto
  next
    case False
    then have e: "e \<in> set (concat bs)" using Cons.prems(3) by simp
    have "sequence (last b) < sequence e" using bspec [OF bspec [OF lt last_in_set [OF b(1)]] e] .
    then have "\<not> covers f e" using b(3) by (auto simp: covers_def)
    moreover have "\<exists>!g. g \<in> set fs \<and> covers g e" using Cons.IH srt(2) Cons.prems(2) e by simp
    ultimately show ?thesis by auto
  qed
qed simp


text \<open>
  C25: events lost with the unflushed journal are silently skipped afterwards.  When a
  client's cursor \<open>a\<close> is beyond the numbers recovered, every event sent in the first
  steps after the start gets a number up to \<open>a\<close> again, and reading after \<open>a\<close> gives the
  empty list, not the error that would make the client start over.
\<close>

theorem restart_skips_reused_numbers:
  assumes "boot P W cfg wal bl cat st = (p, h)" "0 < a"
    and "(processing_step C ^^ n) (processing_start p) s" "unat (psequence p) + n \<le> unat a"
    and "b = run_batcher E len bcfg rounds (batcher_new h)" "concat (map snd rounds) = batch_tx (proc s)"
    and "sorted_wrt (<) (map sequence (batch_tx (proc s)))" "encodes E bcfg (batch_tx (proc s))"
  shows "(\<forall>e\<in>set (batch_tx (proc s)). psequence p < sequence e \<and> sequence e \<le> a) \<and> frames_after a (bt_frames b) = Inr []"
proof -
  let ?es = "batch_tx (proc s)" and ?rec = "recovered_events P W (event_ring_capacity cfg) wal"
  define floor where "floor = fold (\<lambda>e m. max m (sequence e)) (filter (was_broadcast bl) ?rec) 0"
  have h: "h = resuming_after (frame_ring_capacity cfg) floor" and p: "batch_tx p = []"
    and seq: "psequence p = fold (\<lambda>e m. max m (sequence e)) ?rec 0"
    using boot_parts [OF assms(1)] by (simp_all add: floor_def processor_new_def)
  have a: "psequence p \<le> a" using assms(4) by (simp add: word_le_nat_alt)
  have "\<not> psequence p < floor" unfolding seq floor_def fold_max_less by (auto simp: not_less fold_max_upper)
  then have fl: "\<not> a < floor" using a by simp
  have inv: "sequence_inv (psequence p) n s"
    using sequence_run [OF assms(3) p] assms(4) unsigned_less [of a, where ?'a = nat] by simp
  have es: "psequence p < sequence e" "sequence e \<le> a" if "e \<in> set ?es" for e
  proof -
    have "psequence p < sequence e" "sequence e \<le> psequence (proc s)" "unat (psequence (proc s)) \<le> unat (psequence p) + n"
      using inv that by (simp_all add: sequence_inv_def in_flight_def)
    then show "psequence p < sequence e" "sequence e \<le> a" using assms(4) by (simp_all add: word_le_nat_alt)
  qed
  obtain bs fs where bs: "bt_batches b = bs" "list_all2 frame_of fs bs" "bt_frames b = fold publish fs h"
    using run_batcher_frames [of E bcfg "batcher_new h" rounds len] assms(5,6,8) by auto
  have cc: "concat bs @ waiting b = ?es" "\<forall>b\<in>set bs. b \<noteq> []"
    using run_batcher_spec [of E len bcfg rounds "batcher_new h"] assms(6) bs(1)
    by (auto simp flip: assms(5) simp: list_all_iff batch_ok_def)
  have "sorted_wrt (<) (map sequence (concat bs))" using assms(7) by (simp flip: cc(1) add: sorted_wrt_append)
  then have fs: "\<forall>f\<in>set fs. \<not> a < last_sequence f"
    using frames_increasing [OF bs(2)] cc es(2) by (fastforce simp flip: cc(1) simp: not_less)
  then have "frames_after a (bt_frames b) = Inr []"
    using frames_after_read [of "fold publish fs h" fs "frame_ring_capacity cfg" floor a] fl assms(2)
    by (auto simp: h bs(3) dest: in_set_takeD)
  with es show ?thesis by blast
qed

subsection \<open>A sample restart\<close>

lemma single_run:
  assumes "decode_signal_log C l t (contract_address_bytes p) (require_market_id p) = Inr e"
    and "event_hub_ok (events p)" "chain_key (event_chain e) \<notin> eh_keys (events p)"
    and "enrichment (record_of e (psequence p + 1) (pcatalog p)) = Some m"
    and "blocklist_lookup (me_condition_id m) (forfeit p) = None" "batch_tx p = []"
  shows "\<exists>s. (processing_step C ^^ 3) (processing_start p) s \<and>
    batch_tx (proc s) = [record_of e (psequence p + 1) (pcatalog p)]"
proof -
  let ?r = "record_of e (psequence p + 1) (pcatalog p)"
  obtain p1 where p1: "prepare C l t [] p = (Some ?r, p1)" "same_setting p1 p" "events p1 = events p" "batch_tx p1 = []"
    using prepare_accepts [OF assms(1), of "[]"] assms(3,6) by (auto simp: event_hub_contains_def)
  obtain p2 where p2: "admit ?r [] p1 = (True, p2)" "same_setting p2 p" "batch_tx p2 = []"
    using admit_accepts [of p1 ?r "[]"] assms(2,3) p1 by (auto simp: same_setting_def)
  have p3: "batch_tx (deliver C 0 ?r p2) = [?r]"
    using deliver_accepts [OF assms(4), of p2 C 0] assms(5) p2 by (auto simp: same_setting_def)
  let ?S = "\<lambda>p xs ys. \<lparr> proc = p, prepared = xs, admitted_now = ys \<rparr>"
  have s1: "processing_step C (?S p [] []) (?S p1 [(?r, [])] [])"
    using processing_step.Prepare [of C l t "[]" "?S p [] []", simplified, OF p1(1)] by simp
  have s2: "processing_step C (?S p1 [(?r, [])] []) (?S p2 [] [?r])"
    using processing_step.Admit [of "?S p1 [(?r, [])] []" "[]", simplified, OF _ p2(1)] by simp
  have s3: "processing_step C (?S p2 [] [?r]) (?S (deliver C 0 ?r p2) [] [])"
    using processing_step.Deliver [of "?S p2 [] [?r]" "[]" ?r "[]" C 0, simplified] by simp
  have "(processing_step C ^^ Suc (Suc (Suc 0))) (?S p [] []) (?S (deliver C 0 ?r p2) [] [])"
    by (rule relpowp_Suc_I2, rule s1, rule relpowp_Suc_I2, rule s2, rule relpowp_Suc_I2, rule s3, rule relpowp_0_I)
  then show ?thesis using p3 unfolding processing_start_def numeral_3_eq_3 by fastforce
qed

definition sample_config :: service_config where
  "sample_config = \<lparr> event_ring_capacity = 9, frame_ring_capacity = 4, live_buffer = 5, service_contracts = [],
     service_require_market_id = True \<rparr>"

lemma sample_reread:
  "sequence (reread sample_enums (sample_event_record n)) = n"
  "key_of (reread sample_enums (sample_event_record n)) = key_of (sample_event_record n)"
  "was_broadcast blocklist_disabled (reread sample_enums (sample_event_record n))"
proof -
  obtain r' where r': "from_proto sample_enums (to_proto sample_enums (sample_event_record n)) = Some r'"
    "sequence r' = sequence (sample_event_record n)" "key_of r' = key_of (sample_event_record n)"
    "enrichment r' = map_option (\<lambda>en. en\<lparr>me_market_id := event_market_id (event (sample_event_record n))\<rparr>) (enrichment (sample_event_record n))"
    by (rule from_to_proto [OF sample_enums_ok, of "sample_event_record n"])
      (simp_all add: sample_event_record_def sample_record_widths)
  then show "sequence (reread sample_enums (sample_event_record n)) = n"
    "key_of (reread sample_enums (sample_event_record n)) = key_of (sample_event_record n)"
    "was_broadcast blocklist_disabled (reread sample_enums (sample_event_record n))"
    by (simp_all add: reread_def was_broadcast_def blocked_before_def blocklist_disabled_def blocklist_empty_def)
      (simp_all add: sample_event_record_def sample_record_def)
qed

lemma sample_recovered:
  "recovered_events sample_enums sample_wal 9 (Some (wal_image sample_enums sample_wal (map sample_event_record ns))) =
     take_last 9 (map (\<lambda>n. reread sample_enums (sample_event_record n)) ns)"
proof -
  have ok: "list_all (wal_ok sample_enums sample_wal) (map sample_event_record ns)" by (simp add: list_all_iff sample_wal_ok)
  obtain n where n: "n \<le> length ns" "length ns \<le> n"
    "load_events sample_enums sample_wal 9 (Some (wal_image sample_enums sample_wal (map sample_event_record ns))) =
      Inr (take_last (max 9 1) (map (reread sample_enums) (take n (map sample_event_record ns))))"
    using load_events_prefix [OF sample_enums_ok ok prefix_order.refl, of 9]
    by (metis length_map order_refl take_all_iff wal_image_def)
  then have "load_events sample_enums sample_wal 9 (Some (wal_image sample_enums sample_wal (map sample_event_record ns))) =
      Inr (take_last 9 (map (\<lambda>n. reread sample_enums (sample_event_record n)) ns))" by (simp add: comp_def)
  then show ?thesis by (simp add: recovered_events_def)
qed

definition sample_boot :: "u64 list \<Rightarrow> processor \<times> frame_hub" where
  "sample_boot ns = boot sample_enums sample_wal sample_config
     (Some (wal_image sample_enums sample_wal (map sample_event_record ns))) blocklist_disabled sample_catalog stats_new"

lemma sample_boot_run:
  assumes "ns = [] \<or> ns = [4]" "sample_boot ns = (p, h)"
  shows "\<exists>s. (processing_step sample_crypto ^^ 3) (processing_start p) s \<and>
    batch_tx (proc s) = [record_of sample_event (psequence p + 1) sample_catalog]"
    "psequence p = (if ns = [] then 0 else 4)" "frames_after 4 h = Inr []"
proof -
  let ?r = "reread sample_enums (sample_event_record 4)"
  define hub where "hub = fold (\<lambda>e h. snd (event_hub_insert e h)) (if ns = [] then [] else [?r]) (event_hub_new 9)"
  have p: "p = processor_new [] True sample_catalog hub 5 stats_new blocklist_disabled (if ns = [] then 0 else 4)"
    "h = resuming_after 4 (if ns = [] then 0 else 4)"
    using boot_parts [OF assms(2) [unfolded sample_boot_def]] assms(1)
    by (auto simp: sample_config_def sample_recovered hub_def sample_reread take_last_all)
  then show "psequence p = (if ns = [] then 0 else 4)" "frames_after 4 h = Inr []"
    by (simp_all add: processor_new_def frames_after_def resuming_after_def)
  have hub: "event_hub_ok hub" "eh_keys hub \<subseteq> {key_of (sample_event_record 4)}"
    using event_hub_insert_fresh [OF event_hub_new_ok, of ?r 9]
    by (auto simp: hub_def event_hub_ok_def event_hub_new_def take_last_all sample_reread)
  have "key_of (sample_event_record 4) \<noteq> chain_key (event_chain sample_event)"
    by (simp add: sample_event_record_def sample_record_def key_of_def chain_key_def sample_event_def sample_chain_def)
  with hub(2) have "chain_key (event_chain sample_event) \<notin> eh_keys hub" by auto
  then show "\<exists>s. (processing_step sample_crypto ^^ 3) (processing_start p) s \<and>
      batch_tx (proc s) = [record_of sample_event (psequence p + 1) sample_catalog]"
    using single_run [of sample_crypto sample_log 9 p sample_event "sample_row 42 7 Sports"] hub(1) sample_enriched
    by (simp add: p(1) processor_new_def decode_sample_log blocklist_lookup_def blocklist_disabled_def blocklist_empty_def)
qed

lemma sample_rounds:
  "b = run_batcher sample_wire_env (\<lambda>_. 3) sample_batching [(1, [e])] (batcher_new h) \<Longrightarrow>
   waiting b = [] \<and> length (bt_batches b) = 1"
  by (simp add: batch_round_def take_first_def batcher_new_def waiting_def Let_def split: sum.splits)

theorem boot_resumes_witness:
  "\<exists>p h. sample_boot [4] = (p, h) \<and> frames_after 3 h = Inl Lagged \<and> frames_after 4 h = Inr []"
proof -
  obtain p h where b: "sample_boot [4] = (p, h)" by fastforce
  note r = boot_resumes [OF b [unfolded sample_boot_def]]
  show ?thesis
    using b r [of 3] r [of 4] by (simp add: sample_config_def sample_recovered [of "[4]", simplified] take_last_all sample_reread)
qed


theorem restart_skips_reused_numbers_witness:
  "\<exists>p h s. sample_boot [] = (p, h) \<and> (processing_step sample_crypto ^^ 3) (processing_start p) s \<and>
     map sequence (batch_tx (proc s)) = [1] \<and>
     frames_after 4 (bt_frames (run_batcher sample_wire_env (\<lambda>_. 3) sample_batching [(1, batch_tx (proc s))] (batcher_new h)))
       = Inr []"
proof -
  obtain p h where b: "sample_boot [] = (p, h)" by fastforce
  obtain s where s: "(processing_step sample_crypto ^^ 3) (processing_start p) s"
    "batch_tx (proc s) = [record_of sample_event (psequence p + 1) sample_catalog]" and q: "psequence p = 0"
    using sample_boot_run [OF _ b] by auto
  have "frames_after 4 (bt_frames (run_batcher sample_wire_env (\<lambda>_. 3) sample_batching [(1, batch_tx (proc s))] (batcher_new h)))
       = Inr []"
    by (rule restart_skips_reused_numbers [OF b [unfolded sample_boot_def] _ s(1) _ refl _ _ sample_encodes, THEN conjunct2])
      (simp_all add: q s(2))
  with b s q show ?thesis by (auto simp: record_of_def)
qed

end
