(* ===== verification/Edge_Frame.thy ===== *)
theory Edge_Frame
  imports Wire
begin

text \<open>
  \<open>edge/frame.rs\<close>: the edge node reads the batch number, the send time and the largest
  event number of a frame by walking the protobuf wire format by hand.  A \<open>Cursor\<close> is
  the bytes that are left of it.  Decompression is a parameter.
\<close>

unbundle bit_operations_syntax

definition MAX_DECOMPRESSED :: nat where "MAX_DECOMPRESSED = 262144"

record frame_info =
  compressed :: bool
  schema :: u8
  payload_size :: nat
  info_batch_sequence :: u64
  sent_at_us :: u64
  last_event_sequence :: u64

datatype bad_frame = TooShort | BadMagic | TruncatedVarint | TruncatedField | WireType u8

subsection \<open>The cursor\<close>

fun varint_from :: "u64 \<Rightarrow> nat \<Rightarrow> bytes \<Rightarrow> bad_frame + u64 \<times> bytes" where
  "varint_from value shift [] = Inl TruncatedVarint"
| "varint_from value shift (byte # rest) =
     (let value = (if shift < 64 then value OR push_bit shift (ucast (byte AND 127)) else value)
      in if byte AND 128 = 0 then Inr (value, rest)
         else if shift + 7 > 70 then Inl TruncatedVarint
         else varint_from value (shift + 7) rest)"

definition varint :: "bytes \<Rightarrow> bad_frame + u64 \<times> bytes" where
  "varint buf = varint_from 0 0 buf"

definition advance_by :: "nat \<Rightarrow> bytes \<Rightarrow> bad_frame + bytes" where
  "advance_by n buf = (if n > length buf then Inl TruncatedField else Inr (drop n buf))"

definition cursor_bytes :: "bytes \<Rightarrow> bad_frame + bytes \<times> bytes" where
  "cursor_bytes buf = and_then (varint buf) (\<lambda>(len, rest).
     if unat len > length rest then Inl TruncatedField
     else Inr (take (unat len) rest, drop (unat len) rest))"

definition skip_field :: "u8 \<Rightarrow> bytes \<Rightarrow> bad_frame + bytes" where
  "skip_field wire buf =
     (if wire = 0 then and_then (varint buf) (\<lambda>(_, rest). Inr rest)
      else if wire = 1 then advance_by 8 buf
      else if wire = 2 then and_then (cursor_bytes buf) (\<lambda>(_, rest). Inr rest)
      else if wire = 5 then advance_by 4 buf
      else Inl (WireType wire))"

lemma varint_from_shorter: "varint_from v s buf = Inr (x, rest) \<Longrightarrow> length rest < length buf"
  by (induction v s buf rule: varint_from.induct) (auto simp: Let_def split: if_splits)

lemma varint_shorter: "varint buf = Inr (x, rest) \<Longrightarrow> length rest < length buf"
  by (simp add: varint_def varint_from_shorter)

lemma cursor_bytes_shorter: "cursor_bytes buf = Inr (x, rest) \<Longrightarrow> length rest < length buf"
  by (auto simp: cursor_bytes_def split: if_splits dest!: varint_shorter)

lemma skip_field_shorter: "skip_field w buf = Inr rest \<Longrightarrow> length rest \<le> length buf"
  by (auto simp: skip_field_def advance_by_def split: if_splits dest!: varint_shorter cursor_bytes_shorter)

subsection \<open>Walking a message\<close>

function walk_event_from :: "u64 \<Rightarrow> bytes \<Rightarrow> bad_frame + u64" where
  "walk_event_from seq buf =
     (if buf = [] then Inr seq
      else case varint buf of
        Inl e \<Rightarrow> Inl e
      | Inr (key, rest) \<Rightarrow>
          (if drop_bit 3 key = 1 \<and> ucast (key AND 7) = (0 :: u8)
           then (case varint rest of Inl e \<Rightarrow> Inl e | Inr (v, rest) \<Rightarrow> walk_event_from v rest)
           else (case skip_field (ucast (key AND 7)) rest of Inl e \<Rightarrow> Inl e | Inr rest \<Rightarrow> walk_event_from seq rest)))"
  by pat_completeness auto
termination
  by (relation "measure (\<lambda>(_, buf). length buf)") (auto dest!: varint_shorter skip_field_shorter)

definition walk_event :: "bytes \<Rightarrow> bad_frame + u64" where
  "walk_event payload = walk_event_from 0 payload"

function walk_batch :: "bytes \<Rightarrow> frame_info \<Rightarrow> bad_frame + frame_info" where
  "walk_batch buf info =
     (if buf = [] then Inr info
      else case varint buf of
        Inl e \<Rightarrow> Inl e
      | Inr (key, rest) \<Rightarrow>
          (let field = drop_bit 3 key; wire = ucast (key AND 7) :: u8
           in if field = 2 \<and> wire = 0
              then (case varint rest of Inl e \<Rightarrow> Inl e
                    | Inr (v, rest) \<Rightarrow> walk_batch rest (info\<lparr> info_batch_sequence := v \<rparr>))
              else if field = 3 \<and> wire = 0
              then (case varint rest of Inl e \<Rightarrow> Inl e
                    | Inr (v, rest) \<Rightarrow> walk_batch rest (info\<lparr> sent_at_us := v \<rparr>))
              else if field = 4 \<and> wire = 2
              then (case cursor_bytes rest of Inl e \<Rightarrow> Inl e
                    | Inr (ev, rest) \<Rightarrow>
                        (case walk_event ev of Inl e \<Rightarrow> Inl e
                         | Inr seq \<Rightarrow>
                             walk_batch rest (info\<lparr> last_event_sequence := max (last_event_sequence info) seq \<rparr>)))
              else (case skip_field wire rest of Inl e \<Rightarrow> Inl e | Inr rest \<Rightarrow> walk_batch rest info)))"
  by pat_completeness auto
termination
  by (relation "measure (\<lambda>(buf, _). length buf)")
    (auto dest!: varint_shorter skip_field_shorter cursor_bytes_shorter)

declare walk_event_from.simps [simp del] walk_batch.simps [simp del]

definition parse_frame :: "(bytes \<Rightarrow> nat \<Rightarrow> bytes option) \<Rightarrow> bytes \<Rightarrow> bad_frame + frame_info" where
  "parse_frame decompress bs =
     (if length bs < HEADER_LEN then Inl TooShort
      else if take 4 bs \<noteq> MAGIC then Inl BadMagic
      else
        (let flags = bs ! 4;
             size = be_nat (take 4 (drop 8 bs));
             body = drop HEADER_LEN bs;
             info = \<lparr> compressed = flags AND FLAG_ZSTD \<noteq> 0, schema = bs ! 5, payload_size = size,
                      info_batch_sequence = 0, sent_at_us = 0, last_event_sequence = 0 \<rparr>
         in if compressed info
            then (case decompress body (min size MAX_DECOMPRESSED) of
                    Some payload \<Rightarrow> walk_batch payload info
                  | None \<Rightarrow> Inr info)
            else walk_batch body info))"

subsection \<open>The wire format\<close>

text \<open>
  The documented encoding of protobuf messages, independent of the code: base-128
  numbers with the low group first, and fields of four wire types.
\<close>

lemma drop_bit_smaller:
  assumes "drop_bit 7 (w :: u64) \<noteq> 0"
  shows "unat (drop_bit 7 w) < unat w"
proof -
  have "unat (drop_bit 7 w) = unat w div 128" by (simp add: drop_bit_eq_div unat_div_distrib)
  moreover have "w \<noteq> 0" using assms by auto
  then have "0 < unat w" by (simp add: unat_gt_0)
  ultimately show ?thesis by simp
qed

function put_varint :: "u64 \<Rightarrow> bytes" where
  "put_varint w =
     (if drop_bit 7 w = 0 then [ucast w] else (ucast (take_bit 7 w) OR 128) # put_varint (drop_bit 7 w))"
  by pat_completeness auto
termination
  by (relation "measure unat") (rule wf_measure, simp only: in_measure, rule drop_bit_smaller)

declare put_varint.simps [simp del]

datatype pb_field = PbVarint u64 u64 | PbFixed64 u64 bytes | PbBytes u64 bytes | PbFixed32 u64 bytes

fun put_field :: "pb_field \<Rightarrow> bytes" where
  "put_field (PbVarint n v) = put_varint (push_bit 3 n) @ put_varint v"
| "put_field (PbFixed64 n bs) = put_varint (push_bit 3 n OR 1) @ bs"
| "put_field (PbBytes n bs) = put_varint (push_bit 3 n OR 2) @ put_varint (of_nat (length bs)) @ bs"
| "put_field (PbFixed32 n bs) = put_varint (push_bit 3 n OR 5) @ bs"

fun field_ok :: "pb_field \<Rightarrow> bool" where
  "field_ok (PbVarint n v) \<longleftrightarrow> n < 2 ^ 61"
| "field_ok (PbFixed64 n bs) \<longleftrightarrow> n < 2 ^ 61 \<and> length bs = 8"
| "field_ok (PbBytes n bs) \<longleftrightarrow> n < 2 ^ 61 \<and> length bs < 2 ^ 64"
| "field_ok (PbFixed32 n bs) \<longleftrightarrow> n < 2 ^ 61 \<and> length bs = 4"

definition put_fields :: "pb_field list \<Rightarrow> bytes" where
  "put_fields fs = concat (map put_field fs)"

lemma push_take_drop: "push_bit s (take_bit 7 w) OR push_bit (s + 7) (drop_bit 7 w) = push_bit s (w :: u64)"
proof (rule bit_eqI)
  fix n
  show "bit (push_bit s (take_bit 7 w) OR push_bit (s + 7) (drop_bit 7 w)) n = bit (push_bit s w) n"
  proof (cases "s + 7 \<le> n")
    case True
    then have "7 + (n - (s + 7)) = n - s" by simp
    with True show ?thesis by (auto simp: bit_simps)
  qed (auto simp: bit_simps)
qed

lemma low_bits: "(x :: u8) AND 127 = take_bit 7 x" "(x :: u8) AND 128 = 0 \<longleftrightarrow> \<not> bit x 7"
  using and_exp_eq_0_iff_not_bit [of x 7] by (simp_all add: take_bit_eq_mask mask_eq_exp_minus_1)

lemma low_group:
  "ucast ((ucast (take_bit 7 w) OR 128 :: u8) AND 127) = take_bit 7 (w :: u64)"
  "(ucast (take_bit 7 w) OR 128 :: u8) AND 128 \<noteq> 0"
  "ucast ((ucast w :: u8) AND 127) = take_bit 7 w"
  "(ucast w :: u8) AND 128 = 0 \<longleftrightarrow> \<not> bit w 7"
proof -
  have h: "bit (128 :: u8) n \<longleftrightarrow> n = 7" for n using bit_exp_iff [of 7 n, where ?'a = u8] by (auto dest: bit_imp_le_length)
  show "ucast ((ucast (take_bit 7 w) OR 128 :: u8) AND 127) = take_bit 7 (w :: u64)"
    unfolding low_bits by (rule bit_eqI) (auto simp: bit_simps h)
  show "(ucast (take_bit 7 w) OR 128 :: u8) AND 128 \<noteq> 0" by (simp add: low_bits bit_simps h)
  show "ucast ((ucast w :: u8) AND 127) = take_bit 7 w"
    unfolding low_bits by (rule bit_eqI) (auto simp: bit_simps)
  show "(ucast w :: u8) AND 128 = 0 \<longleftrightarrow> \<not> bit w 7" by (simp add: low_bits bit_simps)
qed

lemma varint_put_from:
  assumes "drop_bit (64 - s) w = 0" "s < 64"
  shows "varint_from v s (put_varint w @ r) = Inr (v OR push_bit s w, r)"
  using assms
proof (induction w arbitrary: v s rule: put_varint.induct)
  case (1 w)
  show ?case
  proof (cases "drop_bit 7 w = 0")
    case True
    have "take_bit 7 w = w" using True by (metis add_0 bits_ident push_bit_of_0)
    moreover have "\<not> bit (drop_bit 7 w) 0" unfolding True by simp
    then have "\<not> bit w 7" by (simp only: bit_drop_bit_eq comp_apply add_0_right not_False_eq_True)
    ultimately show ?thesis using True 1(3) by (subst put_varint.simps) (simp add: low_group)
  next
    case False
    have s: "s + 7 < 64"
    proof (rule ccontr)
      assume "\<not> s + 7 < 64"
      then have "7 = (7 - (64 - s)) + (64 - s)" using 1(3) by simp
      then have "drop_bit 7 w = drop_bit (7 - (64 - s)) (drop_bit (64 - s) w)" by (metis drop_bit_drop_bit)
      with 1(2) False show False by simp
    qed
    then have "drop_bit (64 - (s + 7)) (drop_bit 7 w) = 0" using 1(2) by simp
    from 1(1) [OF False this s] have ih: "varint_from v' (s + 7) (put_varint (drop_bit 7 w) @ r) =
        Inr (v' OR push_bit (s + 7) (drop_bit 7 w), r)" for v' by simp
    show ?thesis
      using False s 1(3) ih push_take_drop [of s w] by (subst put_varint.simps) (simp add: Let_def or.assoc low_group)
  qed
qed

lemma varint_put [simp]: "varint (put_varint w @ r) = Inr (w, r)"
  using varint_put_from [of 0 w 0 r] by (simp add: varint_def)

lemma put_varint_ne [simp]: "put_varint w \<noteq> []"
  by (subst put_varint.simps) simp

lemma key_split:
  assumes "take_bit 3 k = k" "n < 2 ^ 61"
  shows "drop_bit 3 (push_bit 3 n OR k) = (n :: u64)" "(push_bit 3 n OR k) AND 7 = k"
proof -
  have k: "\<not> bit k (i + 3)" for i
    using assms(1) by (metis bit_take_bit_iff add.commute not_add_less1)
  have n: "bit n i \<Longrightarrow> i < 61" for i
  proof -
    assume "bit n i"
    then have "bit (n AND mask 61) i" using less_mask_eq [OF assms(2)] by simp
    then show "i < 61" by (simp add: bit_simps)
  qed
  show "drop_bit 3 (push_bit 3 n OR k) = n"
    by (rule bit_eqI) (use k n in \<open>auto simp: bit_simps add.commute\<close>)
  have "(push_bit 3 n OR k) AND 7 = take_bit 3 (push_bit 3 n OR k)" by (simp add: take_bit_eq_mask mask_eq_exp_minus_1)
  also have "\<dots> = k" using assms(1) by (simp add: take_bit_or take_bit_push_bit)
  finally show "(push_bit 3 n OR k) AND 7 = k" .
qed

lemma key_kinds:
  assumes "n < 2 ^ 61"
  shows "drop_bit 3 (push_bit 3 n) = (n :: u64)" "push_bit 3 n AND 7 = (0 :: u64)"
    "drop_bit 3 (push_bit 3 n OR 1) = n" "(push_bit 3 n OR 1) AND 7 = 1"
    "drop_bit 3 (push_bit 3 n OR 2) = n" "(push_bit 3 n OR 2) AND 7 = 2"
    "drop_bit 3 (push_bit 3 n OR 5) = n" "(push_bit 3 n OR 5) AND 7 = 5"
  using key_split [of 0 n] key_split [of 1 n] key_split [of 2 n] key_split [of 5 n] assms by simp_all

lemma cursor_bytes_put:
  "length bs < 2 ^ 64 \<Longrightarrow> cursor_bytes (put_varint (of_nat (length bs)) @ bs @ r) = Inr (bs, r)"
  by (simp add: cursor_bytes_def unat_of_nat take_bit_eq_mod)

fun event_field :: "pb_field \<Rightarrow> u64 \<Rightarrow> u64" where
  "event_field (PbVarint n v) seq = (if n = 1 then v else seq)"
| "event_field _ seq = seq"

lemma walk_event_field:
  assumes "field_ok f"
  shows "walk_event_from seq (put_field f @ r) = walk_event_from (event_field f seq) r"
  using assms
  by (cases f; subst walk_event_from.simps)
    (simp_all add: key_kinds skip_field_def advance_by_def cursor_bytes_put)

lemma walk_event_fields:
  "list_all field_ok fs \<Longrightarrow> walk_event (put_fields fs) = Inr (fold event_field fs 0)"
proof -
  have "list_all field_ok fs \<Longrightarrow> walk_event_from seq (concat (map put_field fs)) = Inr (fold event_field fs seq)" for seq
    by (induction fs arbitrary: seq) (simp_all add: walk_event_field walk_event_from.simps [of _ "[]"])
  then show "list_all field_ok fs \<Longrightarrow> walk_event (put_fields fs) = Inr (fold event_field fs 0)"
    by (simp add: walk_event_def put_fields_def)
qed

lemma walk_batch_varint:
  assumes "n < 2 ^ 61"
  shows "walk_batch (put_field (PbVarint n v) @ r) info =
    walk_batch r (if n = 2 then info\<lparr> info_batch_sequence := v \<rparr> else if n = 3 then info\<lparr> sent_at_us := v \<rparr> else info)"
  using assms by (subst walk_batch.simps) (simp add: key_kinds skip_field_def Let_def)

lemma walk_batch_event:
  assumes "list_all field_ok fs" "length (put_fields fs) < 2 ^ 64"
  shows "walk_batch (put_field (PbBytes 4 (put_fields fs)) @ r) info =
    walk_batch r (info\<lparr> last_event_sequence := max (last_event_sequence info) (fold event_field fs 0) \<rparr>)"
  using assms by (subst walk_batch.simps) (simp add: key_kinds cursor_bytes_put Let_def walk_event_fields)

subsection \<open>Frames of the server\<close>

text \<open>
  The messages of \<open>uma.proto\<close> as the edge relies on them: a batch carries its schema,
  its number, its send time and its events in the fields 1 to 4, an event its sequence
  number in field 1; a number that is zero is left out.  The other fields of an event
  are arbitrary.
\<close>

definition optional_varint :: "u64 \<Rightarrow> u64 \<Rightarrow> pb_field list" where
  "optional_varint n v = (if v = 0 then [] else [PbVarint n v])"

definition event_fields :: "(pb_uma_event \<Rightarrow> pb_field list) \<Rightarrow> pb_uma_event \<Rightarrow> pb_field list" where
  "event_fields others e = optional_varint 1 (pb_sequence e) @ others e"

definition batch_fields :: "(pb_uma_event \<Rightarrow> pb_field list) \<Rightarrow> pb_uma_batch \<Rightarrow> pb_field list" where
  "batch_fields others b =
     optional_varint 1 (ucast (pb_schema_version b)) @ optional_varint 2 (pb_batch_sequence b) @
     optional_varint 3 (pb_sent_at_us b) @ map (\<lambda>e. PbBytes 4 (put_fields (event_fields others e))) (pb_events b)"

definition protobuf_batches :: "wire_env \<Rightarrow> (pb_uma_event \<Rightarrow> pb_field list) \<Rightarrow> bool" where
  "protobuf_batches E others \<longleftrightarrow> (\<forall>b. encode_batch E b = put_fields (batch_fields others b)) \<and>
     (\<forall>e. list_all (\<lambda>f. field_ok f \<and> (\<forall>v. f \<noteq> PbVarint 1 v)) (others e))"

definition zstd_inverse :: "wire_env \<Rightarrow> (bytes \<Rightarrow> nat \<Rightarrow> bytes option) \<Rightarrow> bool" where
  "zstd_inverse E decompress \<longleftrightarrow>
     (\<forall>p z cap. zstd_encode E p = Some z \<and> length p \<le> cap \<longrightarrow> decompress z cap = Some p)"

lemma put_fields_append [simp]: "put_fields (xs @ ys) = put_fields xs @ put_fields ys"
  by (simp add: put_fields_def)

lemma put_fields_Cons [simp]: "put_fields (x # xs) = put_field x @ put_fields xs" "put_fields [] = []"
  by (simp_all add: put_fields_def)

lemma walk_batch_optional:
  "n < 2 ^ 61 \<Longrightarrow> walk_batch (put_fields (optional_varint n v) @ r) info =
    walk_batch r (if v = 0 then info else if n = 2 then info\<lparr> info_batch_sequence := v \<rparr>
      else if n = 3 then info\<lparr> sent_at_us := v \<rparr> else info)"
  using walk_batch_varint [of n v r info] by (auto simp: optional_varint_def)

lemma fold_event_field_others:
  "list_all (\<lambda>f. field_ok f \<and> (\<forall>v. f \<noteq> PbVarint 1 v)) fs \<Longrightarrow> fold event_field fs q = q"
proof (induction fs arbitrary: q)
  case (Cons f fs)
  then show ?case by (cases f) auto
qed simp

lemma event_fields_sound:
  assumes "protobuf_batches E others"
  shows "list_all field_ok (event_fields others e)" "fold event_field (event_fields others e) 0 = pb_sequence e"
proof -
  have l: "list_all (\<lambda>f. field_ok f \<and> (\<forall>v. f \<noteq> PbVarint 1 v)) (others e)" using assms by (simp add: protobuf_batches_def)
  then show "list_all field_ok (event_fields others e)"
    by (auto simp: event_fields_def optional_varint_def list_all_iff)
  show "fold event_field (event_fields others e) 0 = pb_sequence e"
    using fold_event_field_others [OF l] by (simp add: event_fields_def optional_varint_def)
qed

lemma walk_batch_events:
  assumes "protobuf_batches E others"
    and "length (put_fields (map (\<lambda>e. PbBytes 4 (put_fields (event_fields others e))) es)) < 2 ^ 64"
  shows "walk_batch (put_fields (map (\<lambda>e. PbBytes 4 (put_fields (event_fields others e))) es)) info =
    Inr (info\<lparr> last_event_sequence := fold (\<lambda>e m. max m (pb_sequence e)) es (last_event_sequence info) \<rparr>)"
  using assms(2)
proof (induction es arbitrary: info)
  case Nil
  then show ?case by (simp add: walk_batch.simps)
next
  case (Cons e es)
  then have len: "length (put_fields (event_fields others e)) < 2 ^ 64"
    "length (put_fields (map (\<lambda>e. PbBytes 4 (put_fields (event_fields others e))) es)) < 2 ^ 64" by simp_all
  show ?case
    using walk_batch_event [OF event_fields_sound(1) [OF assms(1)] len(1)] Cons.IH [OF len(2)]
      event_fields_sound(2) [OF assms(1)]
    by simp
qed

lemma walk_batch_payload:
  assumes "protobuf_batches E others" "length (encode_batch E b) < 2 ^ 64"
  shows "walk_batch (encode_batch E b)
      \<lparr> compressed = c, schema = v, payload_size = n, info_batch_sequence = 0, sent_at_us = 0, last_event_sequence = 0 \<rparr> =
    Inr \<lparr> compressed = c, schema = v, payload_size = n, info_batch_sequence = pb_batch_sequence b,
      sent_at_us = pb_sent_at_us b, last_event_sequence = fold (\<lambda>e m. max m (pb_sequence e)) (pb_events b) 0 \<rparr>"
proof -
  let ?ev = "put_fields (map (\<lambda>e. PbBytes 4 (put_fields (event_fields others e))) (pb_events b))"
  have p: "encode_batch E b = put_fields (optional_varint 1 (ucast (pb_schema_version b))) @
      put_fields (optional_varint 2 (pb_batch_sequence b)) @ put_fields (optional_varint 3 (pb_sent_at_us b)) @ ?ev"
    using assms(1) by (simp add: protobuf_batches_def batch_fields_def)
  with assms(2) have "length ?ev < 2 ^ 64" by simp
  from walk_batch_events [OF assms(1) this] show ?thesis
    unfolding p by (simp add: walk_batch_optional)
qed

definition frame_batch :: "wire_env \<Rightarrow> u64 \<Rightarrow> u64 \<Rightarrow> event_record list \<Rightarrow> pb_uma_batch" where
  "frame_batch E now bseq evs = \<lparr> pb_schema_version = ucast SCHEMA_VERSION, pb_batch_sequence = bseq,
     pb_sent_at_us = now, pb_events = map (to_proto (pb_numbers E)) evs \<rparr>"

lemma encode_frame_body:
  assumes "encode_frame E now bseq evs cfg = Inr f"
  defines "payload \<equiv> encode_batch E (frame_batch E now bseq evs)"
  shows "\<exists>flags body. length payload \<le> max_decompressed_bytes cfg \<and>
    (flags = FLAG_ZSTD \<and> zstd_encode E payload = Some body \<or> flags = 0 \<and> body = payload) \<and>
    frame_bytes f = frame_header flags (length payload) @ body"
proof -
  have p: "encode_batch E \<lparr> pb_schema_version = ucast SCHEMA_VERSION, pb_batch_sequence = bseq,
      pb_sent_at_us = now, pb_events = map (to_proto (pb_numbers E)) evs \<rparr> = payload"
    by (simp add: payload_def frame_batch_def)
  show ?thesis
    using assms(1) unfolding encode_frame_def list.case_eq_if p Let_def
    by (fastforce split: if_splits option.splits)
qed

lemma encode_frame_succeeds:
  assumes "length (encode_batch E (frame_batch E now bseq evs)) \<le> max_decompressed_bytes cfg" "evs \<noteq> []"
    and "\<forall>p. zstd_encode E p \<noteq> None"
  shows "\<exists>f. encode_frame E now bseq evs cfg = Inr f"
  using assms(1,2) spec [OF assms(3), of "encode_batch E (frame_batch E now bseq evs)"]
  unfolding encode_frame_def list.case_eq_if frame_batch_def [symmetric] Let_def by (auto split: option.splits)

lemma frame_header_read:
  assumes "n < 2 ^ 32" "fb = frame_header flags n @ body"
  shows "take 4 fb = MAGIC" "fb ! 4 = flags" "fb ! 5 = SCHEMA_VERSION" "be_nat (take 4 (drop 8 fb)) = n"
    "drop HEADER_LEN fb = body" "\<not> length fb < HEADER_LEN"
proof -
  have "length (to_be_bytes 4 (of_nat n :: u32)) = 4" "length (to_be_bytes 2 (0 :: u16)) = 2" by simp_all
  then have "take 4 (drop 8 fb) = to_be_bytes 4 (of_nat n :: u32)"
    by (simp add: assms(2) frame_header_def MAGIC_def)
  moreover have "unat (of_nat n :: u32) = n" using assms(1) by (simp add: unat_of_nat take_bit_eq_mod)
  ultimately show "be_nat (take 4 (drop 8 fb)) = n" by (simp add: be_nat_to_be_bytes)
qed (simp_all add: assms(2) frame_header_def MAGIC_def HEADER_LEN_def)

text \<open>
  C26: an edge node reads from every frame of the server what the server put there:
  the schema version, the batch number, the send time and the largest sequence
  number of the batch, compressed or not.
\<close>

theorem edge_reads_frame:
  assumes "encode_frame E now bseq evs cfg = Inr f" "protobuf_batches E others" "zstd_inverse E decompress"
    and "max_decompressed_bytes cfg \<le> MAX_DECOMPRESSED"
  shows "\<exists>c n. parse_frame decompress (frame_bytes f) =
    Inr \<lparr> compressed = c, schema = SCHEMA_VERSION, payload_size = n, info_batch_sequence = bseq, sent_at_us = now,
      last_event_sequence = fold (\<lambda>e m. max m (sequence e)) evs 0 \<rparr>"
proof -
  define payload where "payload = encode_batch E (frame_batch E now bseq evs)"
  obtain flags body where fb: "length payload \<le> max_decompressed_bytes cfg"
    "flags = FLAG_ZSTD \<and> zstd_encode E payload = Some body \<or> flags = 0 \<and> body = payload"
    "frame_bytes f = frame_header flags (length payload) @ body"
    using encode_frame_body [OF assms(1)] payload_def by blast
  have len: "length payload \<le> 262144" using fb(1) assms(4) by (simp add: MAX_DECOMPRESSED_def)
  note hdr = frame_header_read [OF _ fb(3)]
  have w: "walk_batch payload \<lparr> compressed = c, schema = v, payload_size = n, info_batch_sequence = 0, sent_at_us = 0,
      last_event_sequence = 0 \<rparr> = Inr \<lparr> compressed = c, schema = v, payload_size = n, info_batch_sequence = bseq,
      sent_at_us = now, last_event_sequence = fold (\<lambda>e m. max m (sequence e)) evs 0 \<rparr>" for c v n
    using walk_batch_payload [OF assms(2), of "frame_batch E now bseq evs"] len
    by (simp add: payload_def frame_batch_def fold_map comp_def to_proto_def Let_def)
  show ?thesis
    using fb(2)
  proof
    assume z: "flags = FLAG_ZSTD \<and> zstd_encode E payload = Some body"
    then have "decompress body (min (length payload) MAX_DECOMPRESSED) = Some payload"
      using assms(3) len by (simp add: zstd_inverse_def MAX_DECOMPRESSED_def)
    then show ?thesis using z len w by (auto simp: parse_frame_def hdr Let_def FLAG_ZSTD_def)
  next
    assume "flags = 0 \<and> body = payload"
    then show ?thesis using len w by (auto simp: parse_frame_def hdr Let_def)
  qed
qed

definition plain_env :: wire_env where
  "plain_env = \<lparr> pb_numbers = sample_enums, encode_batch = \<lambda>b. put_fields (batch_fields (\<lambda>_. []) b), zstd_encode = Some \<rparr>"

theorem edge_reads_frame_witness:
  "\<exists>f i. encode_frame plain_env 77 3 [sample_record 5 1 None, sample_record 9 2 None]
      \<lparr> zstd_threshold = 4, max_decompressed_bytes = 4096 \<rparr> = Inr f \<and>
    parse_frame (\<lambda>z _. Some z) (frame_bytes f) = Inr i \<and>
    info_batch_sequence i = 3 \<and> sent_at_us i = 77 \<and> last_event_sequence i = 9"
proof -
  have p: "protobuf_batches plain_env (\<lambda>_. [])" by (simp add: protobuf_batches_def plain_env_def)
  have z: "zstd_inverse plain_env (\<lambda>z _. Some z)" by (simp add: zstd_inverse_def plain_env_def)
  define evs where "evs = [sample_record 5 1 None, sample_record 9 2 None]"
  define cfg where "cfg = \<lparr> zstd_threshold = 4, max_decompressed_bytes = 4096 \<rparr>"
  have v: "put_varint 3 = [3]" "put_varint 5 = [5]" "put_varint 9 = [9]" "put_varint 77 = [77]" "put_varint 1 = [1]"
    "put_varint 8 = [8]" "put_varint 16 = [16]" "put_varint 24 = [24]" "put_varint 34 = [34]" "put_varint 2 = [2]"
    by (subst put_varint.simps, simp)+
  have len: "length (encode_batch plain_env (frame_batch plain_env 77 3 evs)) \<le> 4096"
    by (simp add: plain_env_def frame_batch_def batch_fields_def evs_def event_fields_def optional_varint_def to_proto_def
        sample_record_def Let_def SCHEMA_VERSION_def v)
  obtain f where f: "encode_frame plain_env 77 3 evs cfg = Inr f"
    using encode_frame_succeeds [of plain_env 77 3 evs cfg] len by (auto simp: evs_def cfg_def plain_env_def)
  have "max_decompressed_bytes cfg \<le> MAX_DECOMPRESSED" by (simp add: cfg_def MAX_DECOMPRESSED_def)
  from edge_reads_frame [OF f p z this] f show ?thesis
    unfolding evs_def cfg_def by (auto simp: sample_record_def)
qed

end
