(* ===== verification/Edge_Hub.thy ===== *)
theory Edge_Hub
  imports Ring_Queue "HOL-Library.Sublist" "HOL-Library.Multiset"
begin

text \<open>
  \<open>edge/ring.rs\<close> and \<open>edge/hub.rs\<close>: the replay ring of an edge node and the fan-out to
  its clients.  A frame is stored together with its offset.  Every subscription has a
  bounded channel; the hub holds the sending half of those that are registered
  (\<open>edge_subs\<close>, in the unspecified order of the hash map), the writer task of a client
  holds the receiving half.  What the writer has taken is kept as a history.
\<close>

subsection \<open>Ring\<close>

record edge_frame =
  ef_batch_sequence :: u64
  ef_event_sequence :: u64
  ef_bytes :: bytes
  ef_recv_at_us :: u64

type_synonym stored_frame = "u64 \<times> edge_frame"

record edge_ring =
  er_frames :: "stored_frame list"
  er_capacity :: nat
  er_next_offset :: u64

definition ring_new :: "nat \<Rightarrow> edge_ring" where
  "ring_new capacity = \<lparr> er_frames = [], er_capacity = max capacity 1, er_next_offset = 1 \<rparr>"

definition ring_push :: "edge_frame \<Rightarrow> edge_ring \<Rightarrow> edge_ring" where
  "ring_push frame r =
     (let frames = (if length (er_frames r) = er_capacity r then tl (er_frames r) else er_frames r)
      in r\<lparr> er_frames := frames @ [(er_next_offset r, frame)], er_next_offset := er_next_offset r + 1 \<rparr>)"

definition ring_tail :: "nat \<Rightarrow> edge_ring \<Rightarrow> stored_frame list" where
  "ring_tail n r = drop (length (er_frames r) - min n (length (er_frames r))) (er_frames r)"

definition ring_last_event_sequence :: "edge_ring \<Rightarrow> u64" where
  "ring_last_event_sequence r = (if er_frames r = [] then 0 else ef_event_sequence (snd (last (er_frames r))))"

record ring_stats =
  rs_count :: nat
  oldest_offset :: u64
  latest_offset :: u64

definition ring_stats_of :: "edge_ring \<Rightarrow> ring_stats" where
  "ring_stats_of r =
     \<lparr> rs_count = length (er_frames r),
       oldest_offset = (if er_frames r = [] then 0 else fst (hd (er_frames r))),
       latest_offset = (if er_frames r = [] then 0 else fst (last (er_frames r))) \<rparr>"

subsection \<open>Hub\<close>

definition CLOSE_NORMAL :: u16 where "CLOSE_NORMAL = 1000"
definition CLOSE_POLICY :: u16 where "CLOSE_POLICY = 1008"
definition CLOSE_RESTART :: u16 where "CLOSE_RESTART = 1012"

record client_info =
  client_ip :: string
  client_port :: u16
  client_token_id :: "string option"
  connected_at_ms :: u64

record channel =
  ch_info :: client_info
  ch_queue :: "stored_frame list"
  ch_close_code :: u16
  ch_receiving :: bool
  ch_replay :: "stored_frame list"
  ch_got :: "stored_frame list"

record edge_hub =
  edge_ring :: edge_ring
  edge_subs :: "u64 list"
  edge_next_id :: u64
  edge_queue :: nat
  edge_channels :: "u64 \<rightharpoonup> channel"
  deliveries :: u64
  slow_clients_disconnected :: u64

definition edge_hub_new :: "nat \<Rightarrow> nat \<Rightarrow> edge_hub" where
  "edge_hub_new ring_capacity queue =
     \<lparr> edge_ring = ring_new ring_capacity, edge_subs = [], edge_next_id = 1, edge_queue = max queue 1,
       edge_channels = Map.empty, deliveries = 0, slow_clients_disconnected = 0 \<rparr>"

datatype try_send = Sent | Full | Closed

definition try_send_result :: "nat \<Rightarrow> channel \<Rightarrow> try_send" where
  "try_send_result capacity c =
     (if \<not> ch_receiving c then Closed else if length (ch_queue c) < capacity then Sent else Full)"

definition offer :: "nat \<Rightarrow> stored_frame \<Rightarrow> channel \<Rightarrow> channel" where
  "offer capacity f c =
     (case try_send_result capacity c of
        Sent \<Rightarrow> c\<lparr> ch_queue := ch_queue c @ [f] \<rparr>
      | Full \<Rightarrow> c\<lparr> ch_close_code := CLOSE_POLICY \<rparr>
      | Closed \<Rightarrow> c)"

definition sends :: "edge_hub \<Rightarrow> try_send \<Rightarrow> u64 \<Rightarrow> bool" where
  "sends h r i \<longleftrightarrow> (case edge_channels h i of Some c \<Rightarrow> try_send_result (edge_queue h) c = r | None \<Rightarrow> False)"

definition edge_publish :: "edge_frame \<Rightarrow> edge_hub \<Rightarrow> edge_hub" where
  "edge_publish frame h =
     (let f = (er_next_offset (edge_ring h), frame)
      in h\<lparr> edge_ring := ring_push frame (edge_ring h),
            edge_channels := (\<lambda>i. if i \<in> set (edge_subs h)
               then map_option (offer (edge_queue h) f) (edge_channels h i) else edge_channels h i),
            edge_subs := filter (sends h Sent) (edge_subs h),
            deliveries := deliveries h + of_nat (length (filter (sends h Sent) (edge_subs h))),
            slow_clients_disconnected :=
              slow_clients_disconnected h + of_nat (length (filter (sends h Full) (edge_subs h))) \<rparr>)"

definition edge_subscribe :: "nat \<Rightarrow> client_info \<Rightarrow> edge_hub \<Rightarrow> u64 \<times> edge_hub" where
  "edge_subscribe replay info h =
     (let i = edge_next_id h;
          c = \<lparr> ch_info = info, ch_queue = [], ch_close_code = CLOSE_NORMAL, ch_receiving = True,
                ch_replay = ring_tail replay (edge_ring h), ch_got = [] \<rparr>
      in (i, h\<lparr> edge_next_id := i + 1, edge_channels := (edge_channels h)(i \<mapsto> c), edge_subs := edge_subs h @ [i] \<rparr>))"

definition edge_unsubscribe :: "u64 \<Rightarrow> edge_hub \<Rightarrow> edge_hub" where
  "edge_unsubscribe i h = h\<lparr> edge_subs := removeAll i (edge_subs h) \<rparr>"

definition set_close_code :: "u16 \<Rightarrow> u64 list \<Rightarrow> (u64 \<rightharpoonup> channel) \<Rightarrow> u64 \<rightharpoonup> channel" where
  "set_close_code code ids chs =
     (\<lambda>i. if i \<in> set ids then map_option (\<lambda>c. c\<lparr> ch_close_code := code \<rparr>) (chs i) else chs i)"

definition drop_subscribers :: "u16 \<Rightarrow> u64 list \<Rightarrow> edge_hub \<Rightarrow> edge_hub" where
  "drop_subscribers code ids h =
     h\<lparr> edge_subs := filter (\<lambda>i. i \<notin> set ids) (edge_subs h),
        edge_channels := set_close_code code ids (edge_channels h) \<rparr>"

definition edge_release :: "nat \<Rightarrow> u16 \<Rightarrow> edge_hub \<Rightarrow> nat \<times> edge_hub" where
  "edge_release n code h =
     (let ids = take n (edge_subs h) in (length ids, drop_subscribers code ids h))"

definition token_fails :: "(string \<Rightarrow> bool) \<Rightarrow> edge_hub \<Rightarrow> u64 \<Rightarrow> bool" where
  "token_fails keep h i \<longleftrightarrow>
     (case edge_channels h i of
        Some c \<Rightarrow> (case client_token_id (ch_info c) of Some t \<Rightarrow> \<not> keep t | None \<Rightarrow> False)
      | None \<Rightarrow> False)"

definition kick_tokens :: "(string \<Rightarrow> bool) \<Rightarrow> edge_hub \<Rightarrow> nat \<times> edge_hub" where
  "kick_tokens keep h =
     (let ids = filter (token_fails keep h) (edge_subs h) in (length ids, drop_subscribers CLOSE_POLICY ids h))"

definition edge_clients :: "edge_hub \<Rightarrow> nat" where
  "edge_clients h = length (edge_subs h)"

text \<open>The writer task of a client: first the replay, then the channel (\<open>write_loop\<close> of \<open>edge/server.rs\<close>).\<close>

definition writer_take :: "channel \<Rightarrow> channel" where
  "writer_take c =
     (if \<not> ch_receiving c then c
      else case ch_replay c of
        f # fs \<Rightarrow> c\<lparr> ch_replay := fs, ch_got := ch_got c @ [f] \<rparr>
      | [] \<Rightarrow> (case ch_queue c of
                f # fs \<Rightarrow> c\<lparr> ch_queue := fs, ch_got := ch_got c @ [f] \<rparr>
              | [] \<Rightarrow> c))"

datatype edge_op =
    EdgePublish edge_frame
  | EdgeSubscribe nat client_info
  | EdgeUnsubscribe u64
  | EdgeRelease nat u16
  | EdgeKick "string \<Rightarrow> bool"
  | WriterTake u64
  | WriterEnds u64
  | Rehash "u64 list \<Rightarrow> u64 list"

fun edge_step :: "edge_op \<Rightarrow> edge_hub \<Rightarrow> edge_hub" where
  "edge_step (EdgePublish f) h = edge_publish f h"
| "edge_step (EdgeSubscribe n info) h = snd (edge_subscribe n info h)"
| "edge_step (EdgeUnsubscribe i) h = edge_unsubscribe i h"
| "edge_step (EdgeRelease n code) h = snd (edge_release n code h)"
| "edge_step (EdgeKick keep) h = snd (kick_tokens keep h)"
| "edge_step (WriterTake i) h =
     h\<lparr> edge_channels := (edge_channels h)(i := map_option writer_take (edge_channels h i)) \<rparr>"
| "edge_step (WriterEnds i) h =
     h\<lparr> edge_channels := (edge_channels h)(i := map_option (\<lambda>c. c\<lparr> ch_receiving := False \<rparr>) (edge_channels h i)) \<rparr>"
| "edge_step (Rehash p) h =
     (if mset (p (edge_subs h)) = mset (edge_subs h) then h\<lparr> edge_subs := p (edge_subs h) \<rparr> else h)"

subsection \<open>The ring\<close>

definition edge_ring_ok :: "edge_ring \<Rightarrow> bool" where
  "edge_ring_ok r \<longleftrightarrow> 0 < er_capacity r \<and> length (er_frames r) \<le> er_capacity r"

lemma ring_push_simps [ring_simps]:
  assumes "edge_ring_ok r"
  shows "er_frames (ring_push f r) = take_last (er_capacity r) (er_frames r @ [(er_next_offset r, f)])"
    "er_capacity (ring_push f r) = er_capacity r" "er_next_offset (ring_push f r) = er_next_offset r + 1"
  using assms by (auto simp: ring_push_def edge_ring_ok_def take_last_def drop_Suc Let_def)

lemma er_capacity_push [simp]: "er_capacity (ring_push f r) = er_capacity r"
  by (simp add: ring_push_def Let_def)

lemma ring_push_ok: "edge_ring_ok r \<Longrightarrow> edge_ring_ok (ring_push f r)"
  by (simp add: edge_ring_ok_def [of "ring_push f r"] ring_simps) (simp add: edge_ring_ok_def)

interpretation er: bounded_ring "\<lambda>r. map snd (er_frames r)" er_capacity "\<lambda>_ _. True" ring_push edge_ring_ok
  by unfold_locales (simp_all add: ring_push_ok ring_push_simps map_take_last, simp add: edge_ring_ok_def)

lemma ring_tail_take_last: "ring_tail n r = take_last n (er_frames r)"
  by (cases "n \<le> length (er_frames r)") (simp_all add: ring_tail_def take_last_def)

subsection \<open>Replay and live frames\<close>

fun published_frames :: "edge_op list \<Rightarrow> edge_frame list" where
  "published_frames [] = []"
| "published_frames (EdgePublish f # ops) = f # published_frames ops"
| "published_frames (_ # ops) = published_frames ops"

definition stored :: "edge_frame list \<Rightarrow> stored_frame list" where
  "stored fs = zip (map (\<lambda>k. of_nat (Suc k)) [0..<length fs]) fs"

definition trail :: "channel \<Rightarrow> stored_frame list" where
  "trail c = ch_got c @ ch_replay c @ ch_queue c"

lemma published_frames_append [simp]: "published_frames (xs @ ys) = published_frames xs @ published_frames ys"
  by (induction xs rule: published_frames.induct) simp_all

lemma stored_snoc: "stored (fs @ [f]) = stored fs @ [(of_nat (Suc (length fs)), f)]"
  by (simp add: stored_def)

lemma length_stored [simp]: "length (stored fs) = length fs"
  by (simp add: stored_def)

definition ring_inv :: "edge_frame list \<Rightarrow> edge_hub \<Rightarrow> bool" where
  "ring_inv fs h \<longleftrightarrow> edge_ring_ok (edge_ring h) \<and> er_frames (edge_ring h) = take_last (er_capacity (edge_ring h)) (stored fs) \<and>
     er_next_offset (edge_ring h) = of_nat (Suc (length fs))"

lemma ring_inv_step: "ring_inv fs h \<Longrightarrow> ring_inv (fs @ published_frames [op]) (edge_step op h) \<and>
    er_capacity (edge_ring (edge_step op h)) = er_capacity (edge_ring h) \<and> edge_queue (edge_step op h) = edge_queue h"
  by (cases op) (auto simp: ring_inv_def edge_publish_def edge_subscribe_def edge_unsubscribe_def edge_release_def
      kick_tokens_def drop_subscribers_def Let_def ring_simps ring_push_ok stored_snoc take_last_append_take_last)

definition ids_inv :: "nat \<Rightarrow> edge_hub \<Rightarrow> bool" where
  "ids_inv n h \<longleftrightarrow> unat (edge_next_id h) \<le> Suc n \<and> (\<forall>i\<in>dom (edge_channels h). i < edge_next_id h)"

lemma ids_inv_step:
  assumes "ids_inv n h" "Suc (Suc n) < 2 ^ 64"
  shows "ids_inv (Suc n) (edge_step op h)"
proof (cases op)
  case (EdgeSubscribe r info)
  have "unat (edge_next_id h + 1) = unat (edge_next_id h) + 1"
    using assms by (simp add: ids_inv_def unat_word_ariths)
  then have "edge_next_id h < edge_next_id h + 1" "unat (edge_next_id h + 1) \<le> Suc (Suc n)"
    using assms(1) by (simp_all add: word_less_nat_alt ids_inv_def)
  then show ?thesis
    using assms(1) EdgeSubscribe by (auto simp: ids_inv_def edge_subscribe_def Let_def dest: less_trans)
qed (use assms(1) in \<open>auto simp: ids_inv_def edge_publish_def edge_unsubscribe_def edge_release_def dom_def
      kick_tokens_def drop_subscribers_def set_close_code_def Let_def split: if_splits\<close>)

definition follows :: "u64 \<Rightarrow> nat \<Rightarrow> edge_frame list \<Rightarrow> edge_hub \<Rightarrow> bool" where
  "follows i start fs h \<longleftrightarrow> start \<le> length fs \<and> i < edge_next_id h \<and>
     (\<exists>c. edge_channels h i = Some c \<and> length (ch_queue c) \<le> edge_queue h \<and>
        prefix (trail c) (drop start (stored fs)) \<and>
        (i \<in> set (edge_subs h) \<longrightarrow> trail c = drop start (stored fs)))"

lemma trail_writer_take [simp]: "trail (writer_take c) = trail c"
  "length (ch_queue (writer_take c)) \<le> length (ch_queue c)"
  by (auto simp: writer_take_def trail_def split: list.splits)

lemma follows_publish:
  assumes "follows i start fs h" "ring_inv fs h"
  shows "follows i start (fs @ [f]) (edge_publish f h)"
proof -
  obtain c where c: "edge_channels h i = Some c" "length (ch_queue c) \<le> edge_queue h"
    "prefix (trail c) (drop start (stored fs))" "i \<in> set (edge_subs h) \<Longrightarrow> trail c = drop start (stored fs)"
    and s: "start \<le> length fs" "i < edge_next_id h"
    using assms(1) by (auto simp: follows_def)
  let ?f = "(er_next_offset (edge_ring h), f)"
  have d: "drop start (stored (fs @ [f])) = drop start (stored fs) @ [?f]"
    using assms(2) s by (simp add: stored_snoc ring_inv_def)
  show ?thesis
  proof (cases "i \<in> set (edge_subs h)")
    case True
    with c d s show ?thesis
      by (auto simp: follows_def edge_publish_def Let_def offer_def sends_def trail_def try_send_result_def
          prefix_def split: try_send.splits)
  next
    case False
    with c d s show ?thesis by (auto simp: follows_def edge_publish_def Let_def prefix_def)
  qed
qed

text \<open>
  Every operation but a publication only shrinks the set of subscribers and changes
  a channel without touching its trail.
\<close>

lemma follows_mono:
  assumes "follows i start fs h" "edge_queue h' = edge_queue h" "edge_next_id h \<le> edge_next_id h'"
    and "i \<in> set (edge_subs h') \<Longrightarrow> i \<in> set (edge_subs h)"
    and "\<And>c. edge_channels h i = Some c \<Longrightarrow>
      \<exists>c'. edge_channels h' i = Some c' \<and> trail c' = trail c \<and> length (ch_queue c') \<le> length (ch_queue c)"
  shows "follows i start fs h'"
proof -
  obtain c where c: "edge_channels h i = Some c" "length (ch_queue c) \<le> edge_queue h"
    "prefix (trail c) (drop start (stored fs))" "i \<in> set (edge_subs h) \<longrightarrow> trail c = drop start (stored fs)"
    and s: "start \<le> length fs" "i < edge_next_id h"
    using assms(1) by (auto simp: follows_def)
  obtain c' where c': "edge_channels h' i = Some c'" "trail c' = trail c" "length (ch_queue c') \<le> length (ch_queue c)"
    using assms(5) [OF c(1)] by blast
  have "i < edge_next_id h'" using s(2) assms(3) by (rule less_le_trans)
  moreover have "length (ch_queue c') \<le> edge_queue h'" using c(2) c'(3) assms(2) by simp
  ultimately show ?thesis unfolding follows_def using c c' s assms(4) by auto
qed

lemma follows_drop: "follows i start fs h \<Longrightarrow> follows i start fs (drop_subscribers code ids h)"
  by (erule follows_mono) (auto simp: drop_subscribers_def set_close_code_def trail_def)

lemma follows_step:
  assumes "follows i start fs h" "ring_inv fs h" "ids_inv n h" "Suc (Suc n) < 2 ^ 64"
  shows "follows i start (fs @ published_frames [op]) (edge_step op h)"
proof (cases op)
  case (EdgePublish f)
  with follows_publish [OF assms(1,2)] show ?thesis by simp
next
  case (EdgeSubscribe r info)
  have "unat (edge_next_id h + 1) = unat (edge_next_id h) + 1"
    using assms(3,4) by (simp add: ids_inv_def unat_word_ariths)
  then have "edge_next_id h \<le> edge_next_id h + 1" by (simp add: word_le_nat_alt)
  moreover have "i \<noteq> edge_next_id h" using assms(1) by (auto simp: follows_def)
  ultimately have "follows i start fs (snd (edge_subscribe r info h))"
    by (intro follows_mono [OF assms(1)]) (auto simp: edge_subscribe_def Let_def)
  then show ?thesis using EdgeSubscribe by simp
next
  case (EdgeUnsubscribe j)
  have "follows i start fs (edge_unsubscribe j h)"
    by (rule follows_mono [OF assms(1)]) (auto simp: edge_unsubscribe_def)
  then show ?thesis using EdgeUnsubscribe by simp
next
  case (EdgeRelease m code)
  with follows_drop [OF assms(1)] show ?thesis by (simp add: edge_release_def Let_def)
next
  case (EdgeKick keep)
  with follows_drop [OF assms(1)] show ?thesis by (simp add: kick_tokens_def Let_def)
next
  case (WriterTake j)
  have "follows i start fs (edge_step (WriterTake j) h)" by (rule follows_mono [OF assms(1)]) auto
  then show ?thesis using WriterTake by simp
next
  case (WriterEnds j)
  have "follows i start fs (edge_step (WriterEnds j) h)"
    by (rule follows_mono [OF assms(1)]) (auto simp: trail_def)
  then show ?thesis using WriterEnds by simp
next
  case (Rehash p)
  have "follows i start fs (edge_step (Rehash p) h)"
    by (rule follows_mono [OF assms(1)]) (auto dest: mset_eq_setD split: if_splits)
  then show ?thesis using Rehash by simp
qed

lemma edge_run_inv:
  assumes "length ops + 2 < 2 ^ 64" "h = fold edge_step ops (edge_hub_new cap q)"
  shows "ring_inv (published_frames ops) h \<and> ids_inv (length ops) h \<and>
    er_capacity (edge_ring h) = max cap 1 \<and> edge_queue h = max q 1"
  using assms
proof (induction ops arbitrary: h rule: rev_induct)
  case Nil
  then show ?case
    by (simp add: ring_inv_def ids_inv_def edge_hub_new_def ring_new_def edge_ring_ok_def stored_def)
next
  case (snoc op ops)
  define h1 where "h1 = fold edge_step ops (edge_hub_new cap q)"
  have ih: "ring_inv (published_frames ops) h1" "ids_inv (length ops) h1" "er_capacity (edge_ring h1) = max cap 1"
    "edge_queue h1 = max q 1" using snoc.IH [OF _ h1_def] snoc.prems(1) by simp_all
  have "h = edge_step op h1" using snoc.prems(2) by (simp add: h1_def)
  then show ?case
    using ring_inv_step [OF ih(1), of op] ids_inv_step [OF ih(2), of op] ih(3,4) snoc.prems(1) by simp
qed

lemma take_last_take_last: "take_last m (take_last n xs) = take_last (min m n) xs"
  by (cases "n \<le> length xs"; cases "m \<le> n") (simp_all add: take_last_def min_def add.commute)

lemma follows_subscribe:
  assumes "ring_inv fs h" "ids_inv n h" "Suc (Suc n) < 2 ^ 64" "(i, h') = edge_subscribe r info h"
  shows "follows i (length fs - min r (er_capacity (edge_ring h))) fs h'"
proof -
  have "unat (edge_next_id h + 1) = unat (edge_next_id h) + 1"
    using assms(2,3) by (simp add: ids_inv_def unat_word_ariths)
  then have "edge_next_id h < edge_next_id h + 1" by (simp add: word_less_nat_alt)
  moreover have "ring_tail r (edge_ring h) = drop (length fs - min r (er_capacity (edge_ring h))) (stored fs)"
    using assms(1) by (simp add: ring_inv_def ring_tail_take_last take_last_take_last) (simp add: take_last_def)
  ultimately show ?thesis
    using assms(4) by (simp add: follows_def edge_subscribe_def Let_def trail_def)
qed

lemma follows_run:
  assumes "follows i start fs h" "ring_inv fs h" "ids_inv n h" "n + length ops + 2 < 2 ^ 64"
  shows "follows i start (fs @ published_frames ops) (fold edge_step ops h)"
  using assms
proof (induction ops arbitrary: fs h n)
  case (Cons op ops)
  have "Suc (Suc n) < 2 ^ 64" using Cons.prems(4) by simp
  note step = follows_step [OF Cons.prems(1-3) this] ring_inv_step [OF Cons.prems(2), THEN conjunct1]
    ids_inv_step [OF Cons.prems(3) this]
  from Cons.IH [OF step] Cons.prems(4) have
    "follows i start ((fs @ published_frames [op]) @ published_frames ops) (fold edge_step ops (edge_step op h))" by simp
  then show ?case using published_frames_append [of "[op]" ops] by simp
qed simp

text \<open>
  C27: an edge client gets replay and live frames without a gap or a repetition.
  Whatever happened before it subscribed and happens afterwards (publications, other
  clients, evictions, kicks, releases), what its writer has sent, followed by what is
  still to be sent to it, is a contiguous run of the published frames that starts at
  the replay point; while it is registered the run reaches the newest frame.  Its
  queue never exceeds the configured length.
\<close>

theorem edge_replay_gapless:
  assumes "h = fold edge_step ops (edge_hub_new cap q)" "(i, h1) = edge_subscribe n info h"
    and "h' = fold edge_step later h1" "length ops + length later + 3 < 2 ^ 64"
  shows "\<exists>c. edge_channels h' i = Some c \<and> length (ch_queue c) \<le> max q 1 \<and>
    (let run = drop (length (published_frames ops) - min n (max cap 1)) (stored (published_frames (ops @ later)))
     in prefix (ch_got c @ ch_replay c @ ch_queue c) run \<and>
        (i \<in> set (edge_subs h') \<longrightarrow> ch_got c @ ch_replay c @ ch_queue c = run))"
proof -
  have len: "length ops + 2 < 2 ^ 64" "Suc (Suc (length ops)) < 2 ^ 64" "Suc (length ops) + length later + 2 < 2 ^ 64"
    using assms(4) by simp_all
  have h: "ring_inv (published_frames ops) h" "ids_inv (length ops) h" "er_capacity (edge_ring h) = max cap 1"
    "edge_queue h = max q 1"
    using edge_run_inv [OF len(1) assms(1)] by simp_all
  have h1: "h1 = edge_step (EdgeSubscribe n info) h" using assms(2) by (metis edge_step.simps(2) snd_conv)
  have inv: "ring_inv (published_frames ops) h1" "edge_queue h1 = max q 1"
    using ring_inv_step [OF h(1), of "EdgeSubscribe n info"] h(4) by (simp_all add: h1)
  have "ids_inv (Suc (length ops)) h1" unfolding h1 by (rule ids_inv_step [OF h(2) len(2)])
  note run = follows_run [OF follows_subscribe [OF h(1,2) len(2) assms(2)] inv(1) this len(3)]
  have "edge_queue h' = max q 1"
  proof -
    have "edge_queue (fold edge_step xs g) = edge_queue g" for xs g
    proof (induction xs arbitrary: g)
      case (Cons x xs)
      have "edge_queue (edge_step x g) = edge_queue g"
        by (cases x) (simp_all add: edge_publish_def edge_subscribe_def edge_unsubscribe_def edge_release_def
            kick_tokens_def drop_subscribers_def Let_def)
      with Cons show ?case by simp
    qed simp
    then show ?thesis using assms(3) inv(2) by simp
  qed
  then show ?thesis
    using run unfolding assms(3) [symmetric] h(3) follows_def trail_def Let_def by auto
qed

lemma edge_publish_full:
  assumes "edge_channels h i = Some c" "i \<in> set (edge_subs h)" "ch_receiving c" "\<not> length (ch_queue c) < edge_queue h"
  shows "i \<notin> set (edge_subs (edge_publish f h)) \<and>
    edge_channels (edge_publish f h) i = Some (c\<lparr> ch_close_code := CLOSE_POLICY \<rparr>)"
  using assms by (simp add: edge_publish_def Let_def offer_def sends_def try_send_result_def)

subsection \<open>A sample client\<close>

definition sample_edge_frame :: "u64 \<Rightarrow> edge_frame" where
  "sample_edge_frame n = \<lparr> ef_batch_sequence = n, ef_event_sequence = n, ef_bytes = [], ef_recv_at_us = 0 \<rparr>"

definition sample_client :: "string option \<Rightarrow> client_info" where
  "sample_client t = \<lparr> client_ip = ''1.1.1.1'', client_port = 1, client_token_id = t, connected_at_ms = 0 \<rparr>"

theorem edge_replay_gapless_witness:
  "\<exists>c. edge_channels (fold edge_step [EdgePublish (sample_edge_frame 9), WriterTake 1]
        (snd (edge_subscribe 1 (sample_client None)
          (fold edge_step [EdgePublish (sample_edge_frame 7), EdgePublish (sample_edge_frame 8)] (edge_hub_new 4 2))))) 1 =
      Some c \<and> ch_got c @ ch_replay c @ ch_queue c = [(2, sample_edge_frame 8), (3, sample_edge_frame 9)]"
proof -
  define ops where "ops = [EdgePublish (sample_edge_frame 7), EdgePublish (sample_edge_frame 8)]"
  define later where "later = [EdgePublish (sample_edge_frame 9), WriterTake 1]"
  define h where "h = fold edge_step ops (edge_hub_new 4 2)"
  define h1 where "h1 = snd (edge_subscribe 1 (sample_client None) h)"
  define h' where "h' = fold edge_step later h1"
  have i: "edge_next_id h = 1" by (simp add: h_def ops_def edge_publish_def edge_hub_new_def Let_def)
  have sub: "(1, h1) = edge_subscribe 1 (sample_client None) h" by (simp add: h1_def edge_subscribe_def i Let_def)
  have "edge_subs h = []" by (simp add: h_def ops_def edge_publish_def edge_hub_new_def Let_def)
  moreover have "edge_queue h = 2" by (simp add: h_def ops_def edge_publish_def edge_hub_new_def Let_def)
  ultimately have reg: "1 \<in> set (edge_subs h')"
    by (simp add: h'_def later_def h1_def edge_subscribe_def edge_publish_def i Let_def sends_def try_send_result_def)
  have "length ops + length later + 3 < 2 ^ 64" by (simp add: ops_def later_def)
  from edge_replay_gapless [OF h_def sub h'_def this] reg
  obtain c where "edge_channels h' 1 = Some c" "ch_got c @ ch_replay c @ ch_queue c =
      drop (length (published_frames ops) - min 1 (max 4 1)) (stored (published_frames (ops @ later)))"
    by (auto simp: Let_def)
  moreover have "drop (length (published_frames ops) - min 1 (max 4 1)) (stored (published_frames (ops @ later))) =
      [(2, sample_edge_frame 8), (3, sample_edge_frame 9)]"
    by (simp add: ops_def later_def stored_def upt_conv_Cons)
  ultimately show ?thesis unfolding h'_def h1_def h_def ops_def later_def by metis
qed

end
