(* ===== verification/Category_Rules.thy ===== *)
theory Category_Rules
  imports Catalog "HOL-Library.Sublist"
begin

text \<open>
  \<open>category.rs\<close> and the rule file \<open>config/category_rules.json\<close> it is compiled with.  The
  rules are parsed once; a name or a pattern that does not parse is a panic, here
  \<open>None\<close>.  The \<open>regex\<close> crate and the Unicode lower-casing table are parameters.
\<close>

record regex_env =
  rx_valid :: "string \<Rightarrow> bool"
  rx_is_match :: "string \<Rightarrow> string \<Rightarrow> bool"
  to_lowercase :: "string \<Rightarrow> string"

subsection \<open>Raw rules\<close>

record raw_category_text_rule =
  raw_regex :: string
  raw_exclude_regex :: "string option"
  raw_category :: string

record raw_bet_type_group =
  raw_categories :: "string list"
  raw_tag_bet_type_rules :: "(u32 \<times> string) list"
  raw_sports_market_type_rules :: "(string \<times> string) list"
  raw_question_text_rules :: "(string \<times> string) list"
  raw_fallback_bet_type :: string

record raw_rules =
  raw_category_text_rules :: "raw_category_text_rule list"
  raw_tag_rules :: "(u32 \<times> string) list"
  raw_bet_type_groups :: "raw_bet_type_group list"

subsection \<open>Compiled rules\<close>

record category_text_rule =
  ct_regex :: string
  ct_exclude_regex :: "string option"
  ct_category :: category

record bet_type_group =
  bg_categories :: "category list"
  tag_bet_type_rules :: "(u32 \<times> bet_type) list"
  sports_market_type_rules :: "(string \<times> bet_type) list"
  question_text_rules :: "(string \<times> bet_type) list"
  fallback_bet_type :: bet_type

record compiled_rules =
  category_text_rules :: "category_text_rule list"
  tag_rules :: "(u32 \<times> category) list"
  bet_type_groups :: "bet_type_group list"

fun map_opt :: "('a \<Rightarrow> 'b option) \<Rightarrow> 'a list \<Rightarrow> 'b list option" where
  "map_opt f [] = Some []"
| "map_opt f (x # xs) = Option.bind (f x) (\<lambda>y. map_option ((#) y) (map_opt f xs))"

definition compile_question_regex :: "regex_env \<Rightarrow> string \<Rightarrow> string option" where
  "compile_question_regex R regex =
     (let pattern = ''(?i)'' @ regex in if rx_valid R pattern then Some pattern else None)"

definition parse_category :: "string \<Rightarrow> category option" where
  "parse_category name =
     (if name = ''SPORTS'' then Some Sports
      else if name = ''ESPORTS'' then Some Esports
      else if name = ''POLITICS'' then Some Politics
      else if name = ''CRYPTO'' then Some Crypto
      else if name = ''CULTURE'' then Some Culture
      else if name = ''WEATHER'' then Some Weather
      else if name = ''MENTIONS'' then Some Mentions
      else if name = ''OTHER'' then Some CatOther
      else if name = ''UNSPECIFIED'' then Some CatUnspecified
      else None)"

definition parse_bet_type :: "string \<Rightarrow> bet_type option" where
  "parse_bet_type name =
     (if name = ''MONEYLINE'' then Some Moneyline
      else if name = ''SPREAD'' then Some Spread
      else if name = ''OVER_UNDER'' then Some OverUnder
      else if name = ''GAME_WINNER'' then Some GameWinner
      else if name = ''OUTRIGHT'' then Some Outright
      else if name = ''SPORTS_PROP'' then Some SportsProp
      else if name = ''TEMP_HIGH'' then Some TempHigh
      else if name = ''TEMP_LOW'' then Some TempLow
      else if name = ''PRECIPITATION'' then Some Precipitation
      else if name = ''STORM'' then Some Storm
      else if name = ''WEATHER_OTHER'' then Some WeatherOther
      else if name = ''PRICE_TARGET'' then Some PriceTarget
      else if name = ''PRICE_THRESHOLD'' then Some PriceThreshold
      else if name = ''UP_DOWN'' then Some UpDown
      else if name = ''CRYPTO_PROP'' then Some CryptoProp
      else if name = ''ELECTION_WINNER'' then Some ElectionWinner
      else if name = ''FED_RATE_DECISION'' then Some FedRateDecision
      else if name = ''TWEET_COUNT'' then Some TweetCount
      else if name = ''POLITICS_PROP'' then Some PoliticsProp
      else if name = ''AWARD_WINNER'' then Some AwardWinner
      else if name = ''MEDIA_METRIC_RANGE'' then Some MediaMetricRange
      else if name = ''CULTURE_PROP'' then Some CultureProp
      else if name = ''MENTION_TERM'' then Some MentionTerm
      else if name = ''MENTION_COUNT'' then Some MentionCount
      else if name = ''MENTION_PROP'' then Some MentionProp
      else if name = ''UNSPECIFIED'' then Some BetUnspecified
      else None)"

definition parse_text_rule :: "regex_env \<Rightarrow> raw_category_text_rule \<Rightarrow> category_text_rule option" where
  "parse_text_rule R rule =
     Option.bind (compile_question_regex R (raw_regex rule)) (\<lambda>regex.
     Option.bind (case raw_exclude_regex rule of
                    None \<Rightarrow> Some None
                  | Some x \<Rightarrow> map_option Some (compile_question_regex R x)) (\<lambda>excl.
     map_option (\<lambda>c. \<lparr> ct_regex = regex, ct_exclude_regex = excl, ct_category = c \<rparr>)
       (parse_category (raw_category rule))))"

definition parse_group :: "regex_env \<Rightarrow> raw_bet_type_group \<Rightarrow> bet_type_group option" where
  "parse_group R raw =
     Option.bind (map_opt parse_category (raw_categories raw)) (\<lambda>cats.
     Option.bind (map_opt (\<lambda>(i, n). map_option (Pair i) (parse_bet_type n)) (raw_tag_bet_type_rules raw)) (\<lambda>tags.
     Option.bind (map_opt (\<lambda>(s, n). map_option (Pair (to_lowercase R s)) (parse_bet_type n))
                    (raw_sports_market_type_rules raw)) (\<lambda>sports.
     Option.bind (map_opt (\<lambda>(x, n). Option.bind (compile_question_regex R x)
                                      (\<lambda>regex. map_option (Pair regex) (parse_bet_type n)))
                    (raw_question_text_rules raw)) (\<lambda>questions.
     map_option (\<lambda>b. \<lparr> bg_categories = cats, tag_bet_type_rules = tags, sports_market_type_rules = sports,
                       question_text_rules = questions, fallback_bet_type = b \<rparr>)
       (parse_bet_type (raw_fallback_bet_type raw))))))"

definition parse_rules :: "regex_env \<Rightarrow> raw_rules \<Rightarrow> compiled_rules option" where
  "parse_rules R raw =
     Option.bind (map_opt (parse_text_rule R) (raw_category_text_rules raw)) (\<lambda>texts.
     Option.bind (map_opt (\<lambda>(i, n). map_option (Pair i) (parse_category n)) (raw_tag_rules raw)) (\<lambda>tags.
     map_option (\<lambda>groups. \<lparr> category_text_rules = texts, tag_rules = tags, bet_type_groups = groups \<rparr>)
       (map_opt (parse_group R) (raw_bet_type_groups raw))))"

subsection \<open>Matching\<close>

definition text_rule_matches :: "regex_env \<Rightarrow> string \<Rightarrow> category_text_rule \<Rightarrow> bool" where
  "text_rule_matches R ques rule \<longleftrightarrow> rx_is_match R (ct_regex rule) ques \<and>
     \<not> (case ct_exclude_regex rule of None \<Rightarrow> False | Some excluded \<Rightarrow> rx_is_match R excluded ques)"

definition category_for :: "regex_env \<Rightarrow> compiled_rules \<Rightarrow> u32 list \<Rightarrow> string option \<Rightarrow> category" where
  "category_for R rules tags ques =
     (case Option.bind ques (\<lambda>q. find (text_rule_matches R q) (category_text_rules rules)) of
        Some rule \<Rightarrow> ct_category rule
      | None \<Rightarrow>
          (case find (\<lambda>(i, _). i \<in> set tags) (tag_rules rules) of
             Some (_, c) \<Rightarrow> c
           | None \<Rightarrow> if tags = [] then CatUnspecified else CatOther))"

definition str_contains :: "string \<Rightarrow> string \<Rightarrow> bool" where
  "str_contains needle s \<longleftrightarrow> list_ex (\<lambda>t. prefix needle t) (suffixes s)"

definition bet_type_for :: "regex_env \<Rightarrow> bet_type_group \<Rightarrow> u32 list \<Rightarrow> string option \<Rightarrow> string option \<Rightarrow> bet_type" where
  "bet_type_for R g tags smt ques =
     (case find (\<lambda>(i, _). i \<in> set tags) (tag_bet_type_rules g) of
        Some (_, b) \<Rightarrow> b
      | None \<Rightarrow>
          (case (if sports_market_type_rules g = [] then None else smt) of
             Some s \<Rightarrow>
               (case find (\<lambda>(needle, _). str_contains needle (to_lowercase R s)) (sports_market_type_rules g) of
                  Some (_, b) \<Rightarrow> b | None \<Rightarrow> fallback_bet_type g)
           | None \<Rightarrow>
               (case ques of
                  Some q \<Rightarrow>
                    (case find (\<lambda>(regex, _). rx_is_match R regex q) (question_text_rules g) of
                       Some (_, b) \<Rightarrow> b | None \<Rightarrow> fallback_bet_type g)
                | None \<Rightarrow> BetUnspecified)))"

definition classify_with :: "regex_env \<Rightarrow> compiled_rules \<Rightarrow> classifier" where
  "classify_with R rules tags smt ques =
     (let cat = category_for R rules tags ques
      in (cat, case find (\<lambda>g. cat \<in> set (bg_categories g)) (bet_type_groups rules) of
                 None \<Rightarrow> BetUnspecified
               | Some g \<Rightarrow> bet_type_for R g tags smt ques))"

subsection \<open>The rule file\<close>

text \<open>Patterns are written with a tilde for the backslash.\<close>

definition rx :: "string \<Rightarrow> string" where
  "rx s = map (\<lambda>c. if c = CHR ''~'' then CHR 0x5C else c) s"

definition sports_group :: raw_bet_type_group where
  "sports_group =
     \<lparr> raw_categories = [''SPORTS'', ''ESPORTS''],
       raw_tag_bet_type_rules = [],
       raw_sports_market_type_rules = [(''child_moneyline'', ''GAME_WINNER''),
         (''moneyline'', ''MONEYLINE''),
         (''handicap'', ''SPREAD''),
         (''spread'', ''SPREAD''),
         (''total'', ''OVER_UNDER''),
         (''corners'', ''OVER_UNDER''),
         (''completed_match'', ''SPORTS_PROP''),
         (''to_score'', ''SPORTS_PROP''),
         (''exact_score'', ''SPORTS_PROP''),
         (''to_advance'', ''SPORTS_PROP''),
         (''result'', ''MONEYLINE''),
         (''winner'', ''MONEYLINE'')],
       raw_question_text_rules =
         [(rx ''~bSpread:|~bHandicap~b'', ''SPREAD''),
          (rx ''~bO/U~b|Over/Under'', ''OVER_UNDER''),
          (rx ''~b(Game|Map|Set|Leg)~s*~d+~s*Winner~b'', ''GAME_WINNER''),
          (rx ''^[^:]+~svs~.?~s[^:]+$'', ''MONEYLINE''),
          (rx ''^Will~s.+~swin~s(the~s)?.+~?$'', ''OUTRIGHT'')],
       raw_fallback_bet_type = ''SPORTS_PROP'' \<rparr>"

definition weather_group :: raw_bet_type_group where
  "weather_group =
     \<lparr> raw_categories = [''WEATHER''],
       raw_tag_bet_type_rules = [(104596, ''TEMP_HIGH''),
         (104597, ''TEMP_LOW''),
         (103041, ''PRECIPITATION''),
         (103545, ''PRECIPITATION''),
         (103235, ''PRECIPITATION''),
         (106182, ''PRECIPITATION''),
         (1313, ''PRECIPITATION''),
         (102023, ''STORM''),
         (85, ''STORM''),
         (102186, ''STORM'')],
       raw_sports_market_type_rules = [],
       raw_question_text_rules =
         [(rx ''highest temperature'', ''TEMP_HIGH''),
          (rx ''lowest temperature'', ''TEMP_LOW''),
          (rx ''~bsnow~b|precipitation|rainfall'', ''PRECIPITATION''),
          (rx ''hurricane|tropical storm'', ''STORM'')],
       raw_fallback_bet_type = ''WEATHER_OTHER'' \<rparr>"

definition crypto_group :: raw_bet_type_group where
  "crypto_group =
     \<lparr> raw_categories = [''CRYPTO''],
       raw_tag_bet_type_rules = [(102134, ''PRICE_TARGET''),
         (102516, ''PRICE_THRESHOLD''),
         (102127, ''UP_DOWN'')],
       raw_sports_market_type_rules = [],
       raw_question_text_rules =
         [(rx ''~breach(es|ed)?~s*~$|~bdip(s|ped)?~s*to~s*~$'', ''PRICE_TARGET''),
          (rx ''price of .+ be (above|below|over|under)~s*~$'', ''PRICE_THRESHOLD''),
          (rx ''~bUp or Down~b'', ''UP_DOWN'')],
       raw_fallback_bet_type = ''CRYPTO_PROP'' \<rparr>"

definition politics_group :: raw_bet_type_group where
  "politics_group =
     \<lparr> raw_categories = [''POLITICS''],
       raw_tag_bet_type_rules = [(144, ''ELECTION_WINNER''),
         (100196, ''FED_RATE_DECISION''),
         (159, ''FED_RATE_DECISION''),
         (972, ''TWEET_COUNT'')],
       raw_sports_market_type_rules = [],
       raw_question_text_rules =
         [(rx ''^Will~s.+~swin~s(the~s)?.+(election|nomination|primary)~b'', ''ELECTION_WINNER''),
          (rx ''~bFed~b.*~binterest rates?~b'', ''FED_RATE_DECISION''),
          (rx ''~bpost~s+[<~d].*~b(tweets|posts)~b'', ''TWEET_COUNT'')],
       raw_fallback_bet_type = ''POLITICS_PROP'' \<rparr>"

definition culture_group :: raw_bet_type_group where
  "culture_group =
     \<lparr> raw_categories = [''CULTURE''],
       raw_tag_bet_type_rules = [],
       raw_sports_market_type_rules = [],
       raw_question_text_rules =
         [(rx ''^Will~s.+~sbe~sthe~s.+~?$'', ''AWARD_WINNER''),
          (rx ''~bbetween~s*[~d,.]+~S*~s+and~s+[~d,.]+|~b(less than|more than)~s*[~d,.]+~s*(million|m|k)?~s*(views|gross)~b'', ''MEDIA_METRIC_RANGE'')],
       raw_fallback_bet_type = ''CULTURE_PROP'' \<rparr>"

definition mentions_group :: raw_bet_type_group where
  "mentions_group =
     \<lparr> raw_categories = [''MENTIONS''],
       raw_tag_bet_type_rules = [],
       raw_sports_market_type_rules = [],
       raw_question_text_rules =
         [(rx ''~btimes~b|~b~d+~s*(~+|or more|or fewer|or less)'', ''MENTION_COUNT''),
          (rx ''~b(says?|said|posts?|tweets?|mentions?)~b|~bbe in the (headlines|manifesto)~b'', ''MENTION_TERM'')],
       raw_fallback_bet_type = ''MENTION_PROP'' \<rparr>"

definition RULES_JSON :: raw_rules where
  "RULES_JSON =
     \<lparr> raw_category_text_rules =
         [\<lparr> raw_regex = rx (''(~b(says?|said|mentions?|posts?|tweets?)~b[^?]*['' @ [CHR 0x22, CHR 0xE2, CHR 0x80, CHR 0x9C, CHR 0xE2, CHR 0x80, CHR 0x98] @ ''])|(~b(says?|said|mentions?)~b[^?]*~b(~d+~s*(~+|or more)|times)~b)''),
            raw_exclude_regex = Some (rx ''~bindex says~b''), raw_category = ''MENTIONS'' \<rparr>],
       raw_tag_rules =
         [(100343, ''MENTIONS''),
          (64, ''ESPORTS''),
          (1, ''SPORTS''),
          (84, ''WEATHER''),
          (2, ''POLITICS''),
          (21, ''CRYPTO''),
          (596, ''CULTURE'')],
       raw_bet_type_groups =
         [sports_group, weather_group, crypto_group, politics_group, culture_group, mentions_group] \<rparr>"

definition classify :: "regex_env \<Rightarrow> classifier option" where
  "classify R = map_option (classify_with R) (parse_rules R RULES_JSON)"

subsection \<open>Every bet type stays in the block of its category\<close>

definition bet_block :: "category \<Rightarrow> bet_type list" where
  "bet_block c =
     (case c of
        Sports \<Rightarrow> [Moneyline, Spread, OverUnder, GameWinner, Outright, SportsProp]
      | Esports \<Rightarrow> [Moneyline, Spread, OverUnder, GameWinner, Outright, SportsProp]
      | Weather \<Rightarrow> [TempHigh, TempLow, Precipitation, Storm, WeatherOther]
      | Crypto \<Rightarrow> [PriceTarget, PriceThreshold, UpDown, CryptoProp]
      | Politics \<Rightarrow> [ElectionWinner, FedRateDecision, TweetCount, PoliticsProp]
      | Culture \<Rightarrow> [AwardWinner, MediaMetricRange, CultureProp]
      | Mentions \<Rightarrow> [MentionTerm, MentionCount, MentionProp]
      | _ \<Rightarrow> [])"

lemma map_opt_Some: "map_opt f xs = Some ys \<longleftrightarrow> map f xs = map Some ys"
  by (induction xs arbitrary: ys) (auto simp: bind_eq_Some_conv Cons_eq_map_conv)

lemma map_Some_mem:
  assumes "map f xs = map Some ys"
  shows "y \<in> set ys \<Longrightarrow> \<exists>x\<in>set xs. f x = Some y" "x \<in> set xs \<Longrightarrow> \<exists>y\<in>set ys. f x = Some y"
proof -
  have "f ` set xs = Some ` set ys" using arg_cong [OF assms, of set] by simp
  then show "y \<in> set ys \<Longrightarrow> \<exists>x\<in>set xs. f x = Some y" "x \<in> set xs \<Longrightarrow> \<exists>y\<in>set ys. f x = Some y"
    by (metis imageE imageI)+
qed

lemma map_opt_total: "list_all (\<lambda>x. f x \<noteq> None) xs \<Longrightarrow> map_opt f xs \<noteq> None"
  by (induction xs) auto

definition group_names :: "raw_bet_type_group \<Rightarrow> string list" where
  "group_names raw = map snd (raw_tag_bet_type_rules raw) @ map snd (raw_sports_market_type_rules raw) @
     map snd (raw_question_text_rules raw) @ [raw_fallback_bet_type raw]"

definition group_types :: "bet_type_group \<Rightarrow> bet_type list" where
  "group_types g = map snd (tag_bet_type_rules g) @ map snd (sports_market_type_rules g) @
     map snd (question_text_rules g) @ [fallback_bet_type g]"

definition rule_patterns :: "raw_rules \<Rightarrow> string list" where
  "rule_patterns raw =
     concat (map (\<lambda>r. raw_regex r # (case raw_exclude_regex r of None \<Rightarrow> [] | Some x \<Rightarrow> [x])) (raw_category_text_rules raw)) @
     concat (map (\<lambda>g. map fst (raw_question_text_rules g)) (raw_bet_type_groups raw))"

definition raw_group_ok :: "raw_bet_type_group \<Rightarrow> bool" where
  "raw_group_ok raw \<longleftrightarrow> list_all (\<lambda>n. parse_category n \<noteq> None) (raw_categories raw) \<and>
     list_all (\<lambda>n. list_all (\<lambda>c. parse_bet_type n \<in> Some ` set (bet_block (the (parse_category c)))) (raw_categories raw) \<and>
       parse_bet_type n \<noteq> None) (group_names raw)"

lemma map_snd_parse:
  "map (\<lambda>(i, n). map_option (Pair (h i)) (p n)) xs = map Some ys \<Longrightarrow> map p (map snd xs) = map Some (map snd ys)"
  by (induction xs arbitrary: ys) (auto simp: Cons_eq_map_conv)

lemma map_snd_parse_regex:
  "map (\<lambda>(x, n). Option.bind (r x) (\<lambda>y. map_option (Pair y) (p n))) xs = map Some ys \<Longrightarrow>
    map p (map snd xs) = map Some (map snd ys)"
  by (induction xs arbitrary: ys) (auto simp: Cons_eq_map_conv bind_eq_Some_conv)

lemma parse_group_types:
  assumes "parse_group R raw = Some g"
  shows "map parse_bet_type (group_names raw) = map Some (group_types g)"
    "map parse_category (raw_categories raw) = map Some (bg_categories g)"
proof -
  from assms obtain cats tags sports ques b where
    p: "map parse_category (raw_categories raw) = map Some cats"
      "map (\<lambda>(i, n). map_option (Pair i) (parse_bet_type n)) (raw_tag_bet_type_rules raw) = map Some tags"
      "map (\<lambda>(s, n). map_option (Pair (to_lowercase R s)) (parse_bet_type n)) (raw_sports_market_type_rules raw) = map Some sports"
      "map (\<lambda>(x, n). Option.bind (compile_question_regex R x) (\<lambda>regex. map_option (Pair regex) (parse_bet_type n)))
        (raw_question_text_rules raw) = map Some ques"
      "parse_bet_type (raw_fallback_bet_type raw) = Some b"
    and g: "g = \<lparr> bg_categories = cats, tag_bet_type_rules = tags, sports_market_type_rules = sports,
      question_text_rules = ques, fallback_bet_type = b \<rparr>"
    by (auto simp: parse_group_def bind_eq_Some_conv map_opt_Some)
  show "map parse_category (raw_categories raw) = map Some (bg_categories g)" by (simp add: p(1) g)
  show "map parse_bet_type (group_names raw) = map Some (group_types g)"
    unfolding group_names_def group_types_def map_append g
    using map_snd_parse [OF p(2)] map_snd_parse [OF p(3)] map_snd_parse_regex [OF p(4)] p(5)
    by (simp only: bet_type_group.select_convs list.map)
qed

lemma parse_group_total:
  assumes "raw_group_ok raw" "\<forall>x\<in>set (map fst (raw_question_text_rules raw)). rx_valid R (''(?i)'' @ x)"
  shows "parse_group R raw \<noteq> None"
proof -
  have n: "list_all (\<lambda>n. parse_bet_type n \<noteq> None) (group_names raw)" "list_all (\<lambda>n. parse_category n \<noteq> None) (raw_categories raw)"
    using assms(1) by (auto simp: raw_group_ok_def list_all_iff)
  have "map_opt (\<lambda>(i, n). map_option (Pair i) (parse_bet_type n)) (raw_tag_bet_type_rules raw) \<noteq> None"
    "map_opt (\<lambda>(s, n). map_option (Pair (to_lowercase R s)) (parse_bet_type n)) (raw_sports_market_type_rules raw) \<noteq> None"
    "map_opt (\<lambda>(x, n). Option.bind (compile_question_regex R x) (\<lambda>regex. map_option (Pair regex) (parse_bet_type n)))
       (raw_question_text_rules raw) \<noteq> None"
  proof -
    have t: "parse_bet_type n \<noteq> None" if "n \<in> set (group_names raw)" for n using n(1) that unfolding list_all_iff by blast
    have "\<forall>y\<in>set (raw_tag_bet_type_rules raw). parse_bet_type (snd y) \<noteq> None"
      "\<forall>y\<in>set (raw_sports_market_type_rules raw). parse_bet_type (snd y) \<noteq> None"
      "\<forall>y\<in>set (raw_question_text_rules raw). parse_bet_type (snd y) \<noteq> None"
      by (intro ballI t; simp add: group_names_def)+
    moreover have "\<forall>y\<in>set (raw_question_text_rules raw). compile_question_regex R (fst y) \<noteq> None"
      using assms(2) by (simp add: compile_question_regex_def Let_def)
    ultimately show "map_opt (\<lambda>(i, n). map_option (Pair i) (parse_bet_type n)) (raw_tag_bet_type_rules raw) \<noteq> None"
      "map_opt (\<lambda>(s, n). map_option (Pair (to_lowercase R s)) (parse_bet_type n)) (raw_sports_market_type_rules raw) \<noteq> None"
      "map_opt (\<lambda>(x, n). Option.bind (compile_question_regex R x) (\<lambda>regex. map_option (Pair regex) (parse_bet_type n)))
         (raw_question_text_rules raw) \<noteq> None"
      by (intro map_opt_total, simp add: list_all_iff case_prod_beta bind_eq_None_conv)+
  qed
  moreover have "map_opt parse_category (raw_categories raw) \<noteq> None" using n(2) by (rule map_opt_total)
  moreover have "parse_bet_type (raw_fallback_bet_type raw) \<noteq> None" using n(1) by (simp add: group_names_def)
  ultimately show ?thesis by (auto simp: parse_group_def)
qed

definition group_ok :: "bet_type_group \<Rightarrow> bool" where
  "group_ok g \<longleftrightarrow> (\<forall>c\<in>set (bg_categories g). \<forall>b\<in>set (group_types g). b \<in> set (bet_block c))"

lemma parse_group_ok:
  assumes "parse_group R raw = Some g" "raw_group_ok raw"
  shows "group_ok g"
  unfolding group_ok_def
proof (intro ballI)
  fix c b assume c: "c \<in> set (bg_categories g)" and b: "b \<in> set (group_types g)"
  have "Some c \<in> set (map parse_category (raw_categories raw))"
    unfolding parse_group_types(2) [OF assms(1)] using c by simp
  then obtain cn where cn: "cn \<in> set (raw_categories raw)" "parse_category cn = Some c" by auto
  have "Some b \<in> set (map parse_bet_type (group_names raw))"
    unfolding parse_group_types(1) [OF assms(1)] using b by simp
  then obtain bn where "bn \<in> set (group_names raw)" "parse_bet_type bn = Some b" by auto
  with cn assms(2) show "b \<in> set (bet_block c)" by (fastforce simp: raw_group_ok_def list_all_iff)
qed

lemma find_snd: "find P xs = Some (x, b) \<Longrightarrow> b \<in> set (map snd xs)"
  by (induction xs) (auto split: if_splits)

lemma bet_type_for_types:
  "bet_type_for R g tags smt ques \<in> insert BetUnspecified (set (group_types g))"
  "ques \<noteq> None \<Longrightarrow> bet_type_for R g tags smt ques \<in> set (group_types g)"
  by (auto simp: bet_type_for_def group_types_def dest!: find_snd split: option.splits if_splits)

lemma shipped_groups_ok: "list_all raw_group_ok (raw_bet_type_groups RULES_JSON)"
  by code_simp

lemma shipped_categories_covered:
  "\<forall>c. c \<noteq> CatUnspecified \<and> c \<noteq> CatOther \<longrightarrow>
     Some c \<in> set (concat (map (\<lambda>g. map parse_category (raw_categories g)) (raw_bet_type_groups RULES_JSON)))"
proof (intro allI impI, elim conjE)
  fix c :: category assume "c \<noteq> CatUnspecified" "c \<noteq> CatOther"
  then show "Some c \<in> set (concat (map (\<lambda>g. map parse_category (raw_categories g)) (raw_bet_type_groups RULES_JSON)))"
    by (cases c) (simp_all add: RULES_JSON_def sports_group_def weather_group_def crypto_group_def
      politics_group_def culture_group_def mentions_group_def parse_category_def)
qed

lemma shipped_no_other:
  "None \<notin> set (concat (map (\<lambda>g. map parse_category (raw_categories g)) (raw_bet_type_groups RULES_JSON)))"
  "Some CatUnspecified \<notin> set (concat (map (\<lambda>g. map parse_category (raw_categories g)) (raw_bet_type_groups RULES_JSON)))"
  "Some CatOther \<notin> set (concat (map (\<lambda>g. map parse_category (raw_categories g)) (raw_bet_type_groups RULES_JSON)))"
  by (simp_all add: RULES_JSON_def sports_group_def weather_group_def crypto_group_def
      politics_group_def culture_group_def mentions_group_def parse_category_def)

lemma parse_rules_total:
  assumes "\<forall>x\<in>set (rule_patterns RULES_JSON). rx_valid R (''(?i)'' @ x)"
  shows "\<exists>rules. parse_rules R RULES_JSON = Some rules \<and>
    map (parse_group R) (raw_bet_type_groups RULES_JSON) = map Some (bet_type_groups rules)"
proof -
  have g: "map_opt (parse_group R) (raw_bet_type_groups RULES_JSON) \<noteq> None"
  proof (rule map_opt_total)
    show "list_all (\<lambda>g. parse_group R g \<noteq> None) (raw_bet_type_groups RULES_JSON)"
      unfolding list_all_iff
    proof
      fix raw assume raw: "raw \<in> set (raw_bet_type_groups RULES_JSON)"
      have "raw_group_ok raw" using shipped_groups_ok raw unfolding list_all_iff by blast
      moreover have "\<forall>x\<in>set (map fst (raw_question_text_rules raw)). rx_valid R (''(?i)'' @ x)"
        using assms raw unfolding rule_patterns_def by auto
      ultimately show "parse_group R raw \<noteq> None" by (rule parse_group_total)
    qed
  qed
  have t: "map_opt (parse_text_rule R) (raw_category_text_rules RULES_JSON) \<noteq> None"
    using assms by (simp add: rule_patterns_def RULES_JSON_def parse_text_rule_def compile_question_regex_def parse_category_def Let_def)
  have c: "map_opt (\<lambda>(i, n). map_option (Pair i) (parse_category n)) (raw_tag_rules RULES_JSON) \<noteq> None"
    by (simp add: RULES_JSON_def parse_category_def)
  from g t c obtain gs ts cs where
    "map_opt (parse_group R) (raw_bet_type_groups RULES_JSON) = Some gs"
    "map_opt (parse_text_rule R) (raw_category_text_rules RULES_JSON) = Some ts"
    "map_opt (\<lambda>(i, n). map_option (Pair i) (parse_category n)) (raw_tag_rules RULES_JSON) = Some cs" by blast
  then show ?thesis by (simp add: parse_rules_def) (simp add: map_opt_Some)
qed

text \<open>
  C28: the shipped rules are well formed and never leak across categories.  If the
  \<open>regex\<close> crate accepts the patterns of the rule file, the classifier starts, and for
  every market it returns a bet type of the block of the category it returns, or
  none; for a market with a question, none is returned exactly for the two
  categories that have no bet types.
\<close>

theorem classify_in_block:
  assumes "\<forall>x\<in>set (rule_patterns RULES_JSON). rx_valid R (''(?i)'' @ x)"
  shows "\<exists>f. classify R = Some f \<and>
    (\<forall>tags smt ques c b. f tags smt ques = (c, b) \<longrightarrow>
       (b = BetUnspecified \<or> b \<in> set (bet_block c)) \<and>
       (ques \<noteq> None \<longrightarrow> (b = BetUnspecified \<longleftrightarrow> c = CatUnspecified \<or> c = CatOther)))"
proof -
  obtain rules where rules: "parse_rules R RULES_JSON = Some rules"
    "map (parse_group R) (raw_bet_type_groups RULES_JSON) = map Some (bet_type_groups rules)"
    using parse_rules_total [OF assms] by blast
  let ?cats = "concat (map (\<lambda>g. map parse_category (raw_categories g)) (raw_bet_type_groups RULES_JSON))"
  have parsed: "\<exists>raw\<in>set (raw_bet_type_groups RULES_JSON). parse_group R raw = Some g" if "g \<in> set (bet_type_groups rules)" for g
    using map_Some_mem(1) [OF rules(2) that] .
  have ok: "group_ok g" if "g \<in> set (bet_type_groups rules)" for g
    using parsed [OF that] shipped_groups_ok parse_group_ok by (auto simp: list_all_iff)
  have cats: "(\<exists>g\<in>set (bet_type_groups rules). c \<in> set (bg_categories g)) \<longleftrightarrow> Some c \<in> set ?cats" for c
  proof -
    have "Some c \<in> set (map parse_category (raw_categories raw)) \<longleftrightarrow> c \<in> set (bg_categories g)"
      if "parse_group R raw = Some g" for raw g
      unfolding parse_group_types(2) [OF that] by auto
    moreover have "\<exists>g\<in>set (bet_type_groups rules). parse_group R raw = Some g" if "raw \<in> set (raw_bet_type_groups RULES_JSON)" for raw
      using map_Some_mem(2) [OF rules(2) that] .
    moreover have "Some c \<in> set ?cats \<longleftrightarrow>
        (\<exists>raw\<in>set (raw_bet_type_groups RULES_JSON). Some c \<in> set (map parse_category (raw_categories raw)))" by auto
    ultimately show ?thesis using parsed by meson
  qed
  have "(b = BetUnspecified \<or> b \<in> set (bet_block c)) \<and>
      (ques \<noteq> None \<longrightarrow> (b = BetUnspecified \<longleftrightarrow> c = CatUnspecified \<or> c = CatOther))"
    if f: "classify_with R rules tags smt ques = (c, b)" for tags smt ques c b
  proof (cases "find (\<lambda>g. c \<in> set (bg_categories g)) (bet_type_groups rules)")
    case None
    with f have "b = BetUnspecified" by (auto simp: classify_with_def Let_def)
    moreover have "Some c \<notin> set ?cats" using None cats [of c] unfolding find_None_iff by blast
    then have "c = CatUnspecified \<or> c = CatOther" using shipped_categories_covered by blast
    ultimately show ?thesis by simp
  next
    case (Some g)
    then have g: "g \<in> set (bet_type_groups rules)" "c \<in> set (bg_categories g)" by (auto simp: find_Some_iff)
    with f Some have b: "b = bet_type_for R g tags smt ques" by (auto simp: classify_with_def Let_def)
    have "Some c \<in> set ?cats" using g cats by blast
    then have "c \<noteq> CatUnspecified" "c \<noteq> CatOther" using shipped_no_other(2,3) by (metis, metis)
    moreover have "BetUnspecified \<notin> set (bet_block c)" by (simp add: bet_block_def split: category.splits)
    ultimately show ?thesis
      using bet_type_for_types(1) [of R g tags smt ques] bet_type_for_types(2) [of ques R g tags smt] ok [OF g(1)] g(2) b by (auto simp: group_ok_def)
  qed
  then show ?thesis using rules(1) by (auto simp: classify_def)
qed

definition sample_regex :: regex_env where
  "sample_regex = \<lparr> rx_valid = (\<lambda>_. True), rx_is_match = (\<lambda>p q. str_contains (drop 4 p) q), to_lowercase = id \<rparr>"

theorem classify_in_block_witness:
  "\<exists>f. classify sample_regex = Some f \<and> fst (f [21] None (Some ''Bitcoin up'')) = Crypto \<and>
    snd (f [21] None (Some ''Bitcoin up'')) \<in> set (bet_block Crypto)"
proof -
  have v: "\<forall>x\<in>set (rule_patterns RULES_JSON). rx_valid sample_regex (''(?i)'' @ x)" by (simp add: sample_regex_def)
  obtain f where f: "classify sample_regex = Some f"
    "\<forall>tags smt ques c b. f tags smt ques = (c, b) \<longrightarrow> (b = BetUnspecified \<or> b \<in> set (bet_block c)) \<and>
       (ques \<noteq> None \<longrightarrow> (b = BetUnspecified \<longleftrightarrow> c = CatUnspecified \<or> c = CatOther))"
    using classify_in_block [OF v] by blast
  have "map_option (\<lambda>f. fst (f [21] None (Some ''Bitcoin up''))) (classify sample_regex) = Some Crypto" by code_simp
  then have "fst (f [21] None (Some ''Bitcoin up'')) = Crypto" using f(1) by simp
  moreover obtain c b where "f [21] None (Some ''Bitcoin up'') = (c, b)" by (cases "f [21] None (Some ''Bitcoin up'')")
  ultimately show ?thesis using f by fastforce
qed

end
