(* ===== verification/Console_Registry.thy ===== *)
theory Console_Registry
  imports Storage Gate "HOL-Library.Multiset" "HOL-Library.List_Lexorder" "HOL-Library.Char_ord"
begin

text \<open>
  \<open>console/registry.rs\<close>: the console's table of edge nodes, what a heartbeat answers, the
  public list and the automatic balancing.  The nodes are a list without two of the
  same id, in the unspecified order of the hash map; of a heartbeat the fields the
  registry reads are kept.  The file is a value and whether a save succeeds is an
  argument, as is the shuffle of the public list.  Floating-point numbers are
  abstract (\<open>f64_ops\<close>) with their conversion to \<open>i64\<close>.
\<close>

record node_heartbeat =
  hb_node_id :: string
  hb_started_at_ms :: u64
  hb_advertise_host :: string
  hb_port :: u16
  hb_tls :: bool
  hb_path :: string
  hb_subprotocol :: string
  hb_ready :: bool
  hb_draining :: bool
  hb_clients :: u64
  hb_max_clients :: u64

record node_admin =
  admin_disabled :: bool
  admin_note :: string
  admin_relay :: bool

record balance_settings =
  auto_balance :: bool
  release_batch :: u32
  balance_spread_pct :: u32
  balance_min_excess :: u64

record reg_node =
  heartbeat_of :: node_heartbeat
  remote_ip :: string
  first_seen_ms :: u64
  last_seen_ms :: u64
  desired_drain :: bool
  pending_release :: u64
  released_total :: u64
  last_release_ms :: u64

record nodes_file =
  nf_admin :: "string \<rightharpoonup> node_admin"
  nf_settings :: balance_settings

record registry =
  stale_after_ms :: u64
  reg_nodes :: "reg_node list"
  reg_admin :: "string \<rightharpoonup> node_admin"
  reg_settings :: balance_settings
  reg_file :: "nodes_file option"

datatype node_status = Stale | Relay | Disabled | Draining | NotReady | NodeFull | Serving

record heartbeat_outcome =
  out_first_seen :: bool
  out_restarted :: bool
  out_desired_drain :: bool
  out_release :: u32
  out_release_reason :: string

record node_view =
  view_node :: reg_node
  view_admin :: node_admin
  view_status :: node_status
  view_url :: string
  view_balance_excess :: int

record public_node =
  pub_node_id :: string
  pub_url :: string
  pub_weight :: u64
  pub_clients :: u64

definition settings_default :: balance_settings where
  "settings_default = \<lparr> auto_balance = True, release_batch = 20, balance_spread_pct = 5, balance_min_excess = 5 \<rparr>"

definition admin_default :: node_admin where
  "admin_default = \<lparr> admin_disabled = False, admin_note = [], admin_relay = False \<rparr>"

abbreviation node_id_of :: "reg_node \<Rightarrow> string" where
  "node_id_of n \<equiv> hb_node_id (heartbeat_of n)"

abbreviation clients_of :: "reg_node \<Rightarrow> u64" where
  "clients_of n \<equiv> hb_clients (heartbeat_of n)"

definition registry_open :: "u64 \<Rightarrow> nodes_file option \<Rightarrow> registry" where
  "registry_open stale file =
     \<lparr> stale_after_ms = stale, reg_nodes = [],
       reg_admin = (case file of Some f \<Rightarrow> nf_admin f | None \<Rightarrow> Map.empty),
       reg_settings = (case file of Some f \<Rightarrow> nf_settings f | None \<Rightarrow> settings_default), reg_file = file \<rparr>"

definition admin_of :: "registry \<Rightarrow> string \<Rightarrow> node_admin" where
  "admin_of r i = (case reg_admin r i of Some a \<Rightarrow> a | None \<Rightarrow> admin_default)"

definition node_get :: "registry \<Rightarrow> string \<Rightarrow> reg_node option" where
  "node_get r i = find (\<lambda>n. node_id_of n = i) (reg_nodes r)"

definition node_update :: "string \<Rightarrow> (reg_node \<Rightarrow> reg_node) \<Rightarrow> registry \<Rightarrow> registry" where
  "node_update i f r = r\<lparr> reg_nodes := map (\<lambda>n. if node_id_of n = i then f n else n) (reg_nodes r) \<rparr>"

definition status_of :: "registry \<Rightarrow> reg_node \<Rightarrow> u64 \<Rightarrow> node_status" where
  "status_of r n now =
     (let a = admin_of r (node_id_of n); hb = heartbeat_of n
      in if saturating_sub now (last_seen_ms n) > stale_after_ms r then Stale
         else if admin_relay a then Relay
         else if admin_disabled a then Disabled
         else if desired_drain n \<or> hb_draining hb then Draining
         else if \<not> hb_ready hb then NotReady
         else if hb_clients hb \<ge> hb_max_clients hb then NodeFull
         else Serving)"

definition serving :: "registry \<Rightarrow> u64 \<Rightarrow> reg_node list" where
  "serving r now = filter (\<lambda>n. status_of r n now = Serving) (reg_nodes r)"

definition sheddable :: "registry \<Rightarrow> u64 \<Rightarrow> reg_node list" where
  "sheddable r now = filter (\<lambda>n. status_of r n now \<in> {Serving, NodeFull}) (reg_nodes r)"

definition less_busy :: "reg_node \<Rightarrow> reg_node \<Rightarrow> bool" where
  "less_busy a b \<longleftrightarrow> clients_of a < clients_of b \<or> clients_of a = clients_of b \<and> node_id_of b < node_id_of a"

text \<open>\<open>Iterator::max_by\<close> keeps the later of two elements unless the earlier is greater.\<close>

fun max_node :: "reg_node \<Rightarrow> reg_node list \<Rightarrow> reg_node" where
  "max_node a [] = a"
| "max_node a (b # ns) = max_node (if less_busy b a then a else b) ns"

definition busiest_sheddable :: "registry \<Rightarrow> u64 \<Rightarrow> string option" where
  "busiest_sheddable r now =
     (case sheddable r now of [] \<Rightarrow> None | n # ns \<Rightarrow> Some (node_id_of (max_node n ns)))"

fun min_clients :: "u64 list \<Rightarrow> u64 option" where
  "min_clients [] = None"
| "min_clients (c # cs) = Some (fold min cs c)"

definition others_spare :: "registry \<Rightarrow> string \<Rightarrow> u64 \<Rightarrow> u64" where
  "others_spare r i now =
     sum_list (map (\<lambda>n. saturating_sub (hb_max_clients (heartbeat_of n)) (clients_of n))
       (filter (\<lambda>n. node_id_of n \<noteq> i) (serving r now)))"

definition emptiest :: "registry \<Rightarrow> u64 \<Rightarrow> u64" where
  "emptiest r now = (case min_clients (map clients_of (serving r now)) of Some c \<Rightarrow> c | None \<Rightarrow> 0)"

definition balance_excess :: "'f f64_ops \<Rightarrow> ('f \<Rightarrow> int) \<Rightarrow> registry \<Rightarrow> string \<Rightarrow> u64 \<Rightarrow> int" where
  "balance_excess F floor_i64 r i now =
     (case find (\<lambda>n. node_id_of n = i) (sheddable r now) of
        None \<Rightarrow> 0
      | Some me \<Rightarrow>
          if others_spare r i now = 0 then 0
          else
            let e = emptiest r now;
                ceiling = f64_mul F (f64_of_nat F (unat e))
                  (f64_add F (f64_of_nat F 1)
                    (f64_div F (f64_of_nat F (unat (balance_spread_pct (reg_settings r)))) (f64_of_nat F 100)));
                excess = floor_i64 (f64_sub F (f64_of_nat F (unat (clients_of me))) ceiling);
                half_gap = int (unat (saturating_sub (clients_of me) e div 2))
            in min (min excess half_gap) (sint (others_spare r i now)))"

definition note_release :: "u64 \<Rightarrow> u32 \<Rightarrow> reg_node \<Rightarrow> reg_node" where
  "note_release now k n = n\<lparr> released_total := released_total n + ucast k, last_release_ms := now \<rparr>"

definition decide_release ::
  "'f f64_ops \<Rightarrow> ('f \<Rightarrow> int) \<Rightarrow> registry \<Rightarrow> string \<Rightarrow> u64 \<Rightarrow> (u32 \<times> string) \<times> registry" where
  "decide_release F floor_i64 r i now =
     (let batch = max (release_batch (reg_settings r)) 1
      in case node_get r i of
           None \<Rightarrow> ((0, []), r)
         | Some n \<Rightarrow>
             if pending_release n > 0
             then (let k = ucast (min (pending_release n) (ucast batch))
                   in ((k, ''manual''),
                       node_update i (\<lambda>n. note_release now k (n\<lparr> pending_release := pending_release n - ucast k \<rparr>)) r))
             else if \<not> auto_balance (reg_settings r) \<or> desired_drain n then ((0, []), r)
             else if busiest_sheddable r now \<noteq> Some i then ((0, []), r)
             else (let excess = balance_excess F floor_i64 r i now
                   in if excess < sint (balance_min_excess (reg_settings r)) then ((0, []), r)
                      else (let k = ucast (min (word_of_int excess) (ucast batch :: u64))
                            in ((k, ''auto-balance''), node_update i (note_release now k) r))))"

definition node_new :: "u64 \<Rightarrow> node_heartbeat \<Rightarrow> string \<Rightarrow> reg_node" where
  "node_new now hb ip =
     \<lparr> heartbeat_of = hb, remote_ip = ip, first_seen_ms = now, last_seen_ms = now, desired_drain = False,
       pending_release = 0, released_total = 0, last_release_ms = 0 \<rparr>"

definition node_restarted :: "node_heartbeat \<Rightarrow> reg_node \<Rightarrow> bool" where
  "node_restarted hb n \<longleftrightarrow> hb_started_at_ms (heartbeat_of n) \<noteq> 0 \<and> hb_started_at_ms (heartbeat_of n) \<noteq> hb_started_at_ms hb"

definition node_beat :: "u64 \<Rightarrow> node_heartbeat \<Rightarrow> string \<Rightarrow> reg_node \<Rightarrow> reg_node" where
  "node_beat now hb ip n =
     n\<lparr> heartbeat_of := hb, remote_ip := ip, last_seen_ms := now,
        desired_drain := desired_drain n \<and> \<not> node_restarted hb n \<rparr>"

definition node_entry :: "u64 \<Rightarrow> node_heartbeat \<Rightarrow> string \<Rightarrow> registry \<Rightarrow> registry" where
  "node_entry now hb ip r =
     (case node_get r (hb_node_id hb) of
        None \<Rightarrow> r\<lparr> reg_nodes := reg_nodes r @ [node_new now hb ip] \<rparr>
      | Some _ \<Rightarrow> node_update (hb_node_id hb) (node_beat now hb ip) r)"

definition registry_heartbeat ::
  "'f f64_ops \<Rightarrow> ('f \<Rightarrow> int) \<Rightarrow> u64 \<Rightarrow> node_heartbeat \<Rightarrow> string \<Rightarrow> registry \<Rightarrow> heartbeat_outcome \<times> registry" where
  "registry_heartbeat F floor_i64 now hb ip r =
     (let i = hb_node_id hb; known = node_get r i;
          r = node_entry now hb ip r;
          drain = (case node_get r i of Some n \<Rightarrow> desired_drain n | None \<Rightarrow> False);
          outcome = \<lparr> out_first_seen = (known = None),
                      out_restarted = (case known of Some n \<Rightarrow> node_restarted hb n | None \<Rightarrow> False),
                      out_desired_drain = drain, out_release = 0, out_release_reason = [] \<rparr>
      in if admin_relay (admin_of r i)
         then (outcome\<lparr> out_desired_drain := False \<rparr>,
               node_update i (\<lambda>n. n\<lparr> desired_drain := False, pending_release := 0 \<rparr>) r)
         else (case decide_release F floor_i64 r i now of
                 ((k, reason), r) \<Rightarrow> (outcome\<lparr> out_release := k, out_release_reason := reason \<rparr>, r)))"

subsection \<open>Administration\<close>

definition registry_persist :: "bool \<Rightarrow> registry \<Rightarrow> (unit + unit) \<times> registry" where
  "registry_persist saved r =
     (if saved then (Inr (), r\<lparr> reg_file := Some \<lparr> nf_admin = reg_admin r, nf_settings = reg_settings r \<rparr> \<rparr>) else (Inl (), r))"

definition mutate_admin :: "bool \<Rightarrow> string \<Rightarrow> (node_admin \<Rightarrow> node_admin) \<Rightarrow> registry \<Rightarrow> (unit + bool) \<times> registry" where
  "mutate_admin saved i f r =
     (if node_get r i = None \<and> reg_admin r i = None then (Inr False, r)
      else case registry_persist saved (r\<lparr> reg_admin := (reg_admin r)(i \<mapsto> f (admin_of r i)) \<rparr>) of
             (Inr _, r) \<Rightarrow> (Inr True, r)
           | (Inl e, r) \<Rightarrow> (Inl e, r))"

definition set_disabled :: "bool \<Rightarrow> string \<Rightarrow> bool \<Rightarrow> registry \<Rightarrow> (unit + bool) \<times> registry" where
  "set_disabled saved i b = mutate_admin saved i (\<lambda>a. a\<lparr> admin_disabled := b \<rparr>)"

definition set_relay :: "bool \<Rightarrow> string \<Rightarrow> bool \<Rightarrow> registry \<Rightarrow> (unit + bool) \<times> registry" where
  "set_relay saved i b =
     mutate_admin saved i (\<lambda>a. let a = a\<lparr> admin_relay := b \<rparr> in if b then a else a\<lparr> admin_disabled := True \<rparr>)"

definition set_note :: "bool \<Rightarrow> string \<Rightarrow> string \<Rightarrow> registry \<Rightarrow> (unit + bool) \<times> registry" where
  "set_note saved i note = mutate_admin saved i (\<lambda>a. a\<lparr> admin_note := trim note \<rparr>)"

definition is_relay :: "registry \<Rightarrow> string \<Rightarrow> bool" where
  "is_relay r i \<longleftrightarrow> (case reg_admin r i of Some a \<Rightarrow> admin_relay a | None \<Rightarrow> False)"

definition set_auto_balance :: "bool \<Rightarrow> bool \<Rightarrow> registry \<Rightarrow> (unit + unit) \<times> registry" where
  "set_auto_balance saved b r = registry_persist saved (r\<lparr> reg_settings := (reg_settings r)\<lparr> auto_balance := b \<rparr> \<rparr>)"

definition request_release :: "string \<Rightarrow> u64 \<Rightarrow> registry \<Rightarrow> bool \<times> registry" where
  "request_release i cnt r =
     (if node_get r i = None then (False, r) else (True, node_update i (\<lambda>n. n\<lparr> pending_release := cnt \<rparr>) r))"

definition set_drain :: "string \<Rightarrow> bool \<Rightarrow> registry \<Rightarrow> bool \<times> registry" where
  "set_drain i b r =
     (if node_get r i = None then (False, r) else (True, node_update i (\<lambda>n. n\<lparr> desired_drain := b \<rparr>) r))"

definition forget :: "bool \<Rightarrow> string \<Rightarrow> registry \<Rightarrow> (unit + bool) \<times> registry" where
  "forget saved i r =
     (let known = node_get r i \<noteq> None \<or> reg_admin r i \<noteq> None;
          r = r\<lparr> reg_nodes := filter (\<lambda>n. node_id_of n \<noteq> i) (reg_nodes r), reg_admin := (reg_admin r)(i := None) \<rparr>
      in if known then (case registry_persist saved r of (Inr _, r) \<Rightarrow> (Inr True, r) | (Inl e, r) \<Rightarrow> (Inl e, r))
         else (Inr False, r))"

definition registry_counts :: "u64 \<Rightarrow> registry \<Rightarrow> nat \<times> nat" where
  "registry_counts now r = (length (serving r now), length (reg_nodes r))"

subsection \<open>The public list\<close>

definition or_default_text :: "string \<Rightarrow> string \<Rightarrow> string" where
  "or_default_text v d = (if v = [] then d else v)"

definition node_url :: "reg_node \<Rightarrow> string" where
  "node_url n =
     (let hb = heartbeat_of n;
          scheme = (if hb_tls hb then ''wss'' else ''ws'');
          host = (if hb_advertise_host hb = [] then remote_ip n else hb_advertise_host hb);
          port = (if hb_port hb = 0 then 8012 else hb_port hb);
          path = or_default_text (hb_path hb) ''/uma/v1/ws'';
          host = (if CHR '':'' \<in> set host \<and> \<not> (host \<noteq> [] \<and> hd host = CHR ''['') then ''['' @ host @ '']'' else host)
      in scheme @ ''://'' @ host @ '':'' @ nat_decimal (unat port) @ path)"

definition public_node_of :: "reg_node \<Rightarrow> public_node" where
  "public_node_of n =
     \<lparr> pub_node_id = node_id_of n, pub_url = node_url n,
       pub_weight = max (saturating_sub (hb_max_clients (heartbeat_of n)) (clients_of n)) 1, pub_clients = clients_of n \<rparr>"

definition list_ceiling :: "u64 \<Rightarrow> u32 \<Rightarrow> u64" where
  "list_ceiling e pct = e + e * ucast pct div 100"

definition pub_before :: "u64 \<Rightarrow> public_node \<Rightarrow> public_node \<Rightarrow> bool" where
  "pub_before ceiling a b \<longleftrightarrow>
     (if pub_clients a \<le> ceiling then \<not> pub_clients b \<le> ceiling
      else if pub_clients b \<le> ceiling then False
      else pub_clients a < pub_clients b \<or> pub_clients a = pub_clients b \<and>
        (pub_weight b < pub_weight a \<or> pub_weight a = pub_weight b \<and> pub_node_id a < pub_node_id b))"

text \<open>A stable sort: insertion behind every element that is not greater.\<close>

fun stable_insert :: "('a \<Rightarrow> 'a \<Rightarrow> bool) \<Rightarrow> 'a \<Rightarrow> 'a list \<Rightarrow> 'a list" where
  "stable_insert before x [] = [x]"
| "stable_insert before x (y # ys) = (if before y x then y # stable_insert before x ys else x # y # ys)"

definition stable_sort :: "('a \<Rightarrow> 'a \<Rightarrow> bool) \<Rightarrow> 'a list \<Rightarrow> 'a list" where
  "stable_sort before xs = foldr (stable_insert before) xs []"

definition public_nodes :: "(public_node list \<Rightarrow> public_node list) \<Rightarrow> u64 \<Rightarrow> registry \<Rightarrow> public_node list" where
  "public_nodes shuffle now r =
     (let nodes = map public_node_of (serving r now);
          e = (case min_clients (map pub_clients nodes) of Some c \<Rightarrow> c | None \<Rightarrow> 0);
          ceiling = list_ceiling e (balance_spread_pct (reg_settings r))
      in stable_sort (pub_before ceiling) (shuffle nodes))"

record node_list =
  list_nodes :: "public_node list"
  list_subprotocol :: string
  list_path :: string
  list_ttl_s :: u64
  list_generated_at_ms :: u64

definition public_list :: "(public_node list \<Rightarrow> public_node list) \<Rightarrow> u64 \<Rightarrow> u64 \<Rightarrow> registry \<Rightarrow> node_list" where
  "public_list shuffle now ttl_s r =
     (let (subprotocol, path) =
            (case reg_nodes r of
               [] \<Rightarrow> (''uma.pb.v1'', ''/uma/v1/ws'')
             | n # _ \<Rightarrow> (or_default_text (hb_subprotocol (heartbeat_of n)) ''uma.pb.v1'',
                        or_default_text (hb_path (heartbeat_of n)) ''/uma/v1/ws''))
      in \<lparr> list_nodes = public_nodes shuffle now r, list_subprotocol = subprotocol, list_path = path,
           list_ttl_s = ttl_s, list_generated_at_ms = now \<rparr>)"

definition admin_list :: "'f f64_ops \<Rightarrow> ('f \<Rightarrow> int) \<Rightarrow> u64 \<Rightarrow> registry \<Rightarrow> node_view list" where
  "admin_list F floor_i64 now r =
     stable_sort (\<lambda>a b. node_id_of (view_node a) < node_id_of (view_node b))
       (map (\<lambda>n. \<lparr> view_node = n, view_admin = admin_of r (node_id_of n), view_status = status_of r n now,
                    view_url = node_url n, view_balance_excess = balance_excess F floor_i64 r (node_id_of n) now \<rparr>)
         (reg_nodes r))"

subsection \<open>The administration handlers of \<open>console/server.rs\<close>\<close>

datatype node_action = ActRelay | ActUnrelay | ActDrain | ActUndrain | ActDisable | ActEnable | ActForget

datatype admin_error = RelayNode | UnknownNode | CountTooLarge | StoreFailed

definition action_guarded :: "node_action \<Rightarrow> bool" where
  "action_guarded a \<longleftrightarrow> a \<in> {ActDrain, ActUndrain, ActDisable, ActEnable, ActForget}"

fun action_apply :: "bool \<Rightarrow> string \<Rightarrow> node_action \<Rightarrow> registry \<Rightarrow> (unit + bool) \<times> registry" where
  "action_apply saved i ActRelay r = set_relay saved i True r"
| "action_apply saved i ActUnrelay r = set_relay saved i False r"
| "action_apply saved i ActDrain r = (case set_drain i True r of (b, r) \<Rightarrow> (Inr b, r))"
| "action_apply saved i ActUndrain r = (case set_drain i False r of (b, r) \<Rightarrow> (Inr b, r))"
| "action_apply saved i ActDisable r = set_disabled saved i True r"
| "action_apply saved i ActEnable r = set_disabled saved i False r"
| "action_apply saved i ActForget r = forget saved i r"

definition admin_node_action :: "bool \<Rightarrow> string \<Rightarrow> node_action \<Rightarrow> registry \<Rightarrow> (admin_error + unit) \<times> registry" where
  "admin_node_action saved i a r =
     (if action_guarded a \<and> is_relay r i then (Inl RelayNode, r)
      else case action_apply saved i a r of
             (Inl _, r) \<Rightarrow> (Inl StoreFailed, r)
           | (Inr known, r) \<Rightarrow> (if known then Inr () else Inl UnknownNode, r))"

definition admin_node_release :: "string \<Rightarrow> u64 \<Rightarrow> registry \<Rightarrow> (admin_error + unit) \<times> registry" where
  "admin_node_release i cnt r =
     (if cnt > 100000 then (Inl CountTooLarge, r)
      else if is_relay r i then (Inl RelayNode, r)
      else case request_release i cnt r of (known, r) \<Rightarrow> (if known then Inr () else Inl UnknownNode, r))"

text \<open>What reaches the registry, one lock at a time; a restart of the console opens the file again.\<close>

datatype registry_op =
    Beat u64 node_heartbeat string
  | Action bool string node_action
  | Release string u64
  | Note bool string string
  | Balance bool bool
  | Reopen

fun registry_op_step ::
  "'f f64_ops \<Rightarrow> ('f \<Rightarrow> int) \<Rightarrow> registry_op \<Rightarrow> registry \<Rightarrow> (string \<times> heartbeat_outcome) list \<times> registry" where
  "registry_op_step F fl (Beat now hb ip) r =
     (case registry_heartbeat F fl now hb ip r of (out, r) \<Rightarrow> ([(hb_node_id hb, out)], r))"
| "registry_op_step F fl (Action saved i a) r = ([], snd (admin_node_action saved i a r))"
| "registry_op_step F fl (Release i cnt) r = ([], snd (admin_node_release i cnt r))"
| "registry_op_step F fl (Note saved i note) r = ([], snd (set_note saved i note r))"
| "registry_op_step F fl (Balance saved b) r = ([], snd (set_auto_balance saved b r))"
| "registry_op_step F fl Reopen r = ([], registry_open (stale_after_ms r) (reg_file r))"

fun registry_run ::
  "'f f64_ops \<Rightarrow> ('f \<Rightarrow> int) \<Rightarrow> registry_op list \<Rightarrow> registry \<Rightarrow> (string \<times> heartbeat_outcome) list \<times> registry" where
  "registry_run F fl [] r = ([], r)"
| "registry_run F fl (op # ops) r =
     (case registry_op_step F fl op r of (out, r) \<Rightarrow> (case registry_run F fl ops r of (outs, r) \<Rightarrow> (out @ outs, r)))"

subsection \<open>Nodes by id\<close>

definition registry_wf :: "registry \<Rightarrow> bool" where
  "registry_wf r \<longleftrightarrow> distinct (map node_id_of (reg_nodes r))"

lemma find_map_update:
  "(\<And>n. node_id_of n = j \<Longrightarrow> node_id_of (f n) = j) \<Longrightarrow>
   find (\<lambda>n. node_id_of n = i) (map (\<lambda>n. if node_id_of n = j then f n else n) ns) =
   (if i = j then map_option f (find (\<lambda>n. node_id_of n = i) ns) else find (\<lambda>n. node_id_of n = i) ns)"
  by (induction ns) auto

lemma node_get_update:
  "(\<And>n. node_id_of n = j \<Longrightarrow> node_id_of (f n) = j) \<Longrightarrow>
   node_get (node_update j f r) i = (if i = j then map_option f (node_get r i) else node_get r i)"
  by (simp add: node_get_def node_update_def find_map_update)

lemma find_id: "find P ns = Some n \<Longrightarrow> P n \<and> n \<in> set ns"
  by (induction ns) (auto split: if_splits)

lemma node_get_Some: "node_get r i = Some n \<Longrightarrow> node_id_of n = i \<and> n \<in> set (reg_nodes r)"
  unfolding node_get_def by (drule find_id)

lemma node_get_None: "node_get r i = None \<longleftrightarrow> i \<notin> node_id_of ` set (reg_nodes r)"
  by (auto simp: node_get_def find_None_iff)

lemma node_update_fields [simp]:
  "reg_admin (node_update i f r) = reg_admin r" "reg_settings (node_update i f r) = reg_settings r"
  "reg_file (node_update i f r) = reg_file r" "stale_after_ms (node_update i f r) = stale_after_ms r"
  by (simp_all add: node_update_def)

lemma node_entry_fields [simp]:
  "reg_admin (node_entry now hb ip r) = reg_admin r" "reg_settings (node_entry now hb ip r) = reg_settings r"
  "reg_file (node_entry now hb ip r) = reg_file r" "stale_after_ms (node_entry now hb ip r) = stale_after_ms r"
  by (simp_all add: node_entry_def split: option.split)

lemma decide_release_fields [simp]:
  "reg_admin (snd (decide_release F fl r i now)) = reg_admin r"
  "reg_settings (snd (decide_release F fl r i now)) = reg_settings r"
  "reg_file (snd (decide_release F fl r i now)) = reg_file r"
  "stale_after_ms (snd (decide_release F fl r i now)) = stale_after_ms r"
  by (simp_all add: decide_release_def Let_def split: option.split)

lemma snd_registry_heartbeat:
  "snd (registry_heartbeat F fl now hb ip r) =
     (if admin_relay (admin_of r (hb_node_id hb))
      then node_update (hb_node_id hb) (\<lambda>n. n\<lparr> desired_drain := False, pending_release := 0 \<rparr>) (node_entry now hb ip r)
      else snd (decide_release F fl (node_entry now hb ip r) (hb_node_id hb) now))"
  by (simp add: registry_heartbeat_def Let_def admin_of_def split: prod.split)

lemma heartbeat_fields [simp]:
  "reg_admin (snd (registry_heartbeat F fl now hb ip r)) = reg_admin r"
  "reg_settings (snd (registry_heartbeat F fl now hb ip r)) = reg_settings r"
  "reg_file (snd (registry_heartbeat F fl now hb ip r)) = reg_file r"
  by (simp_all add: snd_registry_heartbeat)

lemma heartbeat_release:
  "\<not> admin_relay (admin_of r (hb_node_id hb)) \<Longrightarrow>
   out_release (fst (registry_heartbeat F fl now hb ip r)) =
     fst (fst (decide_release F fl (node_entry now hb ip r) (hb_node_id hb) now)) \<and>
   out_release_reason (fst (registry_heartbeat F fl now hb ip r)) =
     snd (fst (decide_release F fl (node_entry now hb ip r) (hb_node_id hb) now))"
  by (simp add: registry_heartbeat_def Let_def admin_of_def split: prod.split)

subsection \<open>A relay is left alone\<close>

definition relay_kept :: "string \<Rightarrow> registry \<Rightarrow> bool" where
  "relay_kept i r \<longleftrightarrow> is_relay r i \<and>
     (case reg_file r of Some f \<Rightarrow> (case nf_admin f i of Some a \<Rightarrow> admin_relay a | None \<Rightarrow> False) | None \<Rightarrow> False)"

lemma relay_kept_cong:
  "reg_admin r' = reg_admin r \<Longrightarrow> reg_file r' = reg_file r \<Longrightarrow> relay_kept i r' = relay_kept i r"
  by (simp add: relay_kept_def is_relay_def)

lemma relay_kept_persist:
  "relay_kept i r \<Longrightarrow> is_relay r' i \<Longrightarrow> reg_file r' = reg_file r \<Longrightarrow> relay_kept i (snd (registry_persist saved r'))"
  by (auto simp: relay_kept_def is_relay_def registry_persist_def)

lemma snd_mutate_admin:
  "snd (mutate_admin saved i f r) =
     (if node_get r i = None \<and> reg_admin r i = None then r
      else snd (registry_persist saved (r\<lparr> reg_admin := (reg_admin r)(i \<mapsto> f (admin_of r i)) \<rparr>)))"
  by (auto simp: mutate_admin_def split: prod.split sum.split)

lemma relay_kept_mutate:
  assumes "relay_kept i r" "j = i \<Longrightarrow> admin_relay (f (admin_of r i))"
  shows "relay_kept i (snd (mutate_admin saved j f r))"
proof -
  have "is_relay r i" using assms(1) by (simp add: relay_kept_def)
  hence "is_relay (r\<lparr> reg_admin := (reg_admin r)(j \<mapsto> f (admin_of r j)) \<rparr>) i"
    using assms(2) by (auto simp: is_relay_def)
  thus ?thesis using assms(1) by (auto simp: snd_mutate_admin intro: relay_kept_persist)
qed

lemma is_relay_admin: "is_relay r i = admin_relay (admin_of r i)"
  by (simp add: is_relay_def admin_of_def admin_default_def split: option.split)

lemma snd_forget:
  "snd (forget saved i r) =
     (let r' = r\<lparr> reg_nodes := filter (\<lambda>n. node_id_of n \<noteq> i) (reg_nodes r), reg_admin := (reg_admin r)(i := None) \<rparr>
      in if node_get r i \<noteq> None \<or> reg_admin r i \<noteq> None then snd (registry_persist saved r') else r')"
  by (auto simp: forget_def Let_def split: prod.split sum.split)

lemma relay_kept_forget: "relay_kept i r \<Longrightarrow> j \<noteq> i \<Longrightarrow> relay_kept i (snd (forget saved j r))"
  by (auto simp: snd_forget Let_def relay_kept_def is_relay_def registry_persist_def split: option.splits)

lemma snd_admin_node_action:
  "snd (admin_node_action saved i a r) =
     (if action_guarded a \<and> is_relay r i then r else snd (action_apply saved i a r))"
  by (auto simp: admin_node_action_def split: prod.split sum.split)

lemma snd_action_drain [simp]: "snd (case p of (b, r) \<Rightarrow> (Inr b, r)) = snd p"
  by (cases p) simp

lemma snd_step_beat [simp]:
  "snd (registry_op_step F fl (Beat now hb ip) r) = snd (registry_heartbeat F fl now hb ip r)"
  by (simp split: prod.split)

lemma relay_kept_drain: "relay_kept i (snd (set_drain j b r)) = relay_kept i r"
  by (rule relay_kept_cong) (auto simp: set_drain_def)

lemma relay_kept_action:
  assumes "relay_kept i r" "\<not> (j = i \<and> a = ActUnrelay)"
  shows "relay_kept i (snd (admin_node_action saved j a r))"
proof -
  have "is_relay r i" using assms(1) by (simp add: relay_kept_def)
  hence adm: "admin_relay (admin_of r i)" by (simp add: is_relay_admin)
  show ?thesis
  proof (cases "action_guarded a \<and> is_relay r j")
    case True thus ?thesis using assms(1) by (simp add: snd_admin_node_action)
  next
    case False
    have "relay_kept i (snd (action_apply saved j a r))"
    proof (cases a)
      case ActForget
      with False \<open>is_relay r i\<close> have "j \<noteq> i" by (auto simp: action_guarded_def)
      thus ?thesis using ActForget assms(1) by (simp add: relay_kept_forget)
    qed (use assms adm in \<open>auto simp: set_relay_def set_disabled_def Let_def relay_kept_drain
           intro!: relay_kept_mutate\<close>)
    thus ?thesis using False by (simp only: snd_admin_node_action if_False)
  qed
qed

lemma relay_kept_step:
  assumes "relay_kept i r" "\<And>saved. op \<noteq> Action saved i ActUnrelay"
  shows "relay_kept i (snd (registry_op_step F fl op r))"
proof (cases op)
  case (Beat now hb ip)
  have "relay_kept i (snd (registry_heartbeat F fl now hb ip r)) = relay_kept i r"
    by (rule relay_kept_cong) simp_all
  thus ?thesis using assms(1) unfolding Beat snd_step_beat by blast
next
  case (Action saved j a)
  have "\<not> (j = i \<and> a = ActUnrelay)" using assms(2) [of saved] Action by blast
  thus ?thesis using relay_kept_action [OF assms(1)] Action by simp
next
  case (Release j c)
  thus ?thesis using assms(1)
    by (auto simp: admin_node_release_def request_release_def relay_kept_def is_relay_def)
next
  case (Note saved j n)
  have "admin_relay (admin_of r i)" using assms(1) by (simp add: relay_kept_def is_relay_admin)
  thus ?thesis using Note assms(1) by (auto simp: set_note_def intro!: relay_kept_mutate)
next
  case (Balance saved b)
  thus ?thesis using assms(1)
    by (auto simp: set_auto_balance_def registry_persist_def relay_kept_def is_relay_def)
next
  case Reopen
  thus ?thesis using assms(1)
    by (auto simp: registry_open_def relay_kept_def is_relay_def split: option.splits)
qed

lemma registry_run_Cons:
  "snd (registry_run F fl (op # ops) r) = snd (registry_run F fl ops (snd (registry_op_step F fl op r)))"
  by (simp split: prod.split)

lemma relay_kept_run:
  "relay_kept i r \<Longrightarrow> \<forall>saved. Action saved i ActUnrelay \<notin> set ops \<Longrightarrow> relay_kept i (snd (registry_run F fl ops r))"
proof (induction ops arbitrary: r)
  case (Cons op ops)
  have "relay_kept i (snd (registry_op_step F fl op r))"
    using Cons.prems by (intro relay_kept_step) auto
  from Cons.IH [OF this] Cons.prems(2) show ?case unfolding registry_run_Cons by simp
qed simp

lemma relay_heartbeat:
  "is_relay r (hb_node_id hb) \<Longrightarrow>
   \<not> out_desired_drain (fst (registry_heartbeat F fl now hb ip r)) \<and> out_release (fst (registry_heartbeat F fl now hb ip r)) = 0"
  by (simp add: registry_heartbeat_def Let_def admin_of_def is_relay_admin)

lemma relay_status: "is_relay r (node_id_of n) \<Longrightarrow> status_of r n now \<in> {Stale, Relay}"
  by (simp add: status_of_def Let_def is_relay_admin)

lemma set_stable_insert [simp]: "set (stable_insert before x ys) = insert x (set ys)"
  by (induction ys) auto

lemma mset_stable_insert [simp]: "mset (stable_insert before x ys) = add_mset x (mset ys)"
  by (induction ys) auto

lemma mset_stable_sort [simp]: "mset (stable_sort before xs) = mset xs"
  unfolding stable_sort_def by (induction xs) auto

lemma mset_public_nodes:
  "mset (shuffle (map public_node_of (serving r now))) = mset (map public_node_of (serving r now)) \<Longrightarrow>
   mset (public_nodes shuffle now r) = mset (map public_node_of (serving r now))"
  by (simp add: public_nodes_def Let_def)

lemma set_relay_kept: "set_relay saved i True r = (Inr True, r') \<Longrightarrow> relay_kept i r'"
  by (auto simp: set_relay_def mutate_admin_def Let_def registry_persist_def relay_kept_def is_relay_def
      split: if_splits)

lemma action_relay_kept: "admin_node_action saved i ActRelay r = (Inr (), r') \<Longrightarrow> relay_kept i r'"
  by (auto simp: admin_node_action_def action_guarded_def split: prod.splits sum.splits if_splits intro: set_relay_kept)


subsection \<open>Manual releases\<close>

definition manual_releases :: "string \<Rightarrow> (string \<times> heartbeat_outcome) list \<Rightarrow> nat" where
  "manual_releases i outs =
     sum_list (map (\<lambda>(_, out). unat (out_release out))
       (filter (\<lambda>(j, out). j = i \<and> out_release_reason out = ''manual'') outs))"

definition beats_of :: "string \<Rightarrow> registry_op list \<Rightarrow> nat" where
  "beats_of i ops = length (filter (\<lambda>op. case op of Beat _ hb _ \<Rightarrow> hb_node_id hb = i | _ \<Rightarrow> False) ops)"

definition batch_of :: "registry \<Rightarrow> nat" where
  "batch_of r = unat (max (release_batch (reg_settings r)) 1)"

text \<open>The operations that leave a pending release of the node alone.\<close>

fun spares :: "string \<Rightarrow> registry_op \<Rightarrow> bool" where
  "spares i (Beat now hb ip) = True"
| "spares i (Action saved j a) = (j \<noteq> i \<or> a \<notin> {ActRelay, ActForget})"
| "spares i (Release j c) = (j \<noteq> i)"
| "spares i (Note saved j n) = True"
| "spares i (Balance saved b) = True"
| "spares i Reopen = False"

definition awaiting :: "string \<Rightarrow> nat \<Rightarrow> nat \<Rightarrow> registry \<Rightarrow> bool" where
  "awaiting i c b r \<longleftrightarrow> \<not> is_relay r i \<and> batch_of r = b \<and>
     (case node_get r i of Some n \<Rightarrow> unat (pending_release n) = c | None \<Rightarrow> False)"

lemma awaiting_cong:
  "is_relay r' i = is_relay r i \<Longrightarrow> release_batch (reg_settings r') = release_batch (reg_settings r) \<Longrightarrow>
   map_option pending_release (node_get r' i) = map_option pending_release (node_get r i) \<Longrightarrow>
   awaiting i c b r' = awaiting i c b r"
  by (auto simp: awaiting_def batch_of_def split: option.splits)

lemma node_get_entry:
  "node_get (node_entry now hb ip r) i =
     (if i = hb_node_id hb
      then Some (case node_get r i of Some n \<Rightarrow> node_beat now hb ip n | None \<Rightarrow> node_new now hb ip)
      else node_get r i)"
proof (cases "node_get r (hb_node_id hb)")
  case None
  hence "find (\<lambda>n. node_id_of n = hb_node_id hb) (reg_nodes r) = None" by (simp add: node_get_def)
  moreover have "find P (ns @ [x]) = (case find P ns of None \<Rightarrow> if P x then Some x else None | Some y \<Rightarrow> Some y)"
    for P :: "reg_node \<Rightarrow> bool" and ns x by (induction ns) auto
  ultimately show ?thesis using None by (auto simp: node_entry_def node_get_def node_new_def split: option.split)
next
  case (Some n)
  have "node_get (node_update (hb_node_id hb) (node_beat now hb ip) r) i =
        (if i = hb_node_id hb then map_option (node_beat now hb ip) (node_get r i) else node_get r i)"
    by (rule node_get_update) (simp add: node_beat_def)
  thus ?thesis using Some by (auto simp: node_entry_def)
qed

lemma node_get_nodes: "reg_nodes r' = reg_nodes r \<Longrightarrow> node_get r' i = node_get r i"
  by (simp add: node_get_def)

lemma unat_ucast_32_64: "unat (ucast (b :: u32) :: u64) = unat b"
  by (rule unat_ucast_up) simp

lemma unat_min_batch:
  fixes p :: u64 and b :: u32
  shows "unat (ucast (min p (ucast b)) :: u32) = min (unat p) (unat b)"
    and "ucast (ucast (min p (ucast b)) :: u32) = min p (ucast b :: u64)"
proof -
  have le: "unat (min p (ucast b)) = min (unat p) (unat b)"
    by (simp add: min_def word_le_nat_alt unat_ucast_32_64)
  have lt: "min (unat p) (unat b) < 2 ^ 32" using unsigned_less [of b, where ?'a = nat] by (simp add: min_def)
  show a: "unat (ucast (min p (ucast b)) :: u32) = min (unat p) (unat b)"
    using lt by (simp only: unsigned_ucast_eq le) (simp add: take_bit_nat_eq_self)
  show "ucast (ucast (min p (ucast b)) :: u32) = min p (ucast b :: u64)"
    by (rule word_unat_eq_iff [THEN iffD2]) (simp only: unat_ucast_32_64 a le)
qed

lemma node_get_note: "map_option pending_release (node_get (node_update j (note_release now k) r) i) = map_option pending_release (node_get r i)"
proof -
  have "node_get (node_update j (note_release now k) r) i =
     (if i = j then map_option (note_release now k) (node_get r i) else node_get r i)"
    by (rule node_get_update) (simp add: note_release_def)
  thus ?thesis by (cases "node_get r i") (auto simp: note_release_def)
qed

lemma decide_release_manual:
  assumes "node_get r i = Some n" "pending_release n > 0" "batch_of r = b"
  shows "unat (fst (fst (decide_release F fl r i now))) = min (unat (pending_release n)) b \<and>
    snd (fst (decide_release F fl r i now)) = ''manual'' \<and>
    (\<exists>n'. node_get (snd (decide_release F fl r i now)) i = Some n' \<and>
      unat (pending_release n') = unat (pending_release n) - min (unat (pending_release n)) b)"
proof -
  define k :: u32 where "k = ucast (min (pending_release n) (ucast (max (release_batch (reg_settings r)) 1)))"
  define f where "f = (\<lambda>n. note_release now k (n\<lparr> pending_release := pending_release n - ucast k \<rparr>))"
  have eq: "decide_release F fl r i now = ((k, ''manual''), node_update i f r)"
    using assms(1,2) by (simp add: decide_release_def Let_def k_def f_def)
  have k: "unat k = min (unat (pending_release n)) b"
    using assms(3) by (simp add: k_def unat_min_batch batch_of_def)
  have "node_get (node_update i f r) i = (if i = i then map_option f (node_get r i) else node_get r i)"
    by (rule node_get_update) (simp add: f_def note_release_def)
  hence get: "node_get (node_update i f r) i = Some (f n)" using assms(1) by simp
  have "(ucast k :: u64) \<le> pending_release n"
    by (simp add: word_le_nat_alt unat_ucast_32_64 k)
  hence "unat (pending_release (f n)) = unat (pending_release n) - unat k"
    by (simp add: f_def note_release_def unat_sub unat_ucast_32_64)
  thus ?thesis using eq k get by simp
qed

lemma decide_release_auto:
  assumes "node_get r i = Some n" "pending_release n = 0"
  shows "snd (fst (decide_release F fl r i now)) \<noteq> ''manual'' \<and>
    map_option pending_release (node_get (snd (decide_release F fl r i now)) i) = Some 0"
  using assms by (simp add: decide_release_def Let_def node_get_note del: map_option_eq_Some)

lemma node_get_other:
  "j \<noteq> i \<Longrightarrow> node_get (snd (decide_release F fl r j now)) i = node_get r i"
proof -
  assume "j \<noteq> i"
  hence "node_get (node_update j f r) i = node_get r i" if "\<And>n. node_id_of (f n) = node_id_of n" for f
    using node_get_update [of j f r i] that by simp
  thus ?thesis by (simp add: decide_release_def Let_def note_release_def split: option.split)
qed

text \<open>One heartbeat of a node that waits for a release, and any other operation.\<close>

lemma awaiting_beat:
  assumes "awaiting i c b r" "hb_node_id hb = i"
  shows "awaiting i (c - min c b) b (snd (registry_heartbeat F fl now hb ip r)) \<and>
    manual_releases i [(i, fst (registry_heartbeat F fl now hb ip r))] = min c b"
proof -
  let ?e = "node_entry now hb ip r"
  obtain n where n: "node_get r i = Some n" "unat (pending_release n) = c" and nr: "\<not> is_relay r i" and b: "batch_of r = b"
    using assms(1) by (auto simp: awaiting_def split: option.splits)
  have get: "node_get ?e i = Some (node_beat now hb ip n)" using n(1) assms(2) by (simp add: node_get_entry)
  have pend: "pending_release (node_beat now hb ip n) = pending_release n" by (simp add: node_beat_def)
  have be: "batch_of ?e = b" using b by (simp add: batch_of_def)
  have snd: "snd (registry_heartbeat F fl now hb ip r) = snd (decide_release F fl ?e i now)"
    using nr assms(2) by (simp add: snd_registry_heartbeat is_relay_admin)
  have out: "out_release (fst (registry_heartbeat F fl now hb ip r)) = fst (fst (decide_release F fl ?e i now))"
    "out_release_reason (fst (registry_heartbeat F fl now hb ip r)) = snd (fst (decide_release F fl ?e i now))"
    using heartbeat_release [of r hb F fl now ip] nr assms(2) by (simp_all add: is_relay_admin)
  have keep: "\<not> is_relay (snd (decide_release F fl ?e i now)) i" "batch_of (snd (decide_release F fl ?e i now)) = b"
    using nr b by (simp_all add: is_relay_def batch_of_def)
  show ?thesis
  proof (cases "pending_release n = 0")
    case True
    hence "snd (fst (decide_release F fl ?e i now)) \<noteq> ''manual'' \<and>
        map_option pending_release (node_get (snd (decide_release F fl ?e i now)) i) = Some 0"
      using decide_release_auto [OF get] pend by metis
    thus ?thesis using True n(2) keep by (auto simp: snd out manual_releases_def awaiting_def)
  next
    case False
    hence "pending_release (node_beat now hb ip n) > 0" using pend by (simp add: word_neq_0_conv)
    from decide_release_manual [OF get this be, of F fl now]
    show ?thesis using n(2) keep by (auto simp: snd out manual_releases_def awaiting_def pend)
  qed
qed

lemma awaiting_beat_other:
  assumes "hb_node_id hb \<noteq> i"
  shows "awaiting i c b (snd (registry_heartbeat F fl now hb ip r)) = awaiting i c b r"
proof (rule awaiting_cong)
  have "node_get (node_update (hb_node_id hb) (\<lambda>n. n\<lparr> desired_drain := False, pending_release := 0 \<rparr>) (node_entry now hb ip r)) i
      = node_get (node_entry now hb ip r) i"
    using assms by (subst node_get_update) auto
  thus "map_option pending_release (node_get (snd (registry_heartbeat F fl now hb ip r)) i) = map_option pending_release (node_get r i)"
    using assms by (simp add: snd_registry_heartbeat node_get_other node_get_entry)
qed (simp_all add: is_relay_def)

lemma registry_persist_fields [simp]:
  "reg_nodes (snd (registry_persist saved r)) = reg_nodes r" "reg_admin (snd (registry_persist saved r)) = reg_admin r"
  "reg_settings (snd (registry_persist saved r)) = reg_settings r"
  by (simp_all add: registry_persist_def)

lemma awaiting_mutate:
  assumes "j = i \<Longrightarrow> admin_relay (f (admin_of r i)) = admin_relay (admin_of r i)"
  shows "awaiting i c b (snd (mutate_admin saved j f r)) = awaiting i c b r"
proof (rule awaiting_cong)
  show "is_relay (snd (mutate_admin saved j f r)) i = is_relay r i"
    using assms by (auto simp: snd_mutate_admin is_relay_def admin_of_def admin_default_def split: option.splits)
qed (simp_all add: snd_mutate_admin node_get_def)

lemma awaiting_update:
  assumes "\<And>n. node_id_of (f n) = node_id_of n" "\<And>n. j = i \<Longrightarrow> pending_release (f n) = pending_release n"
  shows "awaiting i c b (node_update j f r) = awaiting i c b r"
proof (rule awaiting_cong)
  show "map_option pending_release (node_get (node_update j f r) i) = map_option pending_release (node_get r i)"
    using node_get_update [of j f r i] assms by (cases "node_get r i") auto
qed (simp_all add: is_relay_def)

lemma find_filter_other:
  "j \<noteq> i \<Longrightarrow> find (\<lambda>n. node_id_of n = i) (filter (\<lambda>n. node_id_of n \<noteq> j) ns) = find (\<lambda>n. node_id_of n = i) ns"
  by (induction ns) auto

lemma awaiting_forget: "j \<noteq> i \<Longrightarrow> awaiting i c b (snd (forget saved j r)) = awaiting i c b r"
  by (rule awaiting_cong) (simp_all add: snd_forget Let_def is_relay_def node_get_def find_filter_other)

lemma awaiting_drain: "awaiting i c b (snd (set_drain j d r)) = awaiting i c b r"
  by (simp add: set_drain_def awaiting_update)

lemma awaiting_relay_other: "awaiting i c b r \<Longrightarrow> j = i \<longrightarrow> \<not> d \<Longrightarrow> awaiting i c b (snd (set_relay saved j d r))"
  unfolding set_relay_def
  by (subst awaiting_mutate) (auto simp: awaiting_def is_relay_admin Let_def)

lemma awaiting_action:
  assumes "awaiting i c b r" "j \<noteq> i \<or> a \<notin> {ActRelay, ActForget}"
  shows "awaiting i c b (snd (admin_node_action saved j a r))"
proof -
  have "awaiting i c b (snd (action_apply saved j a r))"
    using assms by (cases a)
      (auto simp: set_disabled_def awaiting_drain awaiting_forget awaiting_relay_other awaiting_mutate)
  thus ?thesis using assms(1) by (simp add: snd_admin_node_action)
qed

lemma awaiting_release: "awaiting i c b r \<Longrightarrow> j \<noteq> i \<Longrightarrow> awaiting i c b (snd (admin_node_release j k r))"
  by (simp add: admin_node_release_def request_release_def awaiting_update)

lemma awaiting_balance: "awaiting i c b (snd (set_auto_balance saved d r)) = awaiting i c b r"
  by (rule awaiting_cong) (simp_all add: set_auto_balance_def is_relay_def node_get_def)

lemma manual_releases_append: "manual_releases i (xs @ ys) = manual_releases i xs + manual_releases i ys"
  by (simp add: manual_releases_def)

lemma awaiting_step:
  assumes "awaiting i c b r" "spares i op"
  shows "awaiting i (c - min c (beats_of i [op] * b)) b (snd (registry_op_step F fl op r)) \<and>
    manual_releases i (fst (registry_op_step F fl op r)) = min c (beats_of i [op] * b)"
proof (cases op)
  case (Beat now hb ip)
  have f: "fst (registry_op_step F fl op r) = [(hb_node_id hb, fst (registry_heartbeat F fl now hb ip r))]"
    using Beat by (simp split: prod.split)
  have s: "snd (registry_op_step F fl op r) = snd (registry_heartbeat F fl now hb ip r)"
    unfolding Beat by (rule snd_step_beat)
  show ?thesis
  proof (cases "hb_node_id hb = i")
    case True
    thus ?thesis using awaiting_beat [OF assms(1) True, of F fl now ip] unfolding f s by (simp add: Beat beats_of_def)
  next
    case False
    thus ?thesis using awaiting_beat_other [OF False, of c b F fl now ip r] assms(1) unfolding f s
      by (simp add: Beat beats_of_def manual_releases_def)
  qed
next
  case (Note saved j n)
  thus ?thesis using assms by (simp add: set_note_def awaiting_mutate beats_of_def manual_releases_def)
qed (use assms in \<open>auto simp: awaiting_action awaiting_release awaiting_balance beats_of_def manual_releases_def\<close>)

lemma awaiting_run:
  "awaiting i c b r \<Longrightarrow> list_all (spares i) ops \<Longrightarrow>
   awaiting i (c - min c (beats_of i ops * b)) b (snd (registry_run F fl ops r)) \<and>
   manual_releases i (fst (registry_run F fl ops r)) = min c (beats_of i ops * b)"
proof (induction ops arbitrary: c r)
  case Nil thus ?case by (simp add: beats_of_def manual_releases_def)
next
  case (Cons op ops)
  let ?r = "snd (registry_op_step F fl op r)" and ?c = "c - min c (beats_of i [op] * b)"
  have step: "awaiting i ?c b ?r" "manual_releases i (fst (registry_op_step F fl op r)) = min c (beats_of i [op] * b)"
    using awaiting_step [OF Cons.prems(1), of op F fl] Cons.prems(2) by simp_all
  have run: "fst (registry_run F fl (op # ops) r) = fst (registry_op_step F fl op r) @ fst (registry_run F fl ops ?r)"
    by (simp split: prod.split)
  have beats: "beats_of i (op # ops) * b = beats_of i [op] * b + beats_of i ops * b"
    by (simp add: beats_of_def algebra_simps)
  have "?c - min ?c (beats_of i ops * b) = c - min c (beats_of i (op # ops) * b)"
    "min c (beats_of i [op] * b) + min ?c (beats_of i ops * b) = min c (beats_of i (op # ops) * b)"
    unfolding beats by simp_all
  thus ?case using Cons.IH [OF step(1)] Cons.prems(2) step(2)
    unfolding registry_run_Cons run manual_releases_append by simp
qed

lemma node_release_awaiting:
  assumes "admin_node_release i cnt r0 = (Inr (), r)"
  shows "awaiting i (unat cnt) (batch_of r0) r"
proof -
  let ?f = "\<lambda>n. n\<lparr> pending_release := cnt \<rparr>"
  have "\<not> is_relay r0 i" "node_get r0 i \<noteq> None" "r = node_update i ?f r0"
    using assms by (auto simp: admin_node_release_def request_release_def split: if_splits)
  moreover have "node_get (node_update i ?f r0) i = (if i = i then map_option ?f (node_get r0 i) else node_get r0 i)"
    by (rule node_get_update) simp
  ultimately show ?thesis by (auto simp: awaiting_def is_relay_def batch_of_def)
qed

text \<open>
  C32: An accepted manual release is carried out: over any run in which nobody replaces the request, marks the
  node a relay, forgets it or restarts the console, the node's heartbeats hand out
  exactly the clients asked for, at most a batch at a time, and when the node has sent
  \<open>count / batch\<close> heartbeats (rounded up) nothing is pending.
\<close>

theorem manual_release_completes:
  assumes "admin_node_release i cnt r0 = (Inr (), r)" and "list_all (spares i) ops"
    and "unat cnt \<le> beats_of i ops * batch_of r0"
  shows "manual_releases i (fst (registry_run F fl ops r)) = unat cnt \<and>
    (\<exists>n. node_get (snd (registry_run F fl ops r)) i = Some n \<and> pending_release n = 0)"
proof -
  have "manual_releases i (fst (registry_run F fl ops r)) = unat cnt"
    "awaiting i 0 (batch_of r0) (snd (registry_run F fl ops r))"
    using awaiting_run [OF node_release_awaiting [OF assms(1)] assms(2), of F fl] assms(3)
    by (simp_all add: min_absorb1)
  thus ?thesis by (auto simp: awaiting_def unat_eq_0 split: option.splits)
qed

subsection \<open>Witnesses\<close>

definition sample_admin_registry :: registry where
  "sample_admin_registry =
     \<lparr> stale_after_ms = 1000, reg_nodes = [node_new 5 \<lparr> hb_node_id = ''a'', hb_started_at_ms = 1, hb_advertise_host = [],
         hb_port = 8012, hb_tls = False, hb_path = [], hb_subprotocol = [], hb_ready = True, hb_draining = False,
         hb_clients = 40, hb_max_clients = 100 \<rparr> ''ip''],
       reg_admin = Map.empty, reg_settings = settings_default, reg_file = None \<rparr>"

abbreviation sample_beat_a :: registry_op where
  "sample_beat_a \<equiv> Beat 7 (heartbeat_of (hd (reg_nodes sample_admin_registry))) ''ip''"

lemma sample_known: "node_get sample_admin_registry ''a'' \<noteq> None" "\<not> is_relay sample_admin_registry ''a''"
  by (simp_all add: sample_admin_registry_def node_get_def node_new_def is_relay_def)


theorem manual_release_completes_witness:
  "manual_releases ''a'' (fst (registry_run sample_f64 int [sample_beat_a, Balance True False, sample_beat_a]
     (snd (admin_node_release ''a'' 25 sample_admin_registry)))) = 25"
proof -
  have "admin_node_release ''a'' 25 sample_admin_registry = (Inr (), snd (admin_node_release ''a'' 25 sample_admin_registry))"
    using sample_known by (simp add: admin_node_release_def request_release_def)
  moreover have "unat (25 :: u64) \<le> beats_of ''a'' [sample_beat_a, Balance True False, sample_beat_a] * batch_of sample_admin_registry"
    by (simp add: beats_of_def batch_of_def sample_admin_registry_def node_new_def settings_default_def)
  ultimately show ?thesis
    using manual_release_completes [of "''a''" 25 sample_admin_registry _ "[sample_beat_a, Balance True False, sample_beat_a]" sample_f64 int]
    by simp
qed

end
