(* ===== verification/Console_Balance.thy ===== *)
theory Console_Balance
  imports Console_Registry
begin

text \<open>
  The two decisions of \<open>console/registry.rs\<close> that spread clients over nodes: how many clients
  the busiest node gives up (\<open>decide_release\<close>, \<open>balance_excess\<close>) and the order in which
  nodes are offered to new clients (\<open>public_list\<close>).
\<close>

subsection \<open>Automatic balancing\<close>

lemma wf_update: "(\<And>n. node_id_of n = j \<Longrightarrow> node_id_of (f n) = j) \<Longrightarrow> registry_wf (node_update j f r) = registry_wf r"
proof -
  assume "\<And>n. node_id_of n = j \<Longrightarrow> node_id_of (f n) = j"
  hence "node_id_of \<circ> (\<lambda>n. if node_id_of n = j then f n else n) = node_id_of" by auto
  thus ?thesis by (simp add: registry_wf_def node_update_def)
qed

lemma wf_entry: "registry_wf r \<Longrightarrow> registry_wf (node_entry now hb ip r)"
proof (cases "node_get r (hb_node_id hb)")
  case None
  assume "registry_wf r"
  moreover have "hb_node_id hb \<notin> node_id_of ` set (reg_nodes r)" by (rule node_get_None [THEN iffD1, OF None])
  ultimately show ?thesis using None by (simp add: node_entry_def registry_wf_def node_new_def)
next
  case (Some n)
  assume "registry_wf r"
  moreover have "registry_wf (node_update (hb_node_id hb) (node_beat now hb ip) r) = registry_wf r"
    by (rule wf_update) (simp add: node_beat_def)
  ultimately show ?thesis using Some by (simp add: node_entry_def)
qed

lemma wf_decide: "registry_wf (snd (decide_release F fl r i now)) = registry_wf r"
  by (simp add: decide_release_def Let_def wf_update note_release_def split: option.split)

lemma wf_nodes: "reg_nodes r' = reg_nodes r \<Longrightarrow> registry_wf r' = registry_wf r"
  by (simp add: registry_wf_def)

lemma wf_mutate: "registry_wf (snd (mutate_admin saved j f r)) = registry_wf r"
  by (rule wf_nodes) (simp add: snd_mutate_admin)

lemma wf_forget: "registry_wf r \<Longrightarrow> registry_wf (snd (forget saved i r))"
  by (simp add: snd_forget Let_def registry_wf_def distinct_map_filter)

lemma wf_drain: "registry_wf (snd (set_drain i b r)) = registry_wf r"
  by (simp add: set_drain_def wf_update)

lemma wf_action: "registry_wf r \<Longrightarrow> registry_wf (snd (action_apply saved i a r))"
  by (cases a) (simp_all add: set_relay_def set_disabled_def wf_mutate wf_drain wf_forget)

lemma wf_step: "registry_wf r \<Longrightarrow> registry_wf (snd (registry_op_step F fl op r))"
proof (cases op)
  case (Beat now hb ip)
  assume "registry_wf r"
  thus ?thesis unfolding Beat snd_step_beat by (simp add: snd_registry_heartbeat wf_decide wf_update wf_entry)
next
  case (Action saved i a)
  assume "registry_wf r"
  thus ?thesis using Action by (simp add: snd_admin_node_action wf_action)
next
  case (Balance saved d)
  assume "registry_wf r"
  thus ?thesis using Balance by (simp add: set_auto_balance_def registry_wf_def)
qed (simp_all add: admin_node_release_def request_release_def wf_update set_note_def wf_mutate registry_open_def registry_wf_def [of "\<lparr> stale_after_ms = _, reg_nodes = _, reg_admin = _, reg_settings = _, reg_file = _ \<rparr>"])

lemma wf_run: "registry_wf r \<Longrightarrow> registry_wf (snd (registry_run F fl ops r))"
proof (induction ops arbitrary: r)
  case (Cons op ops)
  show ?case unfolding registry_run_Cons by (rule Cons.IH [OF wf_step [OF Cons.prems]])
qed simp

lemma wf_open: "registry_wf (registry_open stale file)"
  by (simp add: registry_wf_def registry_open_def)

lemma max_node_mem: "max_node a ns \<in> set (a # ns)"
  by (induction ns arbitrary: a) (auto split: if_splits)

lemma max_node_ge: "n \<in> set (a # ns) \<Longrightarrow> clients_of n \<le> clients_of (max_node a ns)"
proof (induction ns arbitrary: a n)
  case (Cons b ns)
  let ?m = "if less_busy b a then a else b"
  have "clients_of a \<le> clients_of ?m" "clients_of b \<le> clients_of ?m" by (auto simp: less_busy_def)
  moreover have "clients_of x \<le> clients_of (max_node ?m ns)" if "x \<in> set (?m # ns)" for x
    using Cons.IH that by blast
  moreover have "n = a \<or> n = b \<or> n \<in> set ns" using Cons.prems by simp
  ultimately show ?case by (metis list.set_intros max_node.simps(2) order_trans)
qed simp

lemma wf_unique: "registry_wf r \<Longrightarrow> n \<in> set (reg_nodes r) \<Longrightarrow> m \<in> set (reg_nodes r) \<Longrightarrow> node_id_of n = node_id_of m \<Longrightarrow> n = m"
  unfolding registry_wf_def by (metis distinct_map inj_on_eq_iff)

lemma busiest_ge:
  assumes "registry_wf r" "busiest_sheddable r now = Some i" "node_get r i = Some me" "n \<in> set (sheddable r now)"
  shows "clients_of n \<le> clients_of me"
proof -
  obtain a ns where sh: "sheddable r now = a # ns" and i: "node_id_of (max_node a ns) = i"
    using assms(2) by (auto simp: busiest_sheddable_def split: list.splits)
  have "max_node a ns \<in> set (reg_nodes r)"
    using max_node_mem [of a ns] unfolding sh [symmetric] by (simp add: sheddable_def)
  hence "max_node a ns = me" using wf_unique [OF assms(1)] node_get_Some [OF assms(3)] i by blast
  thus ?thesis using max_node_ge [of n a ns] assms(4) sh by simp
qed

definition spare_total :: "registry \<Rightarrow> string \<Rightarrow> u64 \<Rightarrow> nat" where
  "spare_total r i now =
     sum_list (map (\<lambda>n. unat (hb_max_clients (heartbeat_of n)) - unat (clients_of n))
       (filter (\<lambda>n. node_id_of n \<noteq> i) (serving r now)))"

lemma unat_sum_list: "sum_list (map unat ws) < 2 ^ 64 \<Longrightarrow> unat (sum_list (ws :: u64 list)) = sum_list (map unat ws)"
proof (induction ws)
  case (Cons w ws)
  hence "unat (sum_list ws) = sum_list (map unat ws)" by simp
  thus ?case using Cons.prems by (simp add: unat_word_ariths)
qed simp

lemma others_spare_unat: "spare_total r i now < 2 ^ 63 \<Longrightarrow> unat (others_spare r i now) = spare_total r i now"
  using unat_sum_list [of "map (\<lambda>n. saturating_sub (hb_max_clients (heartbeat_of n)) (clients_of n))
    (filter (\<lambda>n. node_id_of n \<noteq> i) (serving r now))"]
  by (simp add: others_spare_def spare_total_def comp_def)

lemma sint_small: "unat (w :: u64) < 2 ^ 63 \<Longrightarrow> sint w = int (unat w)"
proof -
  assume "unat w < 2 ^ 63"
  hence "uint w < 2 ^ 63" by (metis of_nat_less_numeral_power_cancel_iff uint_nat)
  hence "signed_take_bit 63 (uint w) = uint w"
    by (intro signed_take_bit_int_eq_self) (auto intro: order_trans [OF _ uint_ge_0])
  thus ?thesis by (simp add: sint_uint)
qed

lemma balance_excess_bounds:
  assumes "registry_wf r" "node_get r i = Some me" "spare_total r i now < 2 ^ 63"
  shows "balance_excess F fl r i now \<le> int ((unat (clients_of me) - unat (emptiest r now)) div 2)"
    and "balance_excess F fl r i now \<le> int (spare_total r i now)"
proof -
  have sp: "sint (others_spare r i now) = int (spare_total r i now)"
    using others_spare_unat [OF assms(3)] assms(3) by (simp add: sint_small)
  have "balance_excess F fl r i now \<le> int ((unat (clients_of me) - unat (emptiest r now)) div 2) \<and>
        balance_excess F fl r i now \<le> int (spare_total r i now)"
  proof (cases "find (\<lambda>n. node_id_of n = i) (sheddable r now)")
    case None thus ?thesis by (simp add: balance_excess_def)
  next
    case (Some n)
    hence "n \<in> set (reg_nodes r)" "node_id_of n = i" using find_id [OF Some] by (auto simp: sheddable_def)
    hence "n = me" using wf_unique [OF assms(1)] node_get_Some [OF assms(2)] by blast
    thus ?thesis using Some
      by (auto simp: balance_excess_def Let_def sp unat_div_distrib min_le_iff_disj)
  qed
  thus "balance_excess F fl r i now \<le> int ((unat (clients_of me) - unat (emptiest r now)) div 2)"
    "balance_excess F fl r i now \<le> int (spare_total r i now)" by simp_all
qed

lemma auto_release:
  assumes "decide_release F fl r i now = ((k, ''auto-balance''), r')"
  shows "busiest_sheddable r now = Some i"
    and "sint (balance_min_excess (reg_settings r)) \<le> balance_excess F fl r i now"
    and "k = ucast (min (word_of_int (balance_excess F fl r i now)) (ucast (max (release_batch (reg_settings r)) 1) :: u64))"
  using assms by (auto simp: decide_release_def Let_def split: option.splits if_splits)

lemma auto_release_amount:
  assumes "decide_release F fl r i now = ((k, ''auto-balance''), r')" "registry_wf r" "node_get r i = Some me"
    and "spare_total r i now < 2 ^ 63" "unat (balance_min_excess (reg_settings r)) < 2 ^ 63"
  shows "unat k \<le> batch_of r" "2 * unat k \<le> unat (clients_of me) - unat (emptiest r now)"
    "unat k \<le> spare_total r i now"
proof -
  let ?x = "balance_excess F fl r i now"
  note b = balance_excess_bounds [OF assms(2,3,4), of F fl]
  have "0 \<le> ?x" using auto_release(2) [OF assms(1)] sint_small [OF assms(5)] uint_ge_0 by (metis order_trans of_nat_0_le_iff)
  moreover have "?x < 2 ^ 64" using b(2) assms(4) by simp
  ultimately have x: "unat (word_of_int ?x :: u64) = nat ?x"
    by (simp add: unsigned_of_int take_bit_int_eq_self)
  have k: "unat k = min (nat ?x) (batch_of r)"
    unfolding auto_release(3) [OF assms(1)] unat_min_batch(1) x batch_of_def ..
  show "unat k \<le> batch_of r" by (simp add: k)
  show "unat k \<le> spare_total r i now" using b(2) by (simp add: k)
  have "nat ?x \<le> (unat (clients_of me) - unat (emptiest r now)) div 2" using b(1) by linarith
  thus "2 * unat k \<le> unat (clients_of me) - unat (emptiest r now)" by (simp add: k)
qed

lemma heartbeat_relay_reason:
  "admin_relay (admin_of r (hb_node_id hb)) \<Longrightarrow> out_release_reason (fst (registry_heartbeat F fl now hb ip r)) = []"
  by (simp add: registry_heartbeat_def Let_def admin_of_def)

lemma node_entry_clients:
  "\<exists>me. node_get (node_entry now hb ip r) (hb_node_id hb) = Some me \<and> clients_of me = hb_clients hb"
  by (simp add: node_get_entry node_beat_def node_new_def split: option.split)

text \<open>
  C31: Automatic balancing is bounded.  In every state the console can reach, a heartbeat answered
  with an automatic release comes from a node with the most clients of those that can be
  relieved; the number is at most a batch and at most the free places of the other
  serving nodes, and after moving that many to the emptiest serving node the
  sender still has at least as many clients as that node.  (Free places and the configured
  minimum are below \<open>2 ^ 63\<close>, where the casts to \<open>i64\<close> are exact.)
\<close>

theorem auto_release_bounded:
  assumes "r = snd (registry_run F fl ops (registry_open stale file))"
    and "r1 = node_entry now hb ip r" and "out = fst (registry_heartbeat F fl now hb ip r)"
    and "out_release_reason out = ''auto-balance''"
    and "spare_total r1 (hb_node_id hb) now < 2 ^ 63" and "unat (balance_min_excess (reg_settings r)) < 2 ^ 63"
  shows "(\<forall>n\<in>set (sheddable r1 now). clients_of n \<le> hb_clients hb) \<and>
    unat (out_release out) \<le> batch_of r \<and>
    unat (out_release out) \<le> spare_total r1 (hb_node_id hb) now \<and>
    2 * unat (out_release out) \<le> unat (hb_clients hb) - unat (emptiest r1 now)"
proof -
  let ?i = "hb_node_id hb"
  have wf: "registry_wf r1" unfolding assms(1,2) by (intro wf_entry wf_run wf_open)
  have nr: "\<not> admin_relay (admin_of r ?i)"
  proof
    assume "admin_relay (admin_of r ?i)"
    hence "out_release_reason out = []" unfolding assms(3) by (rule heartbeat_relay_reason)
    thus False using assms(4) by simp
  qed
  obtain k reason r' where d: "decide_release F fl r1 ?i now = ((k, reason), r')" by (metis prod.exhaust)
  have out: "out_release out = k" "reason = ''auto-balance''"
    using heartbeat_release [OF nr, of F fl now ip] assms(4) d unfolding assms(2,3) by simp_all
  obtain me where me: "node_get r1 ?i = Some me" "clients_of me = hb_clients hb"
    using node_entry_clients [of now hb ip r] unfolding assms(2) by blast
  have r: "batch_of r1 = batch_of r" "reg_settings r1 = reg_settings r"
    unfolding assms(2) batch_of_def node_entry_fields by (rule refl)+
  note d = d [unfolded out(2)]
  have mn: "unat (balance_min_excess (reg_settings r1)) < 2 ^ 63" unfolding r(2) by (rule assms(6))
  show ?thesis
    using auto_release_amount [OF d wf me(1) assms(5) mn] busiest_ge [OF wf auto_release(1) [OF d] me(1)]
    unfolding out(1) r(1) me(2) by blast
qed

subsection \<open>The order of the public list\<close>

lemma stable_insert_sorted:
  assumes "\<And>x y z. \<not> before y x \<Longrightarrow> \<not> before z y \<Longrightarrow> \<not> before z x" "\<And>x y. before x y \<Longrightarrow> \<not> before y x"
    and "sorted_wrt (\<lambda>x y. \<not> before y x) ys"
  shows "sorted_wrt (\<lambda>x y. \<not> before y x) (stable_insert before x ys)"
  using assms(3)
proof (induction ys)
  case (Cons y ys)
  have ys: "\<forall>z\<in>set ys. \<not> before z y" "sorted_wrt (\<lambda>x y. \<not> before y x) ys" using Cons.prems by simp_all
  show ?case
  proof (cases "before y x")
    case True
    thus ?thesis using ys Cons.IH assms(2) [OF True] by simp
  next
    case False
    hence "\<not> before z x" if "z \<in> set ys" for z using assms(1) [OF False] ys(1) that by blast
    thus ?thesis using False Cons.prems by simp
  qed
qed simp

lemma stable_sort_sorted:
  assumes "\<And>x y z. \<not> before y x \<Longrightarrow> \<not> before z y \<Longrightarrow> \<not> before z x" "\<And>x y. before x y \<Longrightarrow> \<not> before y x"
  shows "sorted_wrt (\<lambda>x y. \<not> before y x) (stable_sort before xs)"
  unfolding stable_sort_def by (induction xs) (use stable_insert_sorted [OF assms] in auto)

lemma pub_before_trans: "\<not> pub_before c y x \<Longrightarrow> \<not> pub_before c z y \<Longrightarrow> \<not> pub_before c z x"
  unfolding pub_before_def by (auto split: if_splits)

lemma pub_before_asym: "pub_before c x y \<Longrightarrow> \<not> pub_before c y x"
  unfolding pub_before_def by (metis order_less_asym order_less_irrefl)

lemma fold_min: "fold min cs (c :: u64) = Min (insert c (set cs))"
  by (metis Min.set_eq_fold list.simps(15))

lemma min_clients_mem: "cs \<noteq> [] \<Longrightarrow> \<exists>m\<in>set cs. min_clients cs = Some m"
  by (cases cs) (simp_all add: fold_min del: Min_insert, metis Min_in finite.insertI finite_set insert_not_empty insertE)

lemma pub_clients_of: "map pub_clients (map public_node_of ns) = map clients_of ns"
  by (simp add: public_node_of_def)

lemma list_ceiling_unat:
  assumes "unat e < 2 ^ 31"
  shows "unat (list_ceiling e pct) = unat e + unat e * unat pct div 100"
proof -
  have p: "unat pct < 2 ^ 32" using unsigned_less [of pct, where ?'a = nat] by simp
  have "unat e * unat pct \<le> 2 ^ 31 * 2 ^ 32" using assms p by (intro mult_mono) auto
  hence lt: "unat e * unat pct < 2 ^ 64" by simp
  hence m: "unat (e * ucast pct) = unat e * unat pct"
    by (simp add: unat_word_ariths unat_ucast_32_64)
  have "unat e * unat pct div 100 \<le> unat e * unat pct" by (rule div_le_dividend)
  hence "unat e + unat e * unat pct div 100 < 2 ^ 64"
    using assms \<open>unat e * unat pct \<le> 2 ^ 31 * 2 ^ 32\<close> by simp
  moreover have "unat (e * ucast pct div 100) = unat e * unat pct div 100"
    unfolding unat_div_distrib m by simp
  ultimately show ?thesis unfolding list_ceiling_def unat_word_ariths(1) [of e] by simp
qed

definition near_empty :: "u64 \<Rightarrow> registry \<Rightarrow> public_node \<Rightarrow> bool" where
  "near_empty now r n \<longleftrightarrow>
     pub_clients n \<le> list_ceiling (emptiest r now) (balance_spread_pct (reg_settings r))"

lemma public_nodes_sort:
  "public_nodes shuffle now r =
     stable_sort (pub_before (list_ceiling (emptiest r now) (balance_spread_pct (reg_settings r))))
       (shuffle (map public_node_of (serving r now)))"
  by (simp only: public_nodes_def emptiest_def Let_def pub_clients_of)

text \<open>
  C34: The public list holds exactly the serving nodes, each with a positive weight, in this order: first the nodes
  whose clients are within the configured spread of the emptiest one, however they were
  shuffled, then the others by their number of clients.  The first node, the one
  clients take, is within the spread of the emptiest.  (Client numbers below \<open>2 ^ 31\<close>,
  where the product of the spread does not wrap.)
\<close>

theorem public_list_order:
  assumes "\<forall>ns. mset (shuffle ns) = mset ns" "nodes = list_nodes (public_list shuffle now ttl r)"
    and "unat (emptiest r now) < 2 ^ 31"
  shows "mset nodes = mset (map public_node_of (serving r now)) \<and>
    (\<forall>n\<in>set nodes. 0 < pub_weight n) \<and>
    sorted_wrt (\<lambda>a b. near_empty now r a \<or> \<not> near_empty now r b \<and> pub_clients a \<le> pub_clients b) nodes \<and>
    (nodes \<noteq> [] \<longrightarrow> 100 * unat (pub_clients (hd nodes)) \<le>
       unat (emptiest r now) * (100 + unat (balance_spread_pct (reg_settings r))))"
proof -
  let ?e = "emptiest r now" and ?p = "balance_spread_pct (reg_settings r)"
  let ?c = "list_ceiling ?e ?p"
  have nodes: "nodes = public_nodes shuffle now r" using assms(2) by (simp add: public_list_def split: prod.split)
  have ms: "mset nodes = mset (map public_node_of (serving r now))" unfolding nodes using assms(1) by (intro mset_public_nodes) blast
  have mem: "set nodes = public_node_of ` set (serving r now)" using mset_eq_setD [OF ms] by simp
  have "sorted_wrt (\<lambda>a b. \<not> pub_before ?c b a) nodes"
    unfolding nodes public_nodes_sort by (rule stable_sort_sorted) (fact pub_before_trans pub_before_asym)+
  hence so: "sorted_wrt (\<lambda>a b. near_empty now r a \<or> \<not> near_empty now r b \<and> pub_clients a \<le> pub_clients b) nodes"
    by (rule sorted_wrt_mono_rel [rotated]) (auto simp: pub_before_def near_empty_def split: if_splits)
  have "near_empty now r (hd nodes)" if "nodes \<noteq> []"
  proof -
    have "serving r now \<noteq> []" using that mem by auto
    then obtain n where n: "n \<in> set (serving r now)" "clients_of n = ?e"
      using min_clients_mem [of "map clients_of (serving r now)"] by (auto simp: emptiest_def)
    have "?e \<le> ?c" using list_ceiling_unat [OF assms(3), of ?p] by (simp add: word_le_nat_alt)
    hence "near_empty now r (public_node_of n)" using n(2) by (simp add: near_empty_def public_node_of_def)
    moreover have "public_node_of n \<in> set nodes" using n(1) mem by blast
    ultimately show ?thesis using so that by (cases nodes) auto
  qed
  hence "nodes \<noteq> [] \<longrightarrow> unat (pub_clients (hd nodes)) \<le> unat ?e + unat ?e * unat ?p div 100"
    using list_ceiling_unat [OF assms(3), of ?p] by (simp add: near_empty_def word_le_nat_alt)
  moreover have "100 * (unat ?e + unat ?e * unat ?p div 100) \<le> unat ?e * (100 + unat ?p)"
    by (simp add: algebra_simps)
  moreover have "0 < pub_weight (public_node_of n)" for n
    by (simp add: public_node_of_def less_max_iff_disj)
  ultimately show ?thesis using ms so mem by (auto intro: order_trans)
qed

subsection \<open>Witnesses\<close>

definition sample_beat :: "string \<Rightarrow> u64 \<Rightarrow> node_heartbeat" where
  "sample_beat i c =
     \<lparr> hb_node_id = i, hb_started_at_ms = 1, hb_advertise_host = [], hb_port = 8012, hb_tls = False,
       hb_path = [], hb_subprotocol = [], hb_ready = True, hb_draining = False, hb_clients = c, hb_max_clients = 100 \<rparr>"

definition sample_registry :: registry where
  "sample_registry = snd (registry_run sample_f64 int [Beat 10 (sample_beat ''a'' 10) ''ip''] (registry_open 1000 None))"

definition sample_outcome :: heartbeat_outcome where
  "sample_outcome = fst (registry_heartbeat sample_f64 int 20 (sample_beat ''b'' 40) ''ip'' sample_registry)"

lemma sample_release:
  "out_release_reason sample_outcome = ''auto-balance''" "out_release sample_outcome = 15"
  "spare_total (node_entry 20 (sample_beat ''b'' 40) ''ip'' sample_registry) (hb_node_id (sample_beat ''b'' 40)) 20 = 90"
  "balance_min_excess (reg_settings sample_registry) = 5"
  by code_simp+

lemma sample_bounds:
  "spare_total (node_entry 20 (sample_beat ''b'' 40) ''ip'' sample_registry) (hb_node_id (sample_beat ''b'' 40)) 20 < 2 ^ 63"
  "unat (balance_min_excess (reg_settings sample_registry)) < 2 ^ 63"
  by (simp_all add: sample_release)

theorem auto_release_bounded_witness:
  "out_release sample_outcome = 15 \<and>
   2 * unat (out_release sample_outcome) \<le>
     unat (hb_clients (sample_beat ''b'' 40)) - unat (emptiest (node_entry 20 (sample_beat ''b'' 40) ''ip'' sample_registry) 20)"
  using auto_release_bounded [OF sample_registry_def refl sample_outcome_def sample_release(1) sample_bounds] sample_release(2) by blast

theorem public_list_order_witness:
  "list_nodes (public_list rev 20 30 sample_registry) \<noteq> [] \<and>
   100 * unat (pub_clients (hd (list_nodes (public_list rev 20 30 sample_registry)))) \<le>
     unat (emptiest sample_registry 20) * (100 + unat (balance_spread_pct (reg_settings sample_registry)))"
proof -
  have s: "serving sample_registry 20 \<noteq> []" "emptiest sample_registry 20 = 10" by code_simp+
  have "unat (emptiest sample_registry 20) < 2 ^ 31" by (simp add: s(2))
  note o = public_list_order [of rev _ 20 30 sample_registry, OF _ refl this]
  have "mset (list_nodes (public_list rev 20 30 sample_registry)) = mset (map public_node_of (serving sample_registry 20))"
    using o by simp
  hence "list_nodes (public_list rev 20 30 sample_registry) \<noteq> []" using s(1) by auto
  thus ?thesis using o by simp
qed

end
