(* ===== verification/Token_Grants.thy ===== *)
theory Token_Grants
  imports Storage Edge_Hub
begin

text \<open>
  The client tokens: the table of the console (\<open>console/tokens.rs\<close>), the set an edge
  node holds (\<open>edge/auth.rs\<close>), and the exchange of a heartbeat that carries the table
  to the node (\<open>heartbeat\<close> of \<open>console/server.rs\<close>, \<open>apply\<close> of \<open>edge/heartbeat.rs\<close>).  The
  console's file is a value; whether a save succeeds is an argument, and so are the
  random id and secret of a new token and the clock.
\<close>

subsection \<open>The console's table\<close>

record client_token =
  token_id :: string
  token_secret :: string
  token_name :: string
  token_enabled :: bool
  token_created_at_ms :: u64
  token_updated_at_ms :: u64

record tokens_file =
  tf_version :: u64
  tf_tokens :: "client_token list"

record token_grant =
  grant_id :: string
  grant_secret :: string

record token_view =
  view_id :: string
  view_name :: string
  view_prefix :: string
  view_enabled :: bool

record token_store =
  ts_inner :: tokens_file
  ts_file :: "tokens_file option"

definition store_open :: "tokens_file option \<Rightarrow> token_store" where
  "store_open file =
     \<lparr> ts_inner = (case file of Some f \<Rightarrow> f | None \<Rightarrow> \<lparr> tf_version = 0, tf_tokens = [] \<rparr>), ts_file = file \<rparr>"

definition store_grants :: "token_store \<Rightarrow> u64 \<times> token_grant list" where
  "store_grants s =
     (tf_version (ts_inner s),
      map (\<lambda>t. \<lparr> grant_id = token_id t, grant_secret = token_secret t \<rparr>) (filter token_enabled (tf_tokens (ts_inner s))))"

definition token_view_of :: "client_token \<Rightarrow> token_view" where
  "token_view_of t = \<lparr> view_id = token_id t, view_name = token_name t, view_prefix = take 6 (token_secret t),
     view_enabled = token_enabled t \<rparr>"

definition store_list :: "token_store \<Rightarrow> token_view list" where
  "store_list s = map token_view_of (tf_tokens (ts_inner s))"

text \<open>\<open>mutate\<close>: no change leaves everything alone; a failing save keeps the new table in memory.\<close>

definition store_mutate ::
  "bool \<Rightarrow> (client_token list \<Rightarrow> bool \<times> client_token list) \<Rightarrow> token_store \<Rightarrow> (unit + bool) \<times> token_store" where
  "store_mutate saved f s =
     (case f (tf_tokens (ts_inner s)) of
        (False, _) \<Rightarrow> (Inr False, s)
      | (True, tokens) \<Rightarrow>
          (let inner = \<lparr> tf_version = tf_version (ts_inner s) + 1, tf_tokens = tokens \<rparr>
           in if saved then (Inr True, \<lparr> ts_inner = inner, ts_file = Some inner \<rparr>)
              else (Inl (), s\<lparr> ts_inner := inner \<rparr>)))"

fun update_token :: "string \<Rightarrow> (client_token \<Rightarrow> client_token) \<Rightarrow> client_token list \<Rightarrow> bool \<times> client_token list" where
  "update_token i f [] = (False, [])"
| "update_token i f (t # ts) =
     (if token_id t = i then (True, f t # ts) else (case update_token i f ts of (b, ts) \<Rightarrow> (b, t # ts)))"

definition store_create :: "bool \<Rightarrow> u64 \<Rightarrow> string \<Rightarrow> string \<Rightarrow> string \<Rightarrow> token_store \<Rightarrow> (unit + bool) \<times> token_store" where
  "store_create saved now i secret name =
     store_mutate saved (\<lambda>ts. (True, ts @ [\<lparr> token_id = i, token_secret = secret, token_name = trim name, token_enabled = True,
       token_created_at_ms = now, token_updated_at_ms = now \<rparr>]))"

definition store_set_enabled :: "bool \<Rightarrow> u64 \<Rightarrow> string \<Rightarrow> bool \<Rightarrow> token_store \<Rightarrow> (unit + bool) \<times> token_store" where
  "store_set_enabled saved now i enabled =
     store_mutate saved (update_token i (\<lambda>t. t\<lparr> token_enabled := enabled, token_updated_at_ms := now \<rparr>))"

definition store_rename :: "bool \<Rightarrow> u64 \<Rightarrow> string \<Rightarrow> string \<Rightarrow> token_store \<Rightarrow> (unit + bool) \<times> token_store" where
  "store_rename saved now i name =
     store_mutate saved (update_token i (\<lambda>t. t\<lparr> token_name := trim name, token_updated_at_ms := now \<rparr>))"

definition store_delete :: "bool \<Rightarrow> string \<Rightarrow> token_store \<Rightarrow> (unit + bool) \<times> token_store" where
  "store_delete saved i =
     store_mutate saved (\<lambda>ts. let ts' = filter (\<lambda>t. token_id t \<noteq> i) ts in (length ts' \<noteq> length ts, ts'))"

subsection \<open>The set of an edge node\<close>

definition STATIC_TOKEN_ID :: string where "STATIC_TOKEN_ID = ''env''"

record token_set =
  set_version :: u64
  console_tokens :: "string \<rightharpoonup> string"
  static_tokens :: "string list"
  received_from_console :: bool

definition token_set_new :: "string list \<Rightarrow> token_set" where
  "token_set_new statics =
     \<lparr> set_version = 0, console_tokens = Map.empty, static_tokens = statics, received_from_console = False \<rparr>"

definition grants_map :: "token_grant list \<Rightarrow> string \<rightharpoonup> string" where
  "grants_map gs = fold (\<lambda>g m. m(grant_secret g \<mapsto> grant_id g)) gs Map.empty"

definition token_set_replace :: "u64 \<Rightarrow> token_grant list \<Rightarrow> token_set \<Rightarrow> bool \<times> token_set" where
  "token_set_replace version grants s =
     (let fresh = grants_map grants
      in (fresh \<noteq> console_tokens s \<or> \<not> received_from_console s,
          s\<lparr> set_version := version, console_tokens := fresh, received_from_console := True \<rparr>))"

definition token_check :: "token_set \<Rightarrow> string \<Rightarrow> string option" where
  "token_check s secret =
     (if secret = [] then None
      else case console_tokens s secret of
        Some i \<Rightarrow> Some i
      | None \<Rightarrow> if \<not> received_from_console s \<and> secret \<in> set (static_tokens s) then Some STATIC_TOKEN_ID else None)"

definition token_is_live :: "token_set \<Rightarrow> string \<Rightarrow> bool" where
  "token_is_live s i \<longleftrightarrow>
     (if i = STATIC_TOKEN_ID then \<not> received_from_console s else i \<in> ran (console_tokens s))"

subsection \<open>The heartbeat\<close>

text \<open>The part of the directive that carries tokens, and what a node does with it.\<close>

definition token_directive :: "u64 \<Rightarrow> token_store \<Rightarrow> u64 \<times> token_grant list option" where
  "token_directive edge_tokens_version s =
     (case store_grants s of (version, grants) \<Rightarrow>
        (version, if edge_tokens_version \<noteq> version then Some grants else None))"

definition apply_tokens :: "u64 \<times> token_grant list option \<Rightarrow> token_set \<times> edge_hub \<Rightarrow> token_set \<times> edge_hub" where
  "apply_tokens d x =
     (case x of (auth, hub) \<Rightarrow>
        (case snd d of
           None \<Rightarrow> (auth, hub)
         | Some grants \<Rightarrow>
             (case token_set_replace (fst d) grants auth of (changed, auth) \<Rightarrow>
                (auth, if changed then snd (kick_tokens (token_is_live auth) hub) else hub))))"

subsection \<open>Runs\<close>

record token_system =
  sys_store :: token_store
  sys_auth :: token_set
  sys_hub :: edge_hub

datatype token_op =
    TokenCreate bool u64 string string string
  | TokenSetEnabled bool u64 string bool
  | TokenRename bool u64 string string
  | TokenDelete bool string
  | TokenHeartbeat
  | ConsoleRestart
  | EdgeRestart "string list" nat nat
  | TokenHub edge_op

fun token_step :: "token_op \<Rightarrow> token_system \<Rightarrow> token_system" where
  "token_step (TokenCreate ok now i secret name) s =
     s\<lparr> sys_store := snd (store_create ok now i secret name (sys_store s)) \<rparr>"
| "token_step (TokenSetEnabled ok now i e) s = s\<lparr> sys_store := snd (store_set_enabled ok now i e (sys_store s)) \<rparr>"
| "token_step (TokenRename ok now i name) s = s\<lparr> sys_store := snd (store_rename ok now i name (sys_store s)) \<rparr>"
| "token_step (TokenDelete ok i) s = s\<lparr> sys_store := snd (store_delete ok i (sys_store s)) \<rparr>"
| "token_step TokenHeartbeat s =
     (case apply_tokens (token_directive (set_version (sys_auth s)) (sys_store s)) (sys_auth s, sys_hub s) of
        (auth, hub) \<Rightarrow> s\<lparr> sys_auth := auth, sys_hub := hub \<rparr>)"
| "token_step ConsoleRestart s = s\<lparr> sys_store := store_open (ts_file (sys_store s)) \<rparr>"
| "token_step (EdgeRestart statics cap q) s = s\<lparr> sys_auth := token_set_new statics, sys_hub := edge_hub_new cap q \<rparr>"
| "token_step (TokenHub op) s = s\<lparr> sys_hub := edge_step op (sys_hub s) \<rparr>"

fun saves :: "token_op \<Rightarrow> bool" where
  "saves (TokenCreate ok now i secret name) = ok"
| "saves (TokenSetEnabled ok now i e) = ok"
| "saves (TokenRename ok now i name) = ok"
| "saves (TokenDelete ok i) = ok"
| "saves _ = True"

definition system_start :: "tokens_file option \<Rightarrow> string list \<Rightarrow> nat \<Rightarrow> nat \<Rightarrow> token_system" where
  "system_start file statics cap q =
     \<lparr> sys_store = store_open file, sys_auth = token_set_new statics, sys_hub = edge_hub_new cap q \<rparr>"

subsection \<open>The set follows the table\<close>

definition table_ok :: "token_store \<Rightarrow> bool" where
  "table_ok s \<longleftrightarrow> store_open (ts_file s) = s \<and> (tf_version (ts_inner s) = 0 \<longrightarrow> tf_tokens (ts_inner s) = [])"

definition in_step :: "token_store \<Rightarrow> token_set \<Rightarrow> bool" where
  "in_step s a \<longleftrightarrow> set_version a \<le> tf_version (ts_inner s) \<and>
     (\<not> received_from_console a \<longrightarrow> set_version a = 0 \<and> console_tokens a = Map.empty) \<and>
     (set_version a = tf_version (ts_inner s) \<longrightarrow> console_tokens a = grants_map (snd (store_grants s)))"

definition system_inv :: "nat \<Rightarrow> token_system \<Rightarrow> bool" where
  "system_inv n s \<longleftrightarrow> table_ok (sys_store s) \<and> in_step (sys_store s) (sys_auth s) \<and>
     unat (tf_version (ts_inner (sys_store s))) \<le> n"

lemma mutate_inv:
  assumes "table_ok s" "in_step s a" "unat (tf_version (ts_inner s)) \<le> n" "Suc n < 2 ^ 64"
  shows "table_ok (snd (store_mutate True f s)) \<and> in_step (snd (store_mutate True f s)) a \<and>
    unat (tf_version (ts_inner (snd (store_mutate True f s)))) \<le> Suc n"
proof -
  let ?v = "tf_version (ts_inner s)"
  have u: "unat (?v + 1) = unat ?v + 1" using assms(3,4) by (simp add: unat_word_ariths)
  then have "?v + 1 \<noteq> 0" by (metis add_is_0 one_neq_zero unat_0)
  moreover have "set_version a < ?v + 1"
    using assms(2) u by (simp add: in_step_def word_le_nat_alt word_less_nat_alt)
  ultimately show ?thesis
    using assms u
    by (auto simp: store_mutate_def table_ok_def in_step_def store_open_def Let_def less_imp_le split: prod.splits bool.splits)
qed

lemma heartbeat_inv:
  assumes "table_ok s" "in_step s a"
  shows "in_step s (fst (apply_tokens (token_directive (set_version a) s) (a, h)))"
    "set_version (fst (apply_tokens (token_directive (set_version a) s) (a, h))) = tf_version (ts_inner s)"
  using assms
  by (auto simp: in_step_def apply_tokens_def token_directive_def store_grants_def token_set_replace_def Let_def)

lemma grants_map_nil [simp]: "grants_map [] = Map.empty"
  by (simp add: grants_map_def)

lemma restart_in_step: "table_ok s \<Longrightarrow> in_step s (token_set_new statics)"
  by (auto simp: in_step_def token_set_new_def table_ok_def store_grants_def)

lemma system_inv_step:
  assumes "system_inv n s" "saves op" "Suc n < 2 ^ 64"
  shows "system_inv (Suc n) (token_step op s)"
proof -
  have inv: "table_ok (sys_store s)" "in_step (sys_store s) (sys_auth s)" "unat (tf_version (ts_inner (sys_store s))) \<le> n"
    using assms(1) by (simp_all add: system_inv_def)
  note mut = mutate_inv [OF inv assms(3)]
  show ?thesis
  proof (cases op)
    case TokenHeartbeat
    then show ?thesis
      using heartbeat_inv(1) [OF inv(1,2), of "sys_hub s"] inv by (auto simp: system_inv_def split: prod.splits)
  qed (use assms(2) inv mut restart_in_step in \<open>auto simp: system_inv_def store_create_def store_set_enabled_def
      store_rename_def store_delete_def table_ok_def\<close>)
qed

lemma system_run:
  assumes "list_all saves ops" "table_ok (store_open file)" "unat (tf_version (ts_inner (store_open file))) + length ops < 2 ^ 64"
  shows "system_inv (unat (tf_version (ts_inner (store_open file))) + length ops) (fold token_step ops (system_start file statics cap q))"
  using assms(1,3)
proof (induction ops rule: rev_induct)
  case Nil
  then show ?case using assms(2) restart_in_step by (simp add: system_inv_def system_start_def)
next
  case (snoc op ops)
  then show ?case using system_inv_step by simp
qed

lemma grants_map_dom: "grants_map gs x \<noteq> None \<longleftrightarrow> (\<exists>g\<in>set gs. grant_secret g = x)"
proof -
  have "fold (\<lambda>g m. m(grant_secret g \<mapsto> grant_id g)) gs m x \<noteq> None \<longleftrightarrow> (\<exists>g\<in>set gs. grant_secret g = x) \<or> m x \<noteq> None" for m
    by (induction gs arbitrary: m) auto
  then show ?thesis by (simp add: grants_map_def)
qed

lemma kicked_live:
  assumes "i \<in> set (edge_subs (snd (kick_tokens keep h)))" "edge_channels (snd (kick_tokens keep h)) i = Some c"
    "client_token_id (ch_info c) = Some t"
  shows "keep t"
  using assms
  by (auto simp: kick_tokens_def drop_subscribers_def set_close_code_def token_fails_def Let_def split: option.splits)


definition sample_tokens :: tokens_file where
  "sample_tokens = \<lparr> tf_version = 3, tf_tokens = [\<lparr> token_id = ''a'', token_secret = ''sa'', token_name = [], token_enabled = True,
     token_created_at_ms = 0, token_updated_at_ms = 0 \<rparr>] \<rparr>"

lemma sample_tokens_ok: "table_ok (store_open (Some sample_tokens))"
  by (simp add: table_ok_def store_open_def sample_tokens_def)


lemma update_token_found:
  "\<exists>t\<in>set ts. token_id t = i \<Longrightarrow> \<exists>ts'. update_token i f ts = (True, ts') \<and> (\<exists>t\<in>set ts. token_id t = i \<and> f t \<in> set ts')"
  by (induction ts) fastforce+

lemma heartbeat_step:
  "sys_auth (token_step TokenHeartbeat s) =
     fst (apply_tokens (token_directive (set_version (sys_auth s)) (sys_store s)) (sys_auth s, sys_hub s))"
  "sys_store (token_step TokenHeartbeat s) = sys_store s"
  "set_version (sys_auth s) = tf_version (ts_inner (sys_store s)) \<Longrightarrow> token_step TokenHeartbeat s = s"
  by (simp_all add: apply_tokens_def token_directive_def store_grants_def split: prod.splits)

text \<open>
  C30: a failed save can leave a revoked token in use.  When creating a token fails to
  save, a node fetches the new version, the console restarts from the old file and a
  token of the table is then disabled, the version number of the second change is
  that of the first: the node does not ask for the table and keeps accepting the
  disabled token.
\<close>

theorem failed_save_keeps_revoked_token:
  assumes "ts_file st = Some (ts_inner st)" "set_version a \<noteq> tf_version (ts_inner st) + 1"
    and "\<exists>t\<in>set (tf_tokens (ts_inner st)). token_enabled t \<and> token_secret t = secret \<and> token_id t = i" "secret \<noteq> []"
    and "s' = fold token_step [TokenCreate False now i2 secret2 name, TokenHeartbeat, ConsoleRestart,
       TokenSetEnabled True now i False, TokenHeartbeat] \<lparr> sys_store = st, sys_auth = a, sys_hub = h \<rparr>"
  shows "token_check (sys_auth s') secret \<noteq> None \<and> set_version (sys_auth s') = tf_version (ts_inner (sys_store s')) \<and>
    (\<exists>t\<in>set (tf_tokens (ts_inner (sys_store s'))). token_id t = i \<and> \<not> token_enabled t)"
proof -
  let ?f = "\<lambda>t. t\<lparr> token_enabled := False, token_updated_at_ms := now \<rparr>"
  obtain ts' where upd: "update_token i ?f (tf_tokens (ts_inner st)) = (True, ts')" "\<exists>t\<in>set ts'. token_id t = i \<and> \<not> token_enabled t"
    using update_token_found [of "tf_tokens (ts_inner st)" i ?f] assms(3) by fastforce
  define st1 where "st1 = snd (store_create False now i2 secret2 name st)"
  have st1: "tf_version (ts_inner st1) = tf_version (ts_inner st) + 1" "ts_file st1 = Some (ts_inner st)"
    "set (tf_tokens (ts_inner st)) \<subseteq> set (tf_tokens (ts_inner st1))"
    by (auto simp: st1_def store_create_def store_mutate_def assms(1) Let_def)
  define a1 where "a1 = fst (apply_tokens (token_directive (set_version a) st1) (a, h))"
  have a1: "set_version a1 = tf_version (ts_inner st) + 1" "console_tokens a1 = grants_map (snd (store_grants st1))"
    using assms(2) st1(1) by (simp_all add: a1_def apply_tokens_def token_directive_def store_grants_def token_set_replace_def Let_def)
  define st2 where "st2 = snd (store_set_enabled True now i False (store_open (Some (ts_inner st))))"
  have st2: "tf_version (ts_inner st2) = tf_version (ts_inner st) + 1" "tf_tokens (ts_inner st2) = ts'"
    using upd(1) by (simp_all add: st2_def store_set_enabled_def store_mutate_def store_open_def Let_def)
  define s2 where "s2 = token_step TokenHeartbeat (\<lparr> sys_store = st1, sys_auth = a, sys_hub = h \<rparr>)"
  define s4 where "s4 = token_step (TokenSetEnabled True now i False) (token_step ConsoleRestart s2)"
  have s4: "sys_auth s4 = a1" "sys_store s4 = st2"
    by (simp_all add: s4_def s2_def heartbeat_step a1_def st2_def st1(2) del: token_step.simps(5))
  have "s' = token_step TokenHeartbeat s4"
    by (simp add: assms(5) s4_def s2_def st1_def del: token_step.simps(5))
  then have s': "sys_auth s' = a1" "sys_store s' = st2"
    using heartbeat_step(3) [of s4] s4 a1(1) st2(1) by simp_all
  have "grants_map (snd (store_grants st1)) secret \<noteq> None"
    using assms(3) st1(3) unfolding grants_map_dom by (auto simp: store_grants_def)
  then have "token_check a1 secret \<noteq> None" using assms(4) a1(2) by (auto simp: token_check_def split: option.splits)
  then show ?thesis using s' a1(1) st2 upd(2) by simp
qed

theorem failed_save_keeps_revoked_token_witness:
  "\<exists>s'. s' = fold token_step [TokenCreate False 7 ''b'' ''sb'' [], TokenHeartbeat, ConsoleRestart,
       TokenSetEnabled True 7 ''a'' False, TokenHeartbeat] (system_start (Some sample_tokens) [] 4 2) \<and>
     token_check (sys_auth s') ''sa'' \<noteq> None \<and> (\<exists>t\<in>set (tf_tokens (ts_inner (sys_store s'))). token_id t = ''a'' \<and> \<not> token_enabled t)"
proof -
  define s' where "s' = fold token_step [TokenCreate False 7 ''b'' ''sb'' [], TokenHeartbeat, ConsoleRestart,
       TokenSetEnabled True 7 ''a'' False, TokenHeartbeat] (system_start (Some sample_tokens) [] 4 2)"
  have "token_check (sys_auth s') ''sa'' \<noteq> None \<and> set_version (sys_auth s') = tf_version (ts_inner (sys_store s')) \<and>
      (\<exists>t\<in>set (tf_tokens (ts_inner (sys_store s'))). token_id t = ''a'' \<and> \<not> token_enabled t)"
    by (rule failed_save_keeps_revoked_token [of "store_open (Some sample_tokens)" "token_set_new []" _ _ _ _ _ _ _ "edge_hub_new 4 2"])
      (simp_all add: s'_def system_start_def store_open_def sample_tokens_def token_set_new_def)
  then show ?thesis unfolding s'_def by blast
qed

end
