(* ===== verification/Edge_Node.thy ===== *)
theory Edge_Node
  imports Token_Grants Console_Registry
begin

text \<open>
  \<open>edge/server.rs\<close>, the directives of \<open>edge/heartbeat.rs\<close> and the heartbeat handler of
  \<open>console/server.rs\<close>: the handshake of a client, releases and drains.  A drain is a task
  that runs beside everything else; its atomic accesses are separate steps
  (\<open>drain_pc\<close>), so every interleaving with handshakes, directives and a second drain is a
  run of \<open>node_step\<close>.  A handshake and the start of its session are two steps as well.
  Sleeping only separates steps; whether the deadline has passed is an argument.
\<close>

definition SUBPROTOCOL :: string where "SUBPROTOCOL = ''uma.pb.v1''"
definition WS_PATH :: string where "WS_PATH = ''/uma/v1/ws''"
definition MAX_REPLAY :: nat where "MAX_REPLAY = 4096"

record edge_config =
  cfg_node_id :: string
  cfg_advertise_host :: string
  cfg_advertise_port :: u16
  cfg_advertise_tls :: bool
  cfg_max_clients :: nat
  cfg_admin_token :: string
  cfg_drain_batch :: nat

datatype drain_pc = LoopTest | LoopCount | LoopRelease | LoopCancel | LoopFinish | LoopExit

record edge_stats =
  st_upstream_connected :: bool
  st_clients_accepted :: u64
  st_clients_rejected :: u64
  st_rejected_token :: u64
  st_rejected_draining :: u64
  st_rejected_full :: u64
  st_rejected_subprotocol :: u64
  st_rejected_replay :: u64
  st_draining :: bool
  st_drain_exits :: bool
  st_drain_active :: bool

record edge_node =
  node_stats :: edge_stats
  node_hub :: edge_hub
  node_auth :: token_set
  node_started_at_ms :: u64
  node_interval_s :: u64
  node_pending :: "(nat \<times> client_info) list"
  node_tasks :: "drain_pc list"
  node_exited :: bool

subsection \<open>Handshake\<close>

fun split_on :: "char \<Rightarrow> string \<Rightarrow> string list" where
  "split_on sep [] = [[]]"
| "split_on sep (c # cs) =
     (if c = sep then [] # split_on sep cs
      else case split_on sep cs of w # ws \<Rightarrow> (c # w) # ws | [] \<Rightarrow> [[c]])"

definition nonempty :: "string \<Rightarrow> string option" where
  "nonempty s = (if s = [] then None else Some s)"

definition bearer :: "string option \<Rightarrow> string option" where
  "bearer authorization = Option.bind (Option.bind authorization (strip_prefix ''Bearer '')) (\<lambda>v. nonempty (trim v))"

definition client_ip_of :: "string option \<Rightarrow> string \<Rightarrow> string" where
  "client_ip_of forwarded peer =
     (case Option.bind forwarded (\<lambda>v. nonempty (trim (hd (split_on CHR '','' v)))) of Some ip \<Rightarrow> ip | None \<Rightarrow> peer)"

definition parse_replay :: "string option \<Rightarrow> nat option" where
  "parse_replay value =
     (case map_option trim value of
        None \<Rightarrow> Some 0
      | Some n \<Rightarrow>
          if n = [] then Some 0
          else if n = ''all'' then Some MAX_REPLAY
          else case u64_from_str 10 dec_digit n of
                 Some k \<Rightarrow> if unat k \<le> MAX_REPLAY then Some (unat k) else None
               | None \<Rightarrow> None)"

definition subprotocol_offered :: "string option \<Rightarrow> bool" where
  "subprotocol_offered v = (case v of Some v \<Rightarrow> list_ex (\<lambda>p. trim p = SUBPROTOCOL) (split_on CHR '','' v) | None \<Rightarrow> False)"

record ws_request =
  rq_token :: "string option"
  rq_replay :: "string option"
  rq_authorization :: "string option"
  rq_protocols :: "string option"
  rq_forwarded_for :: "string option"
  rq_peer_ip :: string
  rq_peer_port :: u16

datatype rejection = MissingToken | InvalidToken | NodeDraining | NodeIsFull | NoSubprotocol | BadReplay

fun rejection_status :: "rejection \<Rightarrow> nat" where
  "rejection_status MissingToken = 401"
| "rejection_status InvalidToken = 401"
| "rejection_status NodeDraining = 503"
| "rejection_status NodeIsFull = 503"
| "rejection_status NoSubprotocol = 400"
| "rejection_status BadReplay = 400"

fun count_rejection :: "rejection \<Rightarrow> edge_stats \<Rightarrow> edge_stats" where
  "count_rejection MissingToken s = s\<lparr> st_rejected_token := st_rejected_token s + 1 \<rparr>"
| "count_rejection InvalidToken s = s\<lparr> st_rejected_token := st_rejected_token s + 1 \<rparr>"
| "count_rejection NodeDraining s = s\<lparr> st_rejected_draining := st_rejected_draining s + 1 \<rparr>"
| "count_rejection NodeIsFull s = s\<lparr> st_rejected_full := st_rejected_full s + 1 \<rparr>"
| "count_rejection NoSubprotocol s = s\<lparr> st_rejected_subprotocol := st_rejected_subprotocol s + 1 \<rparr>"
| "count_rejection BadReplay s = s\<lparr> st_rejected_replay := st_rejected_replay s + 1 \<rparr>"

definition reject :: "rejection \<Rightarrow> edge_node \<Rightarrow> (rejection + 'a) \<times> edge_node" where
  "reject why n =
     (Inl why, n\<lparr> node_stats := count_rejection why
        ((node_stats n)\<lparr> st_clients_rejected := st_clients_rejected (node_stats n) + 1 \<rparr>) \<rparr>)"

definition websocket ::
  "edge_config \<Rightarrow> ws_request \<Rightarrow> edge_node \<Rightarrow> (rejection + nat \<times> string \<times> string) \<times> edge_node" where
  "websocket cfg q n =
     (let secret = (case rq_token q of
                      Some t \<Rightarrow> t
                    | None \<Rightarrow> (case bearer (rq_authorization q) of Some t \<Rightarrow> t | None \<Rightarrow> []))
      in case token_check (node_auth n) secret of
           None \<Rightarrow> reject (if secret = [] then MissingToken else InvalidToken) n
         | Some tid \<Rightarrow>
             if st_draining (node_stats n) then reject NodeDraining n
             else if edge_clients (node_hub n) \<ge> cfg_max_clients cfg then reject NodeIsFull n
             else if \<not> subprotocol_offered (rq_protocols q) then reject NoSubprotocol n
             else case parse_replay (rq_replay q) of
                    None \<Rightarrow> reject BadReplay n
                  | Some replay \<Rightarrow> (Inr (replay, client_ip_of (rq_forwarded_for q) (rq_peer_ip q), tid), n))"

text \<open>An accepted request waits for the upgrade; its session registers the client.\<close>

definition handshake :: "edge_config \<Rightarrow> u64 \<Rightarrow> ws_request \<Rightarrow> edge_node \<Rightarrow> edge_node" where
  "handshake cfg now q n =
     (case websocket cfg q n of
        (Inl _, n) \<Rightarrow> n
      | (Inr (replay, ip, tid), n) \<Rightarrow>
          n\<lparr> node_pending := node_pending n @ [(replay, \<lparr> client_ip = ip, client_port = rq_peer_port q,
               client_token_id = Some tid, connected_at_ms = now \<rparr>)] \<rparr>)"

definition session_start :: "edge_node \<Rightarrow> edge_node" where
  "session_start n =
     (case node_pending n of
        [] \<Rightarrow> n
      | (replay, info) # rest \<Rightarrow>
          n\<lparr> node_stats := (node_stats n)\<lparr> st_clients_accepted := st_clients_accepted (node_stats n) + 1 \<rparr>,
             node_hub := snd (edge_subscribe replay info (node_hub n)), node_pending := rest \<rparr>)"

subsection \<open>Drain\<close>

definition start_drain :: "bool \<Rightarrow> edge_node \<Rightarrow> edge_node" where
  "start_drain exit_after n =
     (let s = node_stats n;
          s = (if exit_after then s\<lparr> st_drain_exits := True \<rparr> else s);
          s = s\<lparr> st_draining := True \<rparr>
      in if st_drain_active s then n\<lparr> node_stats := s \<rparr>
         else n\<lparr> node_stats := s\<lparr> st_drain_active := True \<rparr>, node_tasks := node_tasks n @ [LoopTest] \<rparr>)"

definition cancel_drain :: "edge_node \<Rightarrow> bool \<times> edge_node" where
  "cancel_drain n =
     (let s = node_stats n
      in if st_drain_exits s then (False, n) else (st_draining s, n\<lparr> node_stats := s\<lparr> st_draining := False \<rparr> \<rparr>))"

text \<open>One atomic step of a drain task; no program counter is left when the task has returned.\<close>

fun drain_task :: "edge_config \<Rightarrow> bool \<Rightarrow> drain_pc \<Rightarrow> edge_node \<Rightarrow> drain_pc option \<times> edge_node" where
  "drain_task cfg late LoopTest n = (Some (if st_draining (node_stats n) then LoopCount else LoopCancel), n)"
| "drain_task cfg late LoopCount n =
     (Some (if edge_clients (node_hub n) = 0 then LoopFinish else if late then LoopFinish else LoopRelease), n)"
| "drain_task cfg late LoopRelease n =
     (Some LoopTest, n\<lparr> node_hub := snd (edge_release (cfg_drain_batch cfg) CLOSE_RESTART (node_hub n)) \<rparr>)"
| "drain_task cfg late LoopCancel n = (None, n\<lparr> node_stats := (node_stats n)\<lparr> st_drain_active := False \<rparr> \<rparr>)"
| "drain_task cfg late LoopFinish n =
     (Some LoopExit, n\<lparr> node_stats := (node_stats n)\<lparr> st_drain_active := False \<rparr> \<rparr>)"
| "drain_task cfg late LoopExit n = (None, if st_drain_exits (node_stats n) then n\<lparr> node_exited := True \<rparr> else n)"

definition run_task :: "edge_config \<Rightarrow> nat \<Rightarrow> bool \<Rightarrow> edge_node \<Rightarrow> edge_node" where
  "run_task cfg k late n =
     (if k < length (node_tasks n)
      then case drain_task cfg late (node_tasks n ! k) n of
             (Some pc, n) \<Rightarrow> n\<lparr> node_tasks := (node_tasks n)[k := pc] \<rparr>
           | (None, n) \<Rightarrow> n\<lparr> node_tasks := take k (node_tasks n) @ drop (Suc k) (node_tasks n) \<rparr>
      else n)"

definition require_admin :: "edge_config \<Rightarrow> string option \<Rightarrow> bool" where
  "require_admin cfg authorization \<longleftrightarrow> cfg_admin_token cfg \<noteq> [] \<and> bearer authorization = Some (cfg_admin_token cfg)"

definition admin_drain :: "edge_config \<Rightarrow> string option \<Rightarrow> edge_node \<Rightarrow> edge_node" where
  "admin_drain cfg authorization n = (if require_admin cfg authorization then start_drain True n else n)"

definition admin_rebalance :: "edge_config \<Rightarrow> string option \<Rightarrow> nat \<Rightarrow> edge_node \<Rightarrow> edge_node" where
  "admin_rebalance cfg authorization cnt n =
     (if \<not> require_admin cfg authorization then n
      else if \<not> (1 \<le> cnt \<and> cnt \<le> 100) then n
      else n\<lparr> node_hub := snd (edge_release cnt CLOSE_RESTART (node_hub n)) \<rparr>)"

subsection \<open>Heartbeats\<close>

record directive =
  dir_drain :: bool
  dir_heartbeat_seconds :: u64
  dir_release :: u32
  dir_tokens :: "u64 \<times> token_grant list option"

definition build_heartbeat :: "edge_config \<Rightarrow> edge_node \<Rightarrow> node_heartbeat" where
  "build_heartbeat cfg n =
     (let draining = st_draining (node_stats n)
      in \<lparr> hb_node_id = cfg_node_id cfg, hb_started_at_ms = node_started_at_ms n,
           hb_advertise_host = cfg_advertise_host cfg, hb_port = cfg_advertise_port cfg, hb_tls = cfg_advertise_tls cfg,
           hb_path = WS_PATH, hb_subprotocol = SUBPROTOCOL,
           hb_ready = (\<not> draining \<and> st_upstream_connected (node_stats n)), hb_draining = draining,
           hb_clients = of_nat (edge_clients (node_hub n)), hb_max_clients = of_nat (cfg_max_clients cfg) \<rparr>)"

text \<open>The console's handler, for a body that is a heartbeat; the secret of the nodes and the stores are arguments.\<close>

definition console_heartbeat ::
  "'f f64_ops \<Rightarrow> ('f \<Rightarrow> int) \<Rightarrow> u64 \<Rightarrow> node_heartbeat \<Rightarrow> u64 \<Rightarrow> string \<Rightarrow> token_store \<Rightarrow> registry \<Rightarrow> directive option \<times> registry" where
  "console_heartbeat F floor_i64 now hb tokens_version ip store r =
     (if trim (hb_node_id hb) = [] then (None, r)
      else case registry_heartbeat F floor_i64 now hb ip r of
             (out, r) \<Rightarrow>
               (Some \<lparr> dir_drain = out_desired_drain out, dir_heartbeat_seconds = 0, dir_release = out_release out,
                  dir_tokens = token_directive tokens_version store \<rparr>, r))"

definition apply_directive :: "directive \<Rightarrow> edge_node \<Rightarrow> edge_node" where
  "apply_directive d n =
     (let n = (if dir_heartbeat_seconds d > 0 then n\<lparr> node_interval_s := dir_heartbeat_seconds d \<rparr> else n);
          n = (case apply_tokens (dir_tokens d) (node_auth n, node_hub n) of (auth, hub) \<Rightarrow> n\<lparr> node_auth := auth, node_hub := hub \<rparr>);
          n = (if dir_release d > 0
               then n\<lparr> node_hub := snd (edge_release (unat (dir_release d)) CLOSE_RESTART (node_hub n)) \<rparr> else n)
      in if dir_drain d then (if \<not> st_draining (node_stats n) then start_drain False n else n)
         else snd (cancel_drain n))"

subsection \<open>Runs\<close>

datatype node_op =
    NodeHandshake u64 ws_request
  | NodeSession
  | NodePublish edge_frame
  | NodeLeave u64
  | NodeWriter u64
  | NodeUpstream bool
  | NodeDirective directive
  | NodeRebalance "string option" nat
  | NodeAdminDrain "string option"
  | NodeTerminate
  | NodeTask nat bool

fun node_op_step :: "edge_config \<Rightarrow> node_op \<Rightarrow> edge_node \<Rightarrow> edge_node" where
  "node_op_step cfg (NodeHandshake now q) n = handshake cfg now q n"
| "node_op_step cfg NodeSession n = session_start n"
| "node_op_step cfg (NodePublish f) n = n\<lparr> node_hub := edge_publish f (node_hub n) \<rparr>"
| "node_op_step cfg (NodeLeave i) n = n\<lparr> node_hub := edge_unsubscribe i (node_hub n) \<rparr>"
| "node_op_step cfg (NodeWriter i) n = n\<lparr> node_hub := edge_step (WriterTake i) (node_hub n) \<rparr>"
| "node_op_step cfg (NodeUpstream b) n = n\<lparr> node_stats := (node_stats n)\<lparr> st_upstream_connected := b \<rparr> \<rparr>"
| "node_op_step cfg (NodeDirective d) n = apply_directive d n"
| "node_op_step cfg (NodeRebalance a k) n = admin_rebalance cfg a k n"
| "node_op_step cfg (NodeAdminDrain a) n = admin_drain cfg a n"
| "node_op_step cfg NodeTerminate n = start_drain True n"
| "node_op_step cfg (NodeTask k late) n = run_task cfg k late n"

definition node_step :: "edge_config \<Rightarrow> node_op \<Rightarrow> edge_node \<Rightarrow> edge_node" where
  "node_step cfg op n = (if node_exited n then n else node_op_step cfg op n)"

subsection \<open>An exit drain finishes\<close>

text \<open>
  Once an exit drain has begun with no request between handshake and session, the number of rounds left bounds the
  number of steps its task still takes.
\<close>

definition rounds_left :: "edge_config \<Rightarrow> edge_node \<Rightarrow> nat" where
  "rounds_left cfg n = (edge_clients (node_hub n) + cfg_drain_batch cfg - 1) div cfg_drain_batch cfg"

fun steps_left :: "nat \<Rightarrow> drain_pc \<Rightarrow> nat" where
  "steps_left d LoopTest = 3 * d + 4"
| "steps_left d LoopCount = 3 * d + 3"
| "steps_left d LoopRelease = max (3 * d + 2) 5"
| "steps_left d LoopCancel = 0"
| "steps_left d LoopFinish = 2"
| "steps_left d LoopExit = 1"

fun task_ok :: "nat \<Rightarrow> drain_pc \<Rightarrow> bool" where
  "task_ok clients LoopCancel = False"
| "task_ok clients LoopFinish = (clients = 0)"
| "task_ok clients LoopExit = (clients = 0)"
| "task_ok clients _ = True"

definition exit_drain :: "edge_config \<Rightarrow> nat \<Rightarrow> edge_node \<Rightarrow> bool" where
  "exit_drain cfg k n \<longleftrightarrow>
     (if node_exited n then edge_clients (node_hub n) = 0
      else st_draining (node_stats n) \<and> st_drain_exits (node_stats n) \<and> node_pending n = [] \<and>
        list_all (task_ok (edge_clients (node_hub n))) (node_tasks n) \<and>
        (case node_tasks n of [] \<Rightarrow> False | pc # _ \<Rightarrow> steps_left (rounds_left cfg n) pc \<le> k))"

lemma steps_left_mono: "d \<le> d' \<Longrightarrow> steps_left d pc \<le> steps_left d' pc"
  by (cases pc) auto

lemma task_ok_mono: "c' \<le> c \<Longrightarrow> task_ok c pc \<Longrightarrow> task_ok c' pc"
  by (cases pc) auto

lemma steps_left_pos: "task_ok c pc \<Longrightarrow> 0 < steps_left d pc"
  by (cases pc) auto

lemma rounds_left_mono: "edge_clients (node_hub n') \<le> edge_clients (node_hub n) \<Longrightarrow> rounds_left cfg n' \<le> rounds_left cfg n"
  unfolding rounds_left_def by (intro div_le_mono) simp

lemma edge_clients_shrink:
  "edge_clients (edge_publish f h) \<le> edge_clients h" "edge_clients (edge_unsubscribe i h) \<le> edge_clients h"
  "edge_clients (edge_step (WriterTake i) h) = edge_clients h"
  "edge_clients (drop_subscribers c ids h) \<le> edge_clients h"
  "edge_clients (snd (edge_release k c h)) \<le> edge_clients h" "edge_clients (snd (kick_tokens keep h)) \<le> edge_clients h"
  by (simp_all add: edge_clients_def edge_publish_def edge_unsubscribe_def drop_subscribers_def edge_release_def
      kick_tokens_def Let_def removeAll_filter_not_eq)

lemma edge_release_clients: "edge_clients (snd (edge_release k c h)) \<le> edge_clients h - k"
proof -
  have "length (filter (\<lambda>i. i \<notin> set ys) (ys @ zs)) \<le> length zs" for ys zs :: "u64 list"
    by (simp add: filter_empty_conv [THEN iffD2])
  from this [of "take k (edge_subs h)" "drop k (edge_subs h)"] show ?thesis
    by (simp add: edge_release_def Let_def drop_subscribers_def edge_clients_def)
qed

text \<open>Everything but the task leaves the drain alone and can only reduce the clients.\<close>

lemma exit_drain_shrink:
  assumes "exit_drain cfg k n" "\<not> node_exited n" "edge_clients (node_hub n') \<le> edge_clients (node_hub n)"
    and "st_draining (node_stats n')" "st_drain_exits (node_stats n')" "node_pending n' = []" "\<not> node_exited n'"
    and "node_tasks n' = node_tasks n \<or> node_tasks n' = node_tasks n @ [LoopTest]"
  shows "exit_drain cfg k n'"
proof -
  obtain pc ps where t: "node_tasks n = pc # ps" "steps_left (rounds_left cfg n) pc \<le> k"
    using assms(1,2) by (auto simp: exit_drain_def split: list.splits)
  have ok: "list_all (task_ok (edge_clients (node_hub n))) (node_tasks n)" using assms(1,2) by (simp add: exit_drain_def)
  have "steps_left (rounds_left cfg n') pc \<le> k"
    using steps_left_mono [OF rounds_left_mono [OF assms(3)], of cfg pc] t(2) by linarith
  moreover have "list_all (task_ok (edge_clients (node_hub n'))) (node_tasks n')"
    using assms(8) list.pred_mono_strong [OF ok] task_ok_mono [OF assms(3)] by auto
  ultimately show ?thesis using assms(4-8) t(1) by (auto simp: exit_drain_def)
qed

lemma start_drain_exit: "st_draining (node_stats (start_drain b n))" "st_drain_exits (node_stats n) \<Longrightarrow> st_drain_exits (node_stats (start_drain b n))"
  "node_hub (start_drain b n) = node_hub n" "node_pending (start_drain b n) = node_pending n" "node_exited (start_drain b n) = node_exited n"
  "node_tasks (start_drain b n) = node_tasks n \<or> node_tasks (start_drain b n) = node_tasks n @ [LoopTest]"
  by (auto simp: start_drain_def Let_def)

lemma exit_drain_start:
  assumes "exit_drain cfg k n" "\<not> node_exited n"
  shows "exit_drain cfg k (start_drain b n)"
proof (rule exit_drain_shrink [OF assms])
  show "st_drain_exits (node_stats (start_drain b n))"
    using assms by (intro start_drain_exit(2)) (simp add: exit_drain_def)
qed (use assms start_drain_exit(1,3-6) [of b n] in \<open>auto simp: exit_drain_def\<close>)

lemma exit_drain_websocket:
  "st_draining (node_stats n) \<Longrightarrow>
   \<exists>why s. websocket cfg q n = (Inl why, n\<lparr> node_stats := s \<rparr>) \<and> st_draining s = st_draining (node_stats n) \<and> st_drain_exits s = st_drain_exits (node_stats n)"
proof -
  have "st_draining (count_rejection w s) = st_draining s \<and> st_drain_exits (count_rejection w s) = st_drain_exits s" for w s
    by (cases w) auto
  thus "st_draining (node_stats n) \<Longrightarrow> ?thesis"
    by (auto simp: websocket_def Let_def reject_def split: option.split)
qed

lemma exit_drain_handshake:
  assumes "exit_drain cfg k n" "\<not> node_exited n"
  shows "exit_drain cfg k (handshake cfg now q n)"
proof -
  have d: "st_draining (node_stats n)" "st_drain_exits (node_stats n)" "node_pending n = []"
    using assms by (simp_all add: exit_drain_def)
  obtain why s where w: "websocket cfg q n = (Inl why, n\<lparr> node_stats := s \<rparr>)" "st_draining s" "st_drain_exits s"
    using exit_drain_websocket [OF d(1), of cfg q] d by auto
  show ?thesis by (rule exit_drain_shrink [OF assms]) (use w d assms(2) in \<open>simp_all add: handshake_def\<close>)
qed

lemma apply_tokens_shrink: "edge_clients (snd (apply_tokens d (auth, hub))) \<le> edge_clients hub"
  by (auto simp: apply_tokens_def edge_clients_shrink split: option.split prod.split)

lemma exit_drain_directive:
  assumes "exit_drain cfg k n" "\<not> node_exited n"
  shows "exit_drain cfg k (apply_directive d n)"
proof -
  have f: "st_draining (node_stats n)" "st_drain_exits (node_stats n)" "node_pending n = []"
    using assms by (simp_all add: exit_drain_def)
  have le: "edge_clients (node_hub (apply_directive d n)) \<le> edge_clients (node_hub n)"
    using f apply_tokens_shrink [of "dir_tokens d" "node_auth n" "node_hub n"]
    by (auto simp: apply_directive_def Let_def cancel_drain_def split: prod.split
        intro: order_trans [OF edge_clients_shrink(5)])
  show ?thesis
    by (rule exit_drain_shrink [OF assms le])
      (use f assms(2) in \<open>auto simp: apply_directive_def Let_def cancel_drain_def split: prod.split\<close>)
qed

lemma rounds_left_release:
  assumes "0 < cfg_drain_batch cfg" "edge_clients (node_hub n) = c" "edge_clients (node_hub n') \<le> c - cfg_drain_batch cfg"
  shows "rounds_left cfg n' \<le> rounds_left cfg n - 1"
proof -
  let ?b = "cfg_drain_batch cfg"
  have "rounds_left cfg n' \<le> (c - ?b + ?b - 1) div ?b"
    unfolding rounds_left_def using assms(3) by (intro div_le_mono) simp
  also have "\<dots> \<le> (c + ?b - 1) div ?b - 1"
  proof (cases "?b \<le> c")
    case True
    hence "(c + ?b - 1) div ?b = Suc ((c - 1) div ?b)"
      using assms(1) by (metis Nat.add_diff_assoc2 One_nat_def Suc_leI add.commute div_add_self2 less_le_trans not_less0 bot_nat_0.not_eq_extremum plus_1_eq_Suc)
    thus ?thesis using True by simp
  next
    case False
    hence "(c - ?b + ?b - 1) div ?b = 0" using assms(1) by simp
    thus ?thesis by simp
  qed
  finally show ?thesis by (simp add: rounds_left_def assms(2))
qed

text \<open>One step of a task, seen from the whole list.\<close>

lemma drain_task_shrink:
  assumes "drain_task cfg False pc n = (pc', n')" "task_ok (edge_clients (node_hub n)) pc"
    and "st_draining (node_stats n)" "st_drain_exits (node_stats n)"
  shows "edge_clients (node_hub n') \<le> edge_clients (node_hub n)" "st_draining (node_stats n')" "st_drain_exits (node_stats n')"
    "node_pending n' = node_pending n" "node_tasks n' = node_tasks n"
    "case pc' of Some pc \<Rightarrow> task_ok (edge_clients (node_hub n')) pc \<and> node_exited n' = node_exited n
       | None \<Rightarrow> node_exited n' \<and> edge_clients (node_hub n') = 0"
  using assms by (cases pc; auto simp: edge_clients_shrink split: if_splits)+

lemma drain_task_progress:
  assumes "drain_task cfg False pc n = (Some pc', n')" "task_ok (edge_clients (node_hub n)) pc"
    and "st_draining (node_stats n)" "0 < cfg_drain_batch cfg"
  shows "Suc (steps_left (rounds_left cfg n') pc') \<le> steps_left (rounds_left cfg n) pc"
proof (cases pc)
  case LoopCount
  have "edge_clients (node_hub n) \<noteq> 0 \<Longrightarrow> 0 < rounds_left cfg n"
    using assms(4) by (simp add: rounds_left_def div_greater_zero_iff)
  thus ?thesis using assms LoopCount by (auto simp: max_def split: if_splits)
next
  case LoopRelease
  have "rounds_left cfg n' \<le> rounds_left cfg n - 1"
    using rounds_left_release [OF assms(4) refl, of n' n] edge_release_clients [of "cfg_drain_batch cfg" CLOSE_RESTART "node_hub n"]
      assms(1) LoopRelease by auto
  thus ?thesis using assms(1) LoopRelease by (auto simp: max_def)
qed (use assms in \<open>auto simp: rounds_left_def split: if_splits\<close>)

lemma exit_drain_task:
  assumes "exit_drain cfg k n" "\<not> node_exited n" "0 < cfg_drain_batch cfg"
  shows "exit_drain cfg (if j = 0 then k - 1 else k) (run_task cfg j False n)"
proof (cases "j < length (node_tasks n)")
  case False
  hence "j \<noteq> 0" using assms(1,2) by (cases "node_tasks n") (auto simp: exit_drain_def)
  thus ?thesis using False assms(1) by (simp add: run_task_def)
next
  case True
  let ?pc = "node_tasks n ! j"
  obtain p ps where t: "node_tasks n = p # ps" "steps_left (rounds_left cfg n) p \<le> k"
    using assms(1,2) by (auto simp: exit_drain_def split: list.splits)
  have d: "st_draining (node_stats n)" "st_drain_exits (node_stats n)" "node_pending n = []"
    "list_all (task_ok (edge_clients (node_hub n))) (node_tasks n)" using assms(1,2) by (simp_all add: exit_drain_def)
  have ok: "task_ok (edge_clients (node_hub n)) ?pc" using d(4) True by (simp add: list_all_length)
  obtain pc' n' where dt: "drain_task cfg False ?pc n = (pc', n')" by (metis prod.exhaust)
  note sh = drain_task_shrink [OF dt ok d(1,2)]
  show ?thesis
  proof (cases pc')
    case None
    hence "node_exited (run_task cfg j False n)" "edge_clients (node_hub (run_task cfg j False n)) = 0"
      using sh(6) True dt by (simp_all add: run_task_def)
    thus ?thesis by (simp add: exit_drain_def)
  next
    case (Some pc)
    have run: "run_task cfg j False n = n'\<lparr> node_tasks := (node_tasks n)[j := pc] \<rparr>"
      using Some True dt sh(5) by (simp add: run_task_def)
    have "list_all (task_ok (edge_clients (node_hub n'))) (node_tasks n)"
      using list.pred_mono_strong [OF d(4)] task_ok_mono [OF sh(1)] by blast
    hence all: "list_all (task_ok (edge_clients (node_hub n'))) ((node_tasks n)[j := pc])"
      using sh(6) Some set_update_subset_insert [of "node_tasks n" j pc] by (auto simp: list_all_iff)
    have "steps_left (rounds_left cfg n') (hd ((node_tasks n)[j := pc])) \<le> (if j = 0 then k - 1 else k)"
    proof (cases j)
      case 0
      thus ?thesis using drain_task_progress [OF dt [unfolded Some] ok d(1) assms(3)] t by simp
    next
      case (Suc i)
      thus ?thesis using steps_left_mono [OF rounds_left_mono [OF sh(1)], of cfg p] t by simp
    qed
    moreover have "\<not> node_exited n'" using sh(6) Some assms(2) by simp
    ultimately show ?thesis using all sh(2,3,4) d(3) t(1) unfolding run
      by (cases "(node_tasks n)[j := pc]") (simp_all add: exit_drain_def rounds_left_def split: nat.splits)
  qed
qed

lemma exit_drain_step:
  assumes "exit_drain cfg k n" "0 < cfg_drain_batch cfg" "\<And>j. op \<noteq> NodeTask j True"
  shows "exit_drain cfg (k - (if op = NodeTask 0 False then 1 else 0)) (node_step cfg op n)"
proof (cases "node_exited n")
  case True
  thus ?thesis using assms(1) by (simp add: node_step_def exit_drain_def)
next
  case False
  have st: "node_step cfg op n = node_op_step cfg op n" using False by (simp add: node_step_def)
  have f: "st_draining (node_stats n)" "st_drain_exits (node_stats n)" "node_pending n = []"
    using assms(1) False by (simp_all add: exit_drain_def)
  note shrink = exit_drain_shrink [OF assms(1) False]
  show ?thesis
  proof (cases op)
    case (NodeTask j late)
    hence "late = False" using assms(3) [of j] by simp
    thus ?thesis using exit_drain_task [OF assms(1) False assms(2), of j] NodeTask st by auto
  next
    case NodeSession
    thus ?thesis using assms(1) f(3) st by (simp add: session_start_def)
  next
    case (NodeWriter i)
    have "exit_drain cfg k (node_op_step cfg op n)"
      by (rule shrink) (use NodeWriter f False in \<open>simp_all add: edge_clients_def\<close>)
    thus ?thesis unfolding st using NodeWriter by simp
  qed (use f False assms(1) st in \<open>auto simp: admin_rebalance_def admin_drain_def edge_clients_shrink exit_drain_handshake
         exit_drain_directive exit_drain_start intro!: shrink\<close>)
qed

lemma exit_drain_run:
  "exit_drain cfg k n \<Longrightarrow> 0 < cfg_drain_batch cfg \<Longrightarrow> \<forall>j. NodeTask j True \<notin> set ops \<Longrightarrow>
   exit_drain cfg (k - count_list ops (NodeTask 0 False)) (fold (node_step cfg) ops n)"
proof (induction ops arbitrary: k n)
  case (Cons op ops)
  have "exit_drain cfg (k - (if op = NodeTask 0 False then 1 else 0)) (node_step cfg op n)"
    using Cons.prems by (intro exit_drain_step) auto
  from Cons.IH [OF this] Cons.prems(2,3) show ?case by (simp split: if_splits)
qed simp

lemma exit_drain_zero: "exit_drain cfg 0 n \<Longrightarrow> node_exited n"
proof (rule ccontr)
  assume "exit_drain cfg 0 n" "\<not> node_exited n"
  then obtain pc ps where "task_ok (edge_clients (node_hub n)) pc" "steps_left (rounds_left cfg n) pc = 0"
    by (auto simp: exit_drain_def split: list.splits)
  thus False using steps_left_pos by (metis less_irrefl)
qed


subsection \<open>A drain that is lost\<close>

definition drain_lost :: "edge_node \<Rightarrow> bool" where
  "drain_lost n \<longleftrightarrow> \<not> node_exited n \<and> node_tasks n = [] \<and> st_draining (node_stats n) \<and> st_drain_exits (node_stats n)"

lemma directive_flags:
  "\<not> dir_drain d \<or> st_draining (node_stats n) \<Longrightarrow>
   node_tasks (apply_directive d n) = node_tasks n \<and> node_exited (apply_directive d n) = node_exited n \<and>
   node_stats (apply_directive d n) =
     (if dir_drain d \<or> st_drain_exits (node_stats n) then node_stats n else (node_stats n)\<lparr> st_draining := False \<rparr>)"
  by (cases "apply_tokens (dir_tokens d) (node_auth n, node_hub n)"; cases "dir_drain d")
    (simp_all add: apply_directive_def Let_def cancel_drain_def)

lemma drain_lost_step:
  assumes "drain_lost n" "\<And>a. op \<noteq> NodeAdminDrain a" "op \<noteq> NodeTerminate"
  shows "drain_lost (node_step cfg op n)"
proof -
  have f: "\<not> node_exited n" "node_tasks n = []" "st_draining (node_stats n)" "st_drain_exits (node_stats n)"
    using assms(1) by (simp_all add: drain_lost_def)
  show ?thesis
  proof (cases op)
    case (NodeHandshake now q)
    thus ?thesis using f exit_drain_websocket [OF f(3), of cfg q]
      by (auto simp: drain_lost_def node_step_def handshake_def)
  next
    case (NodeDirective d)
    thus ?thesis using f directive_flags [of d n] by (simp add: drain_lost_def node_step_def)
  qed (use f assms in \<open>auto simp: drain_lost_def node_step_def session_start_def admin_rebalance_def run_task_def
         split: list.split\<close>)
qed

lemma drain_lost_run:
  "drain_lost n \<Longrightarrow> \<forall>a. NodeAdminDrain a \<notin> set ops \<Longrightarrow> NodeTerminate \<notin> set ops \<Longrightarrow> drain_lost (fold (node_step cfg) ops n)"
proof (induction ops arbitrary: n)
  case (Cons op ops)
  have "drain_lost (node_step cfg op n)" using Cons.prems by (intro drain_lost_step) auto
  thus ?case using Cons.IH Cons.prems(2,3) by simp
qed simp

text \<open>
  C36: A drain ordered by the administrator can be lost.  A drain of the console is running, the console
  takes it back, and the order arrives after the loop has seen that and before it has
  marked itself as ended: the order finds the loop marked as running and starts none.
  From then on, until another drain is ordered, nothing releases the clients and the
  process does not exit, while new clients are refused and the console cannot undo it.
\<close>

theorem admin_drain_lost:
  assumes "\<not> node_exited n" "node_tasks n = [LoopTest]" "st_drain_active (node_stats n)" "\<not> st_drain_exits (node_stats n)"
    and "require_admin cfg a" "\<not> dir_drain d"
    and "\<forall>a. NodeAdminDrain a \<notin> set ops" "NodeTerminate \<notin> set ops"
  shows "let m = fold (node_step cfg) ([NodeDirective d, NodeTask 0 late, NodeAdminDrain a, NodeTask 0 late] @ ops) n
    in \<not> node_exited m \<and> node_tasks m = [] \<and> st_draining (node_stats m) \<and> \<not> fst (cancel_drain m) \<and>
      (\<exists>why. fst (websocket cfg q m) = Inl why)"
proof -
  let ?m = "fold (node_step cfg) [NodeDirective d, NodeTask 0 late, NodeAdminDrain a, NodeTask 0 late] n"
  have "drain_lost ?m"
    using assms(1-6) directive_flags [of d n]
    by (simp add: drain_lost_def node_step_def run_task_def admin_drain_def start_drain_def Let_def)
  hence "drain_lost (fold (node_step cfg) ops ?m)" using assms(7,8) by (rule drain_lost_run)
  thus ?thesis using exit_drain_websocket [of "fold (node_step cfg) ops ?m" cfg q]
    by (auto simp: Let_def drain_lost_def cancel_drain_def)
qed

subsection \<open>Witnesses\<close>

definition sample_edge_config :: edge_config where
  "sample_edge_config =
     \<lparr> cfg_node_id = ''edge-1'', cfg_advertise_host = [], cfg_advertise_port = 8012, cfg_advertise_tls = False,
       cfg_max_clients = 10, cfg_admin_token = ''s'', cfg_drain_batch = 2 \<rparr>"

definition sample_node :: edge_node where
  "sample_node =
     \<lparr> node_stats = \<lparr> st_upstream_connected = True, st_clients_accepted = 0, st_clients_rejected = 0, st_rejected_token = 0,
         st_rejected_draining = 0, st_rejected_full = 0, st_rejected_subprotocol = 0, st_rejected_replay = 0,
         st_draining = False, st_drain_exits = False, st_drain_active = False \<rparr>,
       node_hub = snd (edge_subscribe 0 (sample_client None) (snd (edge_subscribe 0 (sample_client None) (edge_hub_new 4 4)))),
       node_auth = token_set_new [], node_started_at_ms = 1, node_interval_s = 5, node_pending = [], node_tasks = [],
       node_exited = False \<rparr>"

definition sample_undrain :: directive where
  "sample_undrain = \<lparr> dir_drain = False, dir_heartbeat_seconds = 0, dir_release = 0, dir_tokens = (0, None) \<rparr>"


theorem admin_drain_lost_witness:
  "node_tasks (fold (node_step sample_edge_config)
     ([NodeDirective sample_undrain, NodeTask 0 False, NodeAdminDrain (Some ''Bearer s''), NodeTask 0 False] @ [NodeTask 0 True])
     (start_drain False sample_node)) = []"
proof -
  have "require_admin sample_edge_config (Some ''Bearer s'')" by code_simp
  moreover have "\<not> node_exited (start_drain False sample_node)" "node_tasks (start_drain False sample_node) = [LoopTest]"
    "st_drain_active (node_stats (start_drain False sample_node))" "\<not> st_drain_exits (node_stats (start_drain False sample_node))"
    "\<not> dir_drain sample_undrain"
    by (simp_all add: start_drain_def sample_node_def sample_undrain_def)
  moreover have "\<forall>a. NodeAdminDrain a \<notin> set [NodeTask 0 True]" "NodeTerminate \<notin> set [NodeTask 0 True]" by simp_all
  ultimately show ?thesis using admin_drain_lost [of "start_drain False sample_node" sample_edge_config "Some ''Bearer s''" sample_undrain
      "[NodeTask 0 True]" False] unfolding Let_def by blast
qed

end
