(* ===== verification/Edge_Upstream.thy ===== *)
theory Edge_Upstream
  imports Edge_Frame Edge_Node
begin

text \<open>
  \<open>edge/upstream.rs\<close>: the one connection of an edge node to its upstream.  A pass of the
  loop dials, reads messages until the session ends and remembers the cursor.  What
  the network does (whether the dial and the negotiation succeed, the messages, whether the session lived
  thirty seconds) is the argument of a pass; the URLs dialed and the frames handed to the hub are kept
  as histories.
\<close>

definition BACKOFF_MIN :: nat where "BACKOFF_MIN = 1"
definition BACKOFF_MAX :: nat where "BACKOFF_MAX = 15"
definition CURSOR_REJECTED :: u16 where "CURSOR_REJECTED = 1013"
definition LIVE_LAG_MAX_US :: u64 where "LIVE_LAG_MAX_US = 10000000"

subsection \<open>The URL\<close>

definition url_path :: "string \<Rightarrow> string" where
  "url_path base = takeWhile (\<lambda>c. c \<noteq> CHR ''?'') base"

definition url_query :: "string \<Rightarrow> string" where
  "url_query base = drop 1 (dropWhile (\<lambda>c. c \<noteq> CHR ''?'') base)"

fun join_amp :: "string list \<Rightarrow> string" where
  "join_amp [] = []"
| "join_amp [p] = p"
| "join_amp (p # ps) = p @ ''&'' @ join_amp ps"

definition is_cursor_param :: "string \<Rightarrow> bool" where
  "is_cursor_param kv \<longleftrightarrow> take 15 kv = ''after_sequence=''"

definition dial_url :: "string \<Rightarrow> u64 \<Rightarrow> bool \<Rightarrow> string" where
  "dial_url base last_seq cursor_rejected =
     (let keep_configured = (last_seq = 0 \<and> \<not> cursor_rejected);
          params = filter (\<lambda>kv. kv \<noteq> [] \<and> (keep_configured \<or> \<not> is_cursor_param kv)) (split_on CHR ''&'' (url_query base));
          params = params @ (if last_seq > 0 \<and> \<not> cursor_rejected then [''after_sequence='' @ nat_decimal (unat last_seq)] else [])
      in if params = [] then url_path base else url_path base @ ''?'' @ join_amp params)"

subsection \<open>Frames\<close>

record upstream =
  up_base :: string
  up_backoff_s :: nat
  up_last_event_sequence :: u64
  up_cursor_rejected :: bool
  up_first :: bool
  up_reconnects :: u64
  up_connected :: bool
  up_frames_total :: u64
  up_bytes_total :: u64
  up_bad_frames_total :: u64
  up_stat_last_sequence :: u64
  up_last_frame_at_ms :: u64
  up_lag_last_us :: u64
  up_lag_max_us :: u64
  up_hub :: edge_hub
  up_published :: "edge_frame list"
  up_dialed :: "string list"

definition upstream_start :: "string \<Rightarrow> edge_hub \<Rightarrow> upstream" where
  "upstream_start base hub =
     \<lparr> up_base = base, up_backoff_s = BACKOFF_MIN, up_last_event_sequence = 0, up_cursor_rejected = False,
       up_first = True, up_reconnects = 0, up_connected = False, up_frames_total = 0, up_bytes_total = 0,
       up_bad_frames_total = 0, up_stat_last_sequence = 0, up_last_frame_at_ms = 0, up_lag_last_us = 0, up_lag_max_us = 0,
       up_hub = hub, up_published = [], up_dialed = [] \<rparr>"

definition frame_sequences :: "(bytes \<Rightarrow> nat \<Rightarrow> bytes option) \<Rightarrow> u64 \<Rightarrow> bytes \<Rightarrow> u64 \<times> u64" where
  "frame_sequences D last_seq bs =
     (case parse_frame D bs of
        Inr info \<Rightarrow> (info_batch_sequence info,
                     if last_event_sequence info > 0 then last_event_sequence info else last_seq)
      | Inl _ \<Rightarrow> (0, last_seq))"

definition record_lag :: "(bytes \<Rightarrow> nat \<Rightarrow> bytes option) \<Rightarrow> u64 \<Rightarrow> bytes \<Rightarrow> upstream \<Rightarrow> upstream" where
  "record_lag D recv_at_us bs u =
     (case parse_frame D bs of
        Inl _ \<Rightarrow> u\<lparr> up_bad_frames_total := up_bad_frames_total u + 1 \<rparr>
      | Inr info \<Rightarrow>
          (let lag = saturating_sub recv_at_us (sent_at_us info)
           in if sent_at_us info > 0 \<and> lag \<le> LIVE_LAG_MAX_US
              then u\<lparr> up_lag_last_us := lag, up_lag_max_us := max (up_lag_max_us u) lag \<rparr> else u))"

definition on_frame :: "(bytes \<Rightarrow> nat \<Rightarrow> bytes option) \<Rightarrow> u64 \<Rightarrow> bytes \<Rightarrow> upstream \<Rightarrow> upstream" where
  "on_frame D recv_at_us bs u =
     (let (batch, seq) = frame_sequences D (up_last_event_sequence u) bs;
          u = record_lag D recv_at_us bs u;
          f = \<lparr> ef_batch_sequence = batch, ef_event_sequence = seq, ef_bytes = bs, ef_recv_at_us = recv_at_us \<rparr>
      in u\<lparr> up_last_event_sequence := seq, up_stat_last_sequence := seq, up_frames_total := up_frames_total u + 1,
            up_bytes_total := up_bytes_total u + of_nat (length bs), up_last_frame_at_ms := recv_at_us div 1000,
            up_hub := edge_publish f (up_hub u), up_published := up_published u @ [f] \<rparr>)"

subsection \<open>Sessions\<close>

datatype up_message = UpBinary u64 bytes | UpClose "u16 option" | UpOther

datatype session_end = CursorRejected | SessionEnded

fun read_messages ::
  "(bytes \<Rightarrow> nat \<Rightarrow> bytes option) \<Rightarrow> up_message list \<Rightarrow> upstream \<Rightarrow> session_end \<times> upstream" where
  "read_messages D [] u = (SessionEnded, u)"
| "read_messages D (UpBinary at bs # ms) u = read_messages D ms (on_frame D at bs u)"
| "read_messages D (UpClose code # ms) u = (if code = Some CURSOR_REJECTED then CursorRejected else SessionEnded, u)"
| "read_messages D (UpOther # ms) u = read_messages D ms u"

record up_session =
  us_connects :: bool
  us_negotiated :: "string option"
  us_messages :: "up_message list"
  us_long :: bool

definition upstream_session ::
  "(bytes \<Rightarrow> nat \<Rightarrow> bytes option) \<Rightarrow> up_session \<Rightarrow> upstream \<Rightarrow> session_end \<times> upstream" where
  "upstream_session D s u =
     (if \<not> us_connects s then (SessionEnded, u)
      else if map_option trim (us_negotiated s) \<noteq> Some SUBPROTOCOL then (SessionEnded, u)
      else read_messages D (us_messages s) (u\<lparr> up_connected := True \<rparr>))"

definition upstream_pass :: "(bytes \<Rightarrow> nat \<Rightarrow> bytes option) \<Rightarrow> up_session \<Rightarrow> upstream \<Rightarrow> upstream" where
  "upstream_pass D s u =
     (let u = (if up_first u then u
               else u\<lparr> up_reconnects := up_reconnects u + 1, up_backoff_s := min (up_backoff_s u * 2) BACKOFF_MAX \<rparr>);
          url = dial_url (up_base u) (up_last_event_sequence u) (up_cursor_rejected u);
          u = u\<lparr> up_first := False, up_dialed := up_dialed u @ [url] \<rparr>
      in case upstream_session D s u of
           (e, u) \<Rightarrow>
             (let u = (if e = CursorRejected then u\<lparr> up_cursor_rejected := True \<rparr> else u);
                  u = u\<lparr> up_connected := False \<rparr>
              in if us_long s then u\<lparr> up_backoff_s := BACKOFF_MIN \<rparr> else u))"

definition run_upstream :: "(bytes \<Rightarrow> nat \<Rightarrow> bytes option) \<Rightarrow> up_session list \<Rightarrow> upstream \<Rightarrow> upstream" where
  "run_upstream D = fold (upstream_pass D)"

subsection \<open>Cursors in URLs\<close>

definition url_cursor :: "string \<Rightarrow> u64 option" where
  "url_cursor url =
     Option.bind (find is_cursor_param (split_on CHR ''&'' (url_query url))) (\<lambda>kv. u64_from_str 10 dec_digit (drop 15 kv))"

definition has_cursor :: "string \<Rightarrow> bool" where
  "has_cursor url = list_ex is_cursor_param (split_on CHR ''&'' (url_query url))"

lemma split_on_pieces: "p \<in> set (split_on c s) \<Longrightarrow> c \<notin> set p"
  by (induction c s arbitrary: p rule: split_on.induct) (auto split: if_splits list.splits)

lemma split_on_nonempty: "split_on c s \<noteq> []"
  by (induction c s rule: split_on.induct) (auto split: list.splits)

lemma split_on_single: "c \<notin> set p \<Longrightarrow> split_on c p = [p]"
  by (induction p) auto

lemma split_on_append: "c \<notin> set p \<Longrightarrow> split_on c (p @ c # s) = p # split_on c s"
  by (induction p) auto

lemma split_join: "ps \<noteq> [] \<Longrightarrow> \<forall>p\<in>set ps. CHR ''&'' \<notin> set p \<Longrightarrow> split_on CHR ''&'' (join_amp ps) = ps"
  by (induction ps rule: join_amp.induct) (simp_all add: split_on_single split_on_append)

lemma url_query_path: "url_query (url_path base) = []" "url_query (url_path base @ ''?'' @ q) = q"
proof -
  have "dropWhile (\<lambda>c. c \<noteq> CHR ''?'') (takeWhile (\<lambda>c. c \<noteq> CHR ''?'') base) = []"
    by (auto simp: dropWhile_eq_Nil_conv dest: set_takeWhileD)
  thus "url_query (url_path base) = []" unfolding url_query_def url_path_def by (simp only: drop_Nil)
  have "dropWhile (\<lambda>c. c \<noteq> CHR ''?'') (takeWhile (\<lambda>c. c \<noteq> CHR ''?'') base @ ''?'' @ q) = ''?'' @ q"
    by (subst dropWhile_append2) (auto dest: set_takeWhileD)
  thus "url_query (url_path base @ ''?'' @ q) = q" by (simp add: url_query_def url_path_def)
qed

definition dial_params :: "string \<Rightarrow> u64 \<Rightarrow> bool \<Rightarrow> string list" where
  "dial_params base l rej =
     filter (\<lambda>kv. kv \<noteq> [] \<and> (l = 0 \<and> \<not> rej \<or> \<not> is_cursor_param kv)) (split_on CHR ''&'' (url_query base)) @
     (if l > 0 \<and> \<not> rej then [''after_sequence='' @ nat_decimal (unat l)] else [])"

lemma nat_decimal_no_amp: "CHR ''&'' \<notin> set (nat_decimal n)"
proof
  assume "CHR ''&'' \<in> set (nat_decimal n)"
  moreover have "list_all (\<lambda>c. dec_digit c \<noteq> None) (nat_decimal n)" using nat_decimal_digits [of n] by blast
  ultimately have "dec_digit CHR ''&'' \<noteq> None" by (auto simp: list_all_iff)
  thus False by (simp add: dec_digit_def)
qed

lemma dial_params_split:
  "split_on CHR ''&'' (url_query (dial_url base l rej)) = (if dial_params base l rej = [] then [[]] else dial_params base l rej)"
proof -
  have eq: "dial_url base l rej =
      (if dial_params base l rej = [] then url_path base else url_path base @ ''?'' @ join_amp (dial_params base l rej))"
    by (simp add: dial_url_def dial_params_def Let_def)
  have "\<forall>p\<in>set (dial_params base l rej). CHR ''&'' \<notin> set p"
    using split_on_pieces [of _ "CHR ''&''" "url_query base"] nat_decimal_no_amp by (auto simp: dial_params_def)
  thus ?thesis using split_join [of "dial_params base l rej"] unfolding eq by (simp only: url_query_path if_cancel split: if_split) simp
qed

lemma rejected_no_cursor: "\<not> has_cursor (dial_url base l True)"
  by (auto simp: has_cursor_def dial_params_split list_ex_iff is_cursor_param_def) (simp add: dial_params_def is_cursor_param_def)

lemma dial_cursor:
  assumes "0 < l"
  shows "url_cursor (dial_url base l False) = Some l"
proof -
  let ?c = "''after_sequence='' @ nat_decimal (unat l)"
  have "find is_cursor_param (xs @ [?c]) = Some ?c" if "\<forall>x\<in>set xs. \<not> is_cursor_param x" for xs
    using that by (induction xs) (auto simp: is_cursor_param_def)
  moreover have "dial_params base l False =
      filter (\<lambda>kv. kv \<noteq> [] \<and> \<not> is_cursor_param kv) (split_on CHR ''&'' (url_query base)) @ [?c]"
    using assms by (simp add: dial_params_def word_gt_0)
  ultimately have "find is_cursor_param (split_on CHR ''&'' (url_query (dial_url base l False))) = Some ?c"
    by (simp add: dial_params_split)
  moreover have "u64_from_str 10 dec_digit (nat_decimal (unat l)) = Some l" by (rule u64_from_nat_decimal)
  ultimately show ?thesis by (simp add: url_cursor_def)
qed

subsection \<open>A rejected cursor\<close>

lemma on_frame_keeps [simp]:
  "up_base (on_frame D at bs u) = up_base u" "up_cursor_rejected (on_frame D at bs u) = up_cursor_rejected u"
  "up_dialed (on_frame D at bs u) = up_dialed u"
  by (auto simp: on_frame_def record_lag_def Let_def split: prod.split sum.split)

lemma read_messages_keeps [simp]:
  "up_base (snd (read_messages D ms u)) = up_base u" "up_cursor_rejected (snd (read_messages D ms u)) = up_cursor_rejected u"
  "up_dialed (snd (read_messages D ms u)) = up_dialed u"
  by (induction D ms u rule: read_messages.induct) simp_all

lemma session_keeps [simp]:
  "up_base (snd (upstream_session D s u)) = up_base u" "up_cursor_rejected (snd (upstream_session D s u)) = up_cursor_rejected u"
  "up_dialed (snd (upstream_session D s u)) = up_dialed u"
  by (simp_all add: upstream_session_def)

definition dialing :: "upstream \<Rightarrow> upstream" where
  "dialing u =
     (let u = (if up_first u then u
               else u\<lparr> up_reconnects := up_reconnects u + 1, up_backoff_s := min (up_backoff_s u * 2) BACKOFF_MAX \<rparr>)
      in u\<lparr> up_first := False,
            up_dialed := up_dialed u @ [dial_url (up_base u) (up_last_event_sequence u) (up_cursor_rejected u)] \<rparr>)"

lemma dialing_fields [simp]:
  "up_base (dialing u) = up_base u" "up_cursor_rejected (dialing u) = up_cursor_rejected u"
  "up_last_event_sequence (dialing u) = up_last_event_sequence u" "up_published (dialing u) = up_published u"
  "up_dialed (dialing u) = up_dialed u @ [dial_url (up_base u) (up_last_event_sequence u) (up_cursor_rejected u)]"
  by (simp_all add: dialing_def Let_def)

lemma upstream_pass_fields:
  "up_base (upstream_pass D s u) = up_base u"
  "up_dialed (upstream_pass D s u) = up_dialed u @ [dial_url (up_base u) (up_last_event_sequence u) (up_cursor_rejected u)]"
  "up_cursor_rejected (upstream_pass D s u) =
     (up_cursor_rejected u \<or> fst (upstream_session D s (dialing u)) = CursorRejected)"
  "up_last_event_sequence (upstream_pass D s u) = up_last_event_sequence (snd (upstream_session D s (dialing u)))"
  "up_published (upstream_pass D s u) = up_published (snd (upstream_session D s (dialing u)))"
proof -
  have eq: "upstream_pass D s u =
     (let (e, v) = upstream_session D s (dialing u);
          v = (if e = CursorRejected then v\<lparr> up_cursor_rejected := True \<rparr> else v);
          v = v\<lparr> up_connected := False \<rparr>
      in if us_long s then v\<lparr> up_backoff_s := BACKOFF_MIN \<rparr> else v)"
    by (simp add: upstream_pass_def dialing_def Let_def case_prod_beta)
  show "up_base (upstream_pass D s u) = up_base u"
    "up_dialed (upstream_pass D s u) = up_dialed u @ [dial_url (up_base u) (up_last_event_sequence u) (up_cursor_rejected u)]"
    "up_cursor_rejected (upstream_pass D s u) =
      (up_cursor_rejected u \<or> fst (upstream_session D s (dialing u)) = CursorRejected)"
    "up_last_event_sequence (upstream_pass D s u) = up_last_event_sequence (snd (upstream_session D s (dialing u)))"
    "up_published (upstream_pass D s u) = up_published (snd (upstream_session D s (dialing u)))"
    unfolding eq by (simp_all add: Let_def case_prod_beta)
qed

lemma rejected_run:
  "up_cursor_rejected u \<Longrightarrow>
   \<exists>urls. up_dialed (run_upstream D ss u) = up_dialed u @ urls \<and> length urls = length ss \<and> (\<forall>url\<in>set urls. \<not> has_cursor url)"
proof (induction ss arbitrary: u)
  case Nil thus ?case by (simp add: run_upstream_def)
next
  case (Cons s ss)
  let ?v = "upstream_pass D s u" and ?url = "dial_url (up_base u) (up_last_event_sequence u) True"
  have "up_cursor_rejected ?v" "up_dialed ?v = up_dialed u @ [?url]" using Cons.prems by (simp_all add: upstream_pass_fields)
  moreover from Cons.IH [OF this(1)] obtain urls where
    "up_dialed (run_upstream D ss ?v) = up_dialed ?v @ urls" "length urls = length ss" "\<forall>url\<in>set urls. \<not> has_cursor url" by blast
  ultimately show ?case using rejected_no_cursor [of "up_base u" "up_last_event_sequence u"]
    by (intro exI [of _ "?url # urls"]) (auto simp: run_upstream_def)
qed

text \<open>
  C38: One rejected cursor is remembered for good.  After a session that the upstream closed with code 1013, no later dial of the node
  carries a cursor, however many frames with sequence numbers it has received since; each
  later reconnection therefore starts at the live end and skips what was published
  while the node was away.
\<close>

theorem cursor_never_sent_again:
  assumes "u = run_upstream D earlier (upstream_start base hub)"
    and "fst (upstream_session D s (dialing u)) = CursorRejected"
  shows "\<exists>urls. up_dialed (run_upstream D (earlier @ s # later) (upstream_start base hub)) =
      up_dialed (run_upstream D (earlier @ [s]) (upstream_start base hub)) @ urls \<and>
    length urls = length later \<and> (\<forall>url\<in>set urls. \<not> has_cursor url)"
proof -
  have "up_cursor_rejected (upstream_pass D s u)" using assms(2) by (simp add: upstream_pass_fields)
  from rejected_run [OF this, of D later] show ?thesis by (simp add: run_upstream_def assms(1))
qed

subsection \<open>Resuming\<close>

fun binaries :: "up_message list \<Rightarrow> bytes list" where
  "binaries [] = []"
| "binaries (UpBinary at bs # ms) = bs # binaries ms"
| "binaries (UpClose code # ms) = []"
| "binaries (UpOther # ms) = binaries ms"

fun rejects :: "up_message list \<Rightarrow> bool" where
  "rejects [] = False"
| "rejects (UpBinary at bs # ms) = rejects ms"
| "rejects (UpClose code # ms) = (code = Some CURSOR_REJECTED)"
| "rejects (UpOther # ms) = rejects ms"

text \<open>
  What an upstream answers to a dialed URL that carries a cursor: frames past the cursor, from the first on, as
  many as the connection lasts for.
\<close>

definition answers :: "(bytes \<Rightarrow> u64) \<Rightarrow> bytes list \<Rightarrow> string \<Rightarrow> up_session \<Rightarrow> bool" where
  "answers seq fs url s \<longleftrightarrow> \<not> rejects (us_messages s) \<and>
     (case url_cursor url of Some a \<Rightarrow> prefix (binaries (us_messages s)) (filter (\<lambda>b. a < seq b) fs) | None \<Rightarrow> True)"

fun answered :: "(bytes \<Rightarrow> nat \<Rightarrow> bytes option) \<Rightarrow> (bytes \<Rightarrow> u64) \<Rightarrow> bytes list \<Rightarrow> up_session list \<Rightarrow> upstream \<Rightarrow> bool" where
  "answered D seq fs [] u = True"
| "answered D seq fs (s # ss) u =
     (answers seq fs (last (up_dialed (dialing u))) s \<and> answered D seq fs ss (upstream_pass D s u))"

definition readable :: "(bytes \<Rightarrow> nat \<Rightarrow> bytes option) \<Rightarrow> (bytes \<Rightarrow> u64) \<Rightarrow> bytes list \<Rightarrow> bool" where
  "readable D seq fs \<longleftrightarrow> sorted_wrt (<) (map seq fs) \<and>
     (\<forall>b\<in>set fs. \<exists>info. parse_frame D b = Inr info \<and> last_event_sequence info = seq b \<and> 0 < seq b)"

lemma on_frame_reads:
  "parse_frame D bs = Inr info \<Longrightarrow> 0 < last_event_sequence info \<Longrightarrow>
   up_last_event_sequence (on_frame D at bs u) = last_event_sequence info \<and>
   map ef_bytes (up_published (on_frame D at bs u)) = map ef_bytes (up_published u) @ [bs]"
  by (auto simp: on_frame_def record_lag_def frame_sequences_def Let_def)

lemma read_messages_end: "fst (read_messages D ms u) = CursorRejected \<longleftrightarrow> rejects ms"
  by (induction D ms u rule: read_messages.induct) simp_all

lemma read_messages_frames:
  "\<forall>b\<in>set (binaries ms). \<exists>info. parse_frame D b = Inr info \<and> last_event_sequence info = seq b \<and> 0 < seq b \<Longrightarrow>
   map ef_bytes (up_published (snd (read_messages D ms u))) = map ef_bytes (up_published u) @ binaries ms \<and>
   up_last_event_sequence (snd (read_messages D ms u)) = last (up_last_event_sequence u # map seq (binaries ms))"
proof (induction D ms u rule: read_messages.induct)
  case (2 D at bs ms u)
  obtain info where "parse_frame D bs = Inr info" "last_event_sequence info = seq bs" "0 < seq bs" using 2(2) by auto
  thus ?case using 2 on_frame_reads [of D bs info at u] by simp
qed simp_all

lemma filter_past_last:
  assumes "sorted_wrt (<) (map seq fs)" "filter (\<lambda>b. (a :: u64) < seq b) fs = gs @ ys"
  shows "filter (\<lambda>b. last (a # map seq gs) < seq b) fs = ys"
proof (cases gs rule: rev_cases)
  case Nil thus ?thesis using assms(2) by simp
next
  case (snoc hs g)
  have "g \<in> set (filter (\<lambda>b. a < seq b) fs)" by (simp add: assms(2) snoc)
  hence "a < seq g" by simp
  hence "filter (\<lambda>b. seq g < seq b) fs = filter (\<lambda>b. seq g < seq b) (filter (\<lambda>b. a < seq b) fs)"
    by (auto intro!: filter_cong)
  also have "\<dots> = filter (\<lambda>b. seq g < seq b) (hs @ [g]) @ filter (\<lambda>b. seq g < seq b) ys" by (simp add: assms(2) snoc)
  also have "\<dots> = ys"
  proof -
    have "sorted_wrt (<) (map seq (filter (\<lambda>b. a < seq b) fs))"
      using assms(1) by (simp add: sorted_wrt_map sorted_wrt_filter)
    hence "\<forall>h\<in>set hs. seq h < seq g" "\<forall>y\<in>set ys. seq g < seq y"
      unfolding assms(2) snoc by (auto simp: sorted_wrt_append)
    thus ?thesis by (auto simp: filter_empty_conv order.asym)
  qed
  finally show ?thesis by (simp add: snoc)
qed

lemma session_resumes:
  assumes "readable D seq fs" "0 < up_last_event_sequence u" "\<not> up_cursor_rejected u"
    and "answers seq fs (last (up_dialed (dialing u))) s" "v = upstream_pass D s u"
  shows "\<exists>gs. prefix gs (filter (\<lambda>b. up_last_event_sequence u < seq b) fs) \<and>
    map ef_bytes (up_published v) = map ef_bytes (up_published u) @ gs \<and>
    up_last_event_sequence v = last (up_last_event_sequence u # map seq gs) \<and> \<not> up_cursor_rejected v"
proof (cases "us_connects s \<and> map_option trim (us_negotiated s) = Some SUBPROTOCOL")
  case False
  thus ?thesis using assms(3) unfolding assms(5)
    by (intro exI [of _ "[]"]) (auto simp: upstream_pass_fields upstream_session_def)
next
  case True
  let ?ms = "us_messages s"
  have sess: "upstream_session D s (dialing u) = read_messages D ?ms ((dialing u)\<lparr> up_connected := True \<rparr>)"
    using True by (simp add: upstream_session_def)
  have pre: "prefix (binaries ?ms) (filter (\<lambda>b. up_last_event_sequence u < seq b) fs)" "\<not> rejects ?ms"
    using assms(3,4) dial_cursor [OF assms(2), of "up_base u"] by (simp_all add: answers_def)
  have "set (binaries ?ms) \<subseteq> set fs" using set_mono_prefix [OF pre(1)] by auto
  hence "\<forall>b\<in>set (binaries ?ms). \<exists>info. parse_frame D b = Inr info \<and> last_event_sequence info = seq b \<and> 0 < seq b"
    using assms(1) unfolding readable_def by blast
  from read_messages_frames [OF this, of "(dialing u)\<lparr> up_connected := True \<rparr>"]
  show ?thesis using pre assms(3) unfolding assms(5)
    by (intro exI [of _ "binaries ?ms"]) (simp add: upstream_pass_fields sess read_messages_end)
qed


subsection \<open>Witnesses\<close>

definition sample_up_session :: "up_message list \<Rightarrow> up_session" where
  "sample_up_session ms = \<lparr> us_connects = True, us_negotiated = Some ''uma.pb.v1'', us_messages = ms, us_long = False \<rparr>"

lemma sample_up_session_reads: "upstream_session D (sample_up_session ms) u = read_messages D ms (u\<lparr> up_connected := True \<rparr>)"
proof -
  have "map_option trim (us_negotiated (sample_up_session ms)) = Some SUBPROTOCOL"
    by (simp add: sample_up_session_def SUBPROTOCOL_def trim_def is_space_def)
  thus ?thesis by (simp add: upstream_session_def) (simp add: sample_up_session_def)
qed

theorem cursor_never_sent_again_witness:
  "\<not> has_cursor (last (up_dialed (run_upstream (\<lambda>_ _. None)
     [sample_up_session [UpClose (Some 1013)], sample_up_session []] (upstream_start ''ws://h'' (edge_hub_new 4 4)))))"
proof -
  have "fst (upstream_session (\<lambda>_ _. None) (sample_up_session [UpClose (Some 1013)])
      (dialing (upstream_start ''ws://h'' (edge_hub_new 4 4)))) = CursorRejected"
    by (simp add: sample_up_session_reads CURSOR_REJECTED_def)
  moreover have "upstream_start ''ws://h'' (edge_hub_new 4 4) =
      run_upstream (\<lambda>_ _. None) [] (upstream_start ''ws://h'' (edge_hub_new 4 4))" by (simp add: run_upstream_def)
  ultimately
  obtain urls where "up_dialed (run_upstream (\<lambda>_ _. None) [sample_up_session [UpClose (Some 1013)], sample_up_session []]
      (upstream_start ''ws://h'' (edge_hub_new 4 4))) =
        up_dialed (run_upstream (\<lambda>_ _. None) [sample_up_session [UpClose (Some 1013)]] (upstream_start ''ws://h'' (edge_hub_new 4 4))) @ urls"
    "length urls = 1" "\<forall>url\<in>set urls. \<not> has_cursor url"
    using cursor_never_sent_again [where earlier = "[]" and later = "[sample_up_session []]"] by fastforce
  thus ?thesis by (cases urls) auto
qed

definition sample_upstream_frame :: "u8 \<Rightarrow> bytes" where
  "sample_upstream_frame i = [85, 77, 65, 49, 0, 1, 0, 0, 0, 0, 0, 4, 34, 2, 8, i]"

lemma sample_upstream_frame_parses:
  "parse_frame (\<lambda>_ _. None) (sample_upstream_frame 5) = Inr \<lparr> compressed = False, schema = 1, payload_size = 4,
     info_batch_sequence = 0, sent_at_us = 0, last_event_sequence = 5 \<rparr>"
  "parse_frame (\<lambda>_ _. None) (sample_upstream_frame 7) = Inr \<lparr> compressed = False, schema = 1, payload_size = 4,
     info_batch_sequence = 0, sent_at_us = 0, last_event_sequence = 7 \<rparr>"
  by code_simp+

definition sample_seq :: "bytes \<Rightarrow> u64" where
  "sample_seq b = ucast (last b)"

definition sample_upstream :: upstream where
  "sample_upstream = (upstream_start ''ws://h'' (edge_hub_new 4 4))\<lparr> up_last_event_sequence := 3 \<rparr>"


end
