(* ===== verification/Chain_Rpc.thy ===== *)
theory Chain_Rpc
  imports Pipeline Journal
begin

text \<open>
  \<open>uma/rpc.rs\<close>: how logs reach the processor.  The node behind the HTTP endpoint is a
  parameter (\<open>http_rpc\<close>): what it answers to a block number, a timestamp and a range
  of logs.  The walk over a range is a partial function: not returning is the value
  \<open>None\<close>.  Connecting and the messages of the subscriptions are arguments of
  the steps of a live worker.
\<close>

datatype rpc_error = RpcTransport | RpcRemote | RpcMissingResult | RpcClosed | RpcNumber

record http_rpc =
  eth_block_number :: "rpc_error + string"
  eth_block_timestamp :: "u64 \<Rightarrow> rpc_error + string"
  eth_get_logs :: "u64 \<Rightarrow> u64 \<Rightarrow> rpc_error + rpc_log list"

fun rpc_number :: "decode_error + u64 \<Rightarrow> rpc_error + u64" where
  "rpc_number (Inl _) = Inl RpcNumber"
| "rpc_number (Inr n) = Inr n"

definition rpc_latest_block :: "http_rpc \<Rightarrow> rpc_error + u64" where
  "rpc_latest_block h = and_then (eth_block_number h) (\<lambda>v. rpc_number (parse_hex_u64 v ''blockNumber''))"

definition block_timestamp :: "http_rpc \<Rightarrow> u64 \<Rightarrow> rpc_error + u64" where
  "block_timestamp h b = and_then (eth_block_timestamp h b) (\<lambda>v. rpc_number (parse_hex_u64 v ''timestamp''))"

subsection \<open>The first block of a time window\<close>

lemma middle_bounds:
  fixes low high :: u64
  assumes "low < high"
  shows "unat (low + (high - low) div 2) = unat low + (unat high - unat low) div 2"
    and "unat (saturating_add (low + (high - low) div 2) 1) = Suc (unat (low + (high - low) div 2))"
proof -
  have lt: "unat low < unat high" "unat high < 2 ^ 64"
    using assms unsigned_less [of high, where ?'a = nat] by (simp_all add: word_less_nat_alt)
  have d: "unat ((high - low) div 2) = (unat high - unat low) div 2"
    using assms by (simp add: unat_div_distrib unat_sub)
  show m: "unat (low + (high - low) div 2) = unat low + (unat high - unat low) div 2"
    using lt unfolding unat_word_ariths(1) d by simp
  show "unat (saturating_add (low + (high - low) div 2) 1) = Suc (unat (low + (high - low) div 2))"
    unfolding unat_saturating_add m using lt by simp
qed

function first_block_at_or_after :: "http_rpc \<Rightarrow> u64 \<Rightarrow> u64 \<Rightarrow> u64 \<Rightarrow> rpc_error + u64" where
  "first_block_at_or_after h target low high =
     (if low < high
      then let middle = low + (high - low) div 2
           in case block_timestamp h middle of
                Inl e \<Rightarrow> Inl e
              | Inr t \<Rightarrow>
                  if t < target then first_block_at_or_after h target (saturating_add middle 1) high
                  else first_block_at_or_after h target low middle
      else Inr low)"
  by pat_completeness auto
termination
proof (relation "measure (\<lambda>(h, target, low, high). unat high - unat low)", goal_cases)
  case (2 h target low high m t)
  thus ?case using middle_bounds [of low high] by (auto simp: word_less_nat_alt)
next
  case (3 h target low high m t)
  thus ?case using middle_bounds [of low high] by (auto simp: word_less_nat_alt)
qed simp

declare first_block_at_or_after.simps [simp del]

subsection \<open>Walking a range\<close>

record backfill_env =
  bf_crypto :: crypto
  bf_sort :: "rpc_log list \<Rightarrow> rpc_log list"
  bf_clock :: "rpc_log \<Rightarrow> u64"

record backfill_state =
  bf_processor :: processor
  bf_windows :: "(u64 \<times> u64) list"

definition log_key :: "rpc_log \<Rightarrow> u64 \<times> u64" where
  "log_key l =
     ((case parse_hex_u64 (log_block_number l) ''blockNumber'' of Inr b \<Rightarrow> b | Inl _ \<Rightarrow> 0),
      (case parse_hex_u64 (log_log_index l) ''logIndex'' of Inr i \<Rightarrow> i | Inl _ \<Rightarrow> 0))"

definition process_logs :: "backfill_env \<Rightarrow> string \<Rightarrow> rpc_log list \<Rightarrow> processor \<Rightarrow> processor" where
  "process_logs E source logs =
     fold (\<lambda>l. process_log (bf_crypto E) (bf_clock E l) l (bf_clock E l) source) (bf_sort E logs)"

definition window_end :: "u64 \<Rightarrow> u64 \<Rightarrow> u64 \<Rightarrow> u64" where
  "window_end batch_blocks cursor last_block = min (saturating_add cursor (max batch_blocks 1 - 1)) last_block"

definition finish_window :: "backfill_env \<Rightarrow> string \<Rightarrow> u64 \<Rightarrow> rpc_log list \<Rightarrow> backfill_state \<Rightarrow> backfill_state" where
  "finish_window E source last_block logs s =
     s\<lparr> bf_processor := checkpoint last_block (process_logs E source logs (bf_processor s)) \<rparr>"

partial_function (option) backfill_range ::
  "backfill_env \<Rightarrow> http_rpc \<Rightarrow> u64 \<Rightarrow> string \<Rightarrow> u64 \<Rightarrow> u64 \<Rightarrow> backfill_state \<Rightarrow> ((rpc_error + unit) \<times> backfill_state) option" where
  "backfill_range E h batch_blocks source last_block cursor s =
     (if cursor \<le> last_block
      then let e = window_end batch_blocks cursor last_block;
               s = s\<lparr> bf_windows := bf_windows s @ [(cursor, e)] \<rparr>
           in case eth_get_logs h cursor e of
                Inl err \<Rightarrow> Some (Inl err, s)
              | Inr logs \<Rightarrow>
                  backfill_range E h batch_blocks source last_block (saturating_add e 1) (finish_window E source e logs s)
      else Some (Inr (), s))"

subsection \<open>The backfill at the start and after a reconnection\<close>

record rpc_config =
  start_block :: "u64 option"
  initial_backfill_days :: u64
  backfill_batch_blocks :: u64

definition backfill_from :: "rpc_config \<Rightarrow> disk \<Rightarrow> http_rpc \<Rightarrow> u64 \<Rightarrow> rpc_error + u64" where
  "backfill_from cfg d h head =
     (case load_uma_cursor d of
        Inr (Some c) \<Rightarrow> Inr (saturating_add c 1)
      | _ \<Rightarrow>
          (case start_block cfg of
             Some start \<Rightarrow> Inr start
           | None \<Rightarrow>
               and_then (block_timestamp h head) (\<lambda>head_timestamp.
                 let window = saturating_mul (initial_backfill_days cfg) (24 * 60 * 60)
                 in first_block_at_or_after h (saturating_sub head_timestamp window) (saturating_sub head window) head)))"

definition run_backfill ::
  "backfill_env \<Rightarrow> rpc_config \<Rightarrow> disk \<Rightarrow> http_rpc \<Rightarrow> backfill_state \<Rightarrow> ((rpc_error + unit) \<times> backfill_state) option" where
  "run_backfill E cfg d h s =
     (case rpc_latest_block h of
        Inl e \<Rightarrow> Some (Inl e, s)
      | Inr head \<Rightarrow>
          (case backfill_from cfg d h head of
             Inl e \<Rightarrow> Some (Inl e, s)
           | Inr from \<Rightarrow>
               if from \<le> head then backfill_range E h (backfill_batch_blocks cfg) ''backfill'' head from s
               else Some (Inr (), s)))"

text \<open>The loop of \<open>run_rpc_loop\<close> around it: the next attempt has its own disk and its own node.\<close>

fun run_backfills ::
  "backfill_env \<Rightarrow> rpc_config \<Rightarrow> (disk \<times> http_rpc) list \<Rightarrow> backfill_state \<Rightarrow> ((rpc_error + unit) \<times> backfill_state) option" where
  "run_backfills E cfg [] s = Some (Inl RpcClosed, s)"
| "run_backfills E cfg ((d, h) # rest) s =
     (case run_backfill E cfg d h s of
        None \<Rightarrow> None
      | Some (Inr u, s) \<Rightarrow> Some (Inr u, s)
      | Some (Inl e, s) \<Rightarrow> run_backfills E cfg rest s)"

definition gap_fill ::
  "backfill_env \<Rightarrow> rpc_config \<Rightarrow> string \<Rightarrow> u64 \<Rightarrow> http_rpc \<Rightarrow> backfill_state \<Rightarrow> ((rpc_error + unit) \<times> backfill_state) option" where
  "gap_fill E cfg source seen_block h s =
     (let from = saturating_add seen_block 1
      in if from \<le> 1 then Some (Inr (), s)
         else case rpc_latest_block h of
                Inl e \<Rightarrow> Some (Inl e, s)
              | Inr head \<Rightarrow>
                  if from > head then Some (Inr (), s)
                  else backfill_range E h (backfill_batch_blocks cfg) source head from s)"

subsection \<open>Live workers\<close>

definition RECONNECT_BACKOFF_INITIAL :: nat where "RECONNECT_BACKOFF_INITIAL = 1000"
definition RECONNECT_BACKOFF_MAX :: nat where "RECONNECT_BACKOFF_MAX = 30000"
definition HEALTHY_SESSION :: nat where "HEALTHY_SESSION = 30000"

definition reconnect_backoff :: "nat \<Rightarrow> nat \<Rightarrow> nat \<times> nat" where
  "reconnect_backoff current session_lasted =
     (let delay = (if session_lasted \<ge> HEALTHY_SESSION then RECONNECT_BACKOFF_INITIAL else current)
      in (delay, min (delay * 2) RECONNECT_BACKOFF_MAX))"

record source_stats =
  rpc_sources_connected :: u64
  rpc_connected :: bool
  rpc_reconnects :: u64

definition mark_source_connected :: "source_stats \<Rightarrow> source_stats" where
  "mark_source_connected s = s\<lparr> rpc_sources_connected := rpc_sources_connected s + 1, rpc_connected := True \<rparr>"

definition mark_source_disconnected :: "source_stats \<Rightarrow> source_stats" where
  "mark_source_disconnected s =
     (let remaining = saturating_sub (rpc_sources_connected s) 1
      in s\<lparr> rpc_sources_connected := remaining, rpc_connected := (remaining > 0) \<rparr>)"

definition live_log :: "backfill_env \<Rightarrow> string \<Rightarrow> rpc_log \<Rightarrow> processor \<Rightarrow> processor" where
  "live_log E source l p =
     (let block = (case parse_hex_u64 (log_block_number l) ''blockNumber'' of Inr b \<Rightarrow> b | Inl _ \<Rightarrow> 0);
          p = process_log (bf_crypto E) (bf_clock E l) l (bf_clock E l) source p
      in if block > 0 then checkpoint block p else p)"

text \<open>
  A worker is up between its subscription and the end of its session; the worker's own loop counts the end of a
  session and a subscription that failed in the same way.
\<close>

datatype worker_event = Subscribed nat | SubscribeFailed nat | SessionEnds nat

record workers =
  up_workers :: "nat list"
  source_stats :: source_stats

definition session_over :: "source_stats \<Rightarrow> source_stats" where
  "session_over s = (let s = mark_source_disconnected s in s\<lparr> rpc_reconnects := rpc_reconnects s + 1 \<rparr>)"

fun worker_step :: "worker_event \<Rightarrow> workers \<Rightarrow> workers" where
  "worker_step (Subscribed i) w =
     (if i \<in> set (up_workers w) then w
      else w\<lparr> up_workers := up_workers w @ [i], source_stats := mark_source_connected (source_stats w) \<rparr>)"
| "worker_step (SubscribeFailed i) w =
     (if i \<in> set (up_workers w) then w else w\<lparr> source_stats := session_over (source_stats w) \<rparr>)"
| "worker_step (SessionEnds i) w =
     (if i \<in> set (up_workers w)
      then w\<lparr> up_workers := removeAll i (up_workers w), source_stats := session_over (source_stats w) \<rparr> else w)"

subsection \<open>The binary search\<close>

lemma first_block_spec:
  assumes "\<forall>b. low \<le> b \<and> b < high \<longrightarrow> block_timestamp h b = Inr (ts b)" "low \<le> high"
    and "\<forall>a b. low \<le> a \<and> a \<le> b \<and> b < high \<longrightarrow> ts a \<le> ts b"
  shows "\<exists>r. first_block_at_or_after h target low high = Inr r \<and> low \<le> r \<and> r \<le> high \<and>
    (\<forall>b. low \<le> b \<and> b < high \<longrightarrow> (ts b < target \<longleftrightarrow> b < r))"
  using assms
proof (induction h target low high rule: first_block_at_or_after.induct)
  case (1 h target low high)
  show ?case
  proof (cases "low < high")
    case False
    thus ?thesis using 1(4) by (subst first_block_at_or_after.simps) auto
  next
    case True
    define m where "m = low + (high - low) div 2"
    note mb = middle_bounds [OF True, folded m_def]
    have m: "low \<le> m" "m < high" "m < saturating_add m 1" "saturating_add m 1 \<le> high"
      using mb True by (auto simp: word_less_nat_alt word_le_nat_alt)
    have succ: "m < b \<longleftrightarrow> saturating_add m 1 \<le> b" for b using mb(2) by (auto simp: word_less_nat_alt word_le_nat_alt)
    have ts: "block_timestamp h m = Inr (ts m)" using 1(3) m by blast
    show ?thesis
    proof (cases "ts m < target")
      case late: True
      have "\<exists>r. first_block_at_or_after h target (saturating_add m 1) high = Inr r \<and> saturating_add m 1 \<le> r \<and> r \<le> high \<and>
          (\<forall>b. saturating_add m 1 \<le> b \<and> b < high \<longrightarrow> (ts b < target \<longleftrightarrow> b < r))"
      proof (rule 1(1) [OF True m_def ts late])
        have lo: "low \<le> b" if "saturating_add m 1 \<le> b" for b using m(1,3) that by simp
        show "\<forall>b. saturating_add m 1 \<le> b \<and> b < high \<longrightarrow> block_timestamp h b = Inr (ts b)" using 1(3) lo by blast
        show "\<forall>a b. saturating_add m 1 \<le> a \<and> a \<le> b \<and> b < high \<longrightarrow> ts a \<le> ts b" using 1(5) lo by blast
      qed (rule m(4))
      then obtain r where r: "first_block_at_or_after h target (saturating_add m 1) high = Inr r" "saturating_add m 1 \<le> r" "r \<le> high"
        "\<forall>b. saturating_add m 1 \<le> b \<and> b < high \<longrightarrow> (ts b < target \<longleftrightarrow> b < r)" by blast
      have "ts b < target \<longleftrightarrow> b < r" if "low \<le> b" "b < high" for b
      proof (cases "m < b")
        case False
        hence "ts b \<le> ts m" "b < r" using 1(5) that m r(2) by (auto intro: le_less_trans)
        thus ?thesis using late by simp
      qed (use r(4) that succ in blast)
      thus ?thesis using r m True ts late
        by (subst first_block_at_or_after.simps) (auto simp: Let_def m_def [symmetric])
    next
      case early: False
      have hi: "b < high" if "b < m" for b using m(2) that by (rule order_less_trans [rotated])
      have "\<exists>r. first_block_at_or_after h target low m = Inr r \<and> low \<le> r \<and> r \<le> m \<and>
          (\<forall>b. low \<le> b \<and> b < m \<longrightarrow> (ts b < target \<longleftrightarrow> b < r))"
      proof (rule 1(2) [OF True m_def ts early])
        show "\<forall>b. low \<le> b \<and> b < m \<longrightarrow> block_timestamp h b = Inr (ts b)" using 1(3) hi by blast
        show "\<forall>a b. low \<le> a \<and> a \<le> b \<and> b < m \<longrightarrow> ts a \<le> ts b" using 1(5) hi by blast
      qed (rule m(1))
      then obtain r where r: "first_block_at_or_after h target low m = Inr r" "low \<le> r" "r \<le> m"
        "\<forall>b. low \<le> b \<and> b < m \<longrightarrow> (ts b < target \<longleftrightarrow> b < r)" by blast
      have "ts b < target \<longleftrightarrow> b < r" if "low \<le> b" "b < high" for b
      proof (cases "b < m")
        case False
        hence "ts m \<le> ts b" using 1(5) that m by simp
        thus ?thesis using early False r(3) by auto
      qed (use r(4) that in blast)
      thus ?thesis using r m True ts early
        by (subst first_block_at_or_after.simps) (auto simp: Let_def m_def [symmetric])
    qed
  qed
qed

subsection \<open>The walk\<close>

definition window_blocks :: "u64 \<times> u64 \<Rightarrow> nat list" where
  "window_blocks w = [unat (fst w)..<Suc (unat (snd w))]"

definition fetched :: "http_rpc \<Rightarrow> u64 \<times> u64 \<Rightarrow> rpc_log list" where
  "fetched h w = (case eth_get_logs h (fst w) (snd w) of Inr logs \<Rightarrow> logs | Inl _ \<Rightarrow> [])"

definition feed_window :: "backfill_env \<Rightarrow> http_rpc \<Rightarrow> string \<Rightarrow> u64 \<times> u64 \<Rightarrow> processor \<Rightarrow> processor" where
  "feed_window E h source w p = checkpoint (snd w) (process_logs E source (fetched h w) p)"

lemma unat_min_word: "unat (min a b) = min (unat a) (unat b)"
  by (simp add: min_def word_le_nat_alt)

lemma window_end_bounds:
  assumes "cursor \<le> last_block" "last_block < - 1"
  shows "cursor \<le> window_end batch cursor last_block" "window_end batch cursor last_block \<le> last_block"
    "unat (saturating_add (window_end batch cursor last_block) 1) = Suc (unat (window_end batch cursor last_block))"
    "length (window_blocks (cursor, window_end batch cursor last_block)) \<le> unat (max batch 1)"
proof -
  let ?b = "max batch 1" and ?e = "window_end batch cursor last_block"
  have b: "1 \<le> unat ?b" by (simp add: max_def word_le_nat_alt Suc_leI unat_gt_0)
  hence b1: "unat (?b - 1) = unat ?b - 1" by (subst unat_sub) (simp_all add: word_le_nat_alt)
  have l: "unat last_block < 2 ^ 64 - 1" using assms(2) by (simp add: word_less_nat_alt unat_max_word)
  have e: "unat ?e = min (min (unat cursor + (unat ?b - 1)) (2 ^ 64 - 1)) (unat last_block)"
    unfolding window_end_def by (simp add: unat_min_word unat_saturating_add b1)
  show "cursor \<le> ?e" "?e \<le> last_block" using assms(1) e l by (auto simp: word_le_nat_alt)
  show "unat (saturating_add ?e 1) = Suc (unat ?e)" unfolding unat_saturating_add using e l by simp
  have "unat ?e \<le> unat cursor + (unat ?b - 1)" unfolding e by (simp only: min.coboundedI1 min.cobounded1)
  thus "length (window_blocks (cursor, ?e)) \<le> unat ?b" using b unfolding window_blocks_def by (simp del: upt_Suc)
qed

text \<open>
  The outcome of a walk from a block: the windows completed, and how it ended.
\<close>

definition range_walked ::
  "backfill_env \<Rightarrow> http_rpc \<Rightarrow> u64 \<Rightarrow> string \<Rightarrow> u64 \<Rightarrow> u64 \<Rightarrow> backfill_state \<Rightarrow> (u64 \<times> u64) list \<Rightarrow>
   rpc_error + unit \<Rightarrow> backfill_state \<Rightarrow> bool" where
  "range_walked E h batch source last_block cursor s ws res s' \<longleftrightarrow>
     bf_processor s' = fold (feed_window E h source) ws (bf_processor s) \<and>
     (\<forall>w\<in>set ws. length (window_blocks w) \<le> unat (max batch 1)) \<and>
     (case res of
        Inr _ \<Rightarrow> bf_windows s' = bf_windows s @ ws \<and> concat (map window_blocks ws) = [unat cursor..<Suc (unat last_block)]
      | Inl e \<Rightarrow> \<exists>a b. bf_windows s' = bf_windows s @ ws @ [(a, b)] \<and> eth_get_logs h a b = Inl e \<and> a \<le> last_block \<and>
          cursor \<le> a \<and> concat (map window_blocks ws) = [unat cursor..<unat a])"

lemma walked_step:
  assumes "cursor \<le> last_block" "last_block < - 1" "e = window_end batch cursor last_block"
    and "eth_get_logs h cursor e = Inr logs"
    and "range_walked E h batch source last_block (saturating_add e 1)
      (finish_window E source e logs (s\<lparr> bf_windows := bf_windows s @ [(cursor, e)] \<rparr>)) ws res s'"
  shows "range_walked E h batch source last_block cursor s ((cursor, e) # ws) res s'"
proof -
  note b = window_end_bounds [OF assms(1,2), of batch, folded assms(3)]
  have f: "fetched h (cursor, e) = logs" using assms(4) by (simp add: fetched_def)
  have join: "[unat cursor..<Suc (unat e)] @ [Suc (unat e)..<k] = [unat cursor..<k]" if "Suc (unat e) \<le> k" for k
    using b(1) that upt_add_eq_append [of "unat cursor" "Suc (unat e)" "k - Suc (unat e)"]
    by (simp add: word_le_nat_alt del: upt_Suc)
  have le: "Suc (unat e) \<le> Suc (unat last_block)" using b(2) by (simp add: word_le_nat_alt)
  show ?thesis
  proof (cases res)
    case (Inr u)
    thus ?thesis using assms(5) b(3,4) join [OF le]
      by (simp add: range_walked_def finish_window_def feed_window_def f window_blocks_def del: upt_Suc)
  next
    case (Inl err)
    obtain a bb where ab: "bf_windows s' = bf_windows s @ [(cursor, e)] @ ws @ [(a, bb)]" "eth_get_logs h a bb = Inl err" "a \<le> last_block"
      "saturating_add e 1 \<le> a" "concat (map window_blocks ws) = [Suc (unat e)..<unat a]"
      using assms(5) Inl b(3) by (auto simp: range_walked_def finish_window_def)
    have "Suc (unat e) \<le> unat a" "cursor \<le> a" using ab(4) b(1,3) by (simp_all add: word_le_nat_alt)
    thus ?thesis using assms(5) Inl b(4) ab join [of "unat a"]
      by (auto simp: range_walked_def finish_window_def feed_window_def f window_blocks_def simp del: upt_Suc)
  qed
qed

lemma backfill_walks:
  "last_block < - 1 \<Longrightarrow> \<exists>ws res s'. backfill_range E h batch source last_block cursor s = Some (res, s') \<and>
     range_walked E h batch source last_block cursor s ws res s'"
proof (induction "Suc (unat last_block) - unat cursor" arbitrary: cursor s rule: less_induct)
  case less
  show ?case
  proof (cases "cursor \<le> last_block")
    case False
    hence "[unat cursor..<Suc (unat last_block)] = []" by (simp add: word_le_nat_alt)
    hence "range_walked E h batch source last_block cursor s [] (Inr ()) s" by (simp add: range_walked_def)
    thus ?thesis using False by (subst backfill_range.simps) auto
  next
    case True
    define e where "e = window_end batch cursor last_block"
    note b = window_end_bounds [OF True less.prems, of batch, folded e_def]
    show ?thesis
    proof (cases "eth_get_logs h cursor e")
      case (Inl err)
      let ?s = "s\<lparr> bf_windows := bf_windows s @ [(cursor, e)] \<rparr>"
      have "range_walked E h batch source last_block cursor s [] (Inl err) ?s" using True Inl by (auto simp: range_walked_def)
      moreover have "backfill_range E h batch source last_block cursor s = Some (Inl err, ?s)"
        using True Inl by (subst backfill_range.simps) (simp add: e_def [symmetric])
      ultimately show ?thesis by blast
    next
      case (Inr logs)
      let ?s = "finish_window E source e logs (s\<lparr> bf_windows := bf_windows s @ [(cursor, e)] \<rparr>)"
      have "Suc (unat last_block) - unat (saturating_add e 1) < Suc (unat last_block) - unat cursor"
        using b(1,3) True by (auto simp: word_le_nat_alt)
      from less.hyps [OF this less.prems, of ?s] obtain ws res s' where
        w: "backfill_range E h batch source last_block (saturating_add e 1) ?s = Some (res, s')"
          "range_walked E h batch source last_block (saturating_add e 1) ?s ws res s'" by blast
      have "backfill_range E h batch source last_block cursor s = Some (res, s')"
        using True Inr w(1) by (subst backfill_range.simps) (simp add: e_def [symmetric])
      thus ?thesis using walked_step [OF True less.prems e_def Inr w(2)] by blast
    qed
  qed
qed

text \<open>
  C39: A walk over a range of blocks returns, and it asks for every block exactly once, in order, in windows of at most the
  configured size.  If the node answers every request, the windows are the whole range;
  at the first request that fails, the walk stops with that error, and the windows completed
  are exactly the blocks before the failed one.  The processor has been given the logs of
  the completed windows, in order, each followed by the checkpoint of its last block.
\<close>

theorem backfill_range_covers:
  assumes "last_block < - 1"
  shows "\<exists>ws res s'. backfill_range E h batch source last_block from s = Some (res, s') \<and>
    bf_processor s' = fold (feed_window E h source) ws (bf_processor s) \<and>
    (\<forall>w\<in>set ws. length (window_blocks w) \<le> unat (max batch 1)) \<and>
    (case res of
       Inr _ \<Rightarrow> concat (map window_blocks ws) = [unat from..<Suc (unat last_block)]
     | Inl e \<Rightarrow> \<exists>a b. eth_get_logs h a b = Inl e \<and> from \<le> a \<and> a \<le> last_block \<and> concat (map window_blocks ws) = [unat from..<unat a])"
proof -
  obtain ws res s' where w: "backfill_range E h batch source last_block from s = Some (res, s')"
    "range_walked E h batch source last_block from s ws res s'" using backfill_walks [OF assms] by blast
  thus ?thesis by (cases res) (auto simp: range_walked_def)
qed

subsection \<open>A backfill that is tried again\<close>

lemma walked_windows:
  assumes "range_walked E h batch source last_block cursor s ws res s'" "w \<in> set ws" "k \<in> set (window_blocks w)"
  shows "unat cursor \<le> k"
proof -
  obtain j where "concat (map window_blocks ws) = [unat cursor..<j]"
    using assms(1) by (cases res) (auto simp: range_walked_def simp del: upt_Suc)
  moreover have "k \<in> set (concat (map window_blocks ws))" using assms(2,3) by auto
  ultimately show ?thesis by simp
qed

lemma run_backfill_from:
  assumes "rpc_latest_block h = Inr head" "head < - 1" "load_uma_cursor d = Inr (Some c)" "c < - 1"
  shows "\<exists>ws res s'. run_backfill E cfg d h s = Some (res, s') \<and>
    bf_processor s' = fold (feed_window E h ''backfill'') ws (bf_processor s) \<and>
    (\<forall>w\<in>set ws. \<forall>k\<in>set (window_blocks w). unat c < k)"
proof -
  have start: "backfill_from cfg d h head = Inr (saturating_add c 1)" using assms(3) by (simp add: backfill_from_def)
  have c: "unat (saturating_add c 1) = Suc (unat c)"
    using assms(4) by (simp add: unat_saturating_add word_less_nat_alt unat_max_word)
  show ?thesis
  proof (cases "saturating_add c 1 \<le> head")
    case False
    thus ?thesis using start assms(1) by (auto simp: run_backfill_def intro!: exI [of _ "[]"])
  next
    case True
    obtain ws res s' where w: "backfill_range E h (backfill_batch_blocks cfg) ''backfill'' head (saturating_add c 1) s = Some (res, s')"
      "range_walked E h (backfill_batch_blocks cfg) ''backfill'' head (saturating_add c 1) s ws res s'"
      using backfill_walks [OF assms(2)] by blast
    have "\<forall>w\<in>set ws. \<forall>k\<in>set (window_blocks w). unat c < k" using walked_windows [OF w(2)] c by (auto simp: Suc_le_eq)
    moreover have "bf_processor s' = fold (feed_window E h ''backfill'') ws (bf_processor s)" using w(2) by (simp add: range_walked_def)
    moreover have "run_backfill E cfg d h s = Some (res, s')" using True start assms(1) w(1) by (simp add: run_backfill_def)
    ultimately show ?thesis by blast
  qed
qed

text \<open>
  C40: A backfill that is tried again can leave out the range it failed on.  The first attempt starts behind the cursor
  on disk and its first request fails; before the next attempt a live log of a later block
  has been processed, and its checkpoint is the cursor on disk.  Then the second attempt
  feeds the processor only windows of blocks after that log: no attempt has read a block
  between the old cursor and the live one.
\<close>

theorem backfill_retry_skips_range:
  assumes "load_uma_cursor d = Inr (Some c)" "rpc_latest_block h1 = Inr head1" "c < head1" "head1 < - 1"
    and "\<forall>a b. eth_get_logs h1 a b = Inl err"
    and "rpc_latest_block h2 = Inr head2" "head2 < - 1" "live < - 1"
  shows "\<exists>ws res s'. run_backfills E cfg [(d, h1), (save_uma_cursor live d, h2)] s = Some (res, s') \<and>
    bf_processor s' = fold (feed_window E h2 ''backfill'') ws (bf_processor s) \<and>
    (\<forall>w\<in>set ws. \<forall>k\<in>set (window_blocks w). unat live < k)"
proof -
  have c: "saturating_add c 1 \<le> head1"
    using assms(3) unsigned_less [of head1, where ?'a = nat] by (simp add: word_le_nat_alt unat_saturating_add word_less_nat_alt)
  let ?s = "s\<lparr> bf_windows := bf_windows s @ [(saturating_add c 1, window_end (backfill_batch_blocks cfg) (saturating_add c 1) head1)] \<rparr>"
  have "backfill_range E h1 (backfill_batch_blocks cfg) ''backfill'' head1 (saturating_add c 1) s = Some (Inl err, ?s)"
    using c assms(5) by (subst backfill_range.simps) simp
  hence first: "run_backfill E cfg d h1 s = Some (Inl err, ?s)"
    using assms(1,2) c by (simp add: run_backfill_def backfill_from_def)
  obtain ws res s' where w: "run_backfill E cfg (save_uma_cursor live d) h2 ?s = Some (res, s')"
    "bf_processor s' = fold (feed_window E h2 ''backfill'') ws (bf_processor s)"
    "\<forall>w\<in>set ws. \<forall>k\<in>set (window_blocks w). unat live < k"
    using run_backfill_from [OF assms(6,7) uma_cursor_round_trip assms(8), of E cfg d ?s] by auto
  obtain res' where "run_backfills E cfg [(d, h1), (save_uma_cursor live d, h2)] s = Some (res', s')"
    using first w(1) by (cases res) auto
  thus ?thesis using w(2,3) by blast
qed

text \<open>The checkpoint of a live log is handed to the storage writer like that of a completed window.\<close>

lemma live_log_checkpoint:
  assumes "parse_hex_u64 (log_block_number l) ''blockNumber'' = Inr b" "0 < b"
  shows "live_log E source l p = checkpoint b (process_log (bf_crypto E) (bf_clock E l) l (bf_clock E l) source p)"
  using assms by (simp add: live_log_def)

subsection \<open>Reconnections\<close>

lemma reconnect_backoff_bounds:
  assumes "RECONNECT_BACKOFF_INITIAL \<le> current" "current \<le> RECONNECT_BACKOFF_MAX"
  shows "RECONNECT_BACKOFF_INITIAL \<le> fst (reconnect_backoff current lasted) \<and> fst (reconnect_backoff current lasted) \<le> RECONNECT_BACKOFF_MAX \<and>
    RECONNECT_BACKOFF_INITIAL \<le> snd (reconnect_backoff current lasted) \<and> snd (reconnect_backoff current lasted) \<le> RECONNECT_BACKOFF_MAX \<and>
    (HEALTHY_SESSION \<le> lasted \<longrightarrow> fst (reconnect_backoff current lasted) = RECONNECT_BACKOFF_INITIAL)"
  using assms by (auto simp: reconnect_backoff_def Let_def RECONNECT_BACKOFF_INITIAL_def RECONNECT_BACKOFF_MAX_def)

text \<open>
  A worker whose subscription fails takes a connection off the count that it never added: with one other worker
  connected, the service reports that it has lost its chain connection.
\<close>

lemma failed_subscription_hides_connection:
  assumes "up_workers w = [i]" "rpc_sources_connected (source_stats w) = 1" "j \<noteq> i"
  shows "up_workers (worker_step (SubscribeFailed j) w) = [i] \<and> \<not> rpc_connected (source_stats (worker_step (SubscribeFailed j) w))"
  using assms by (simp add: session_over_def mark_source_disconnected_def Let_def saturating_sub_def)

subsection \<open>Witnesses\<close>

definition sample_env :: backfill_env where
  "sample_env = \<lparr> bf_crypto = sample_crypto, bf_sort = sort_key log_key, bf_clock = (\<lambda>_. 9) \<rparr>"

definition sample_http :: "rpc_error + rpc_log list \<Rightarrow> http_rpc" where
  "sample_http logs = \<lparr> eth_block_number = Inr ''0xa'', eth_block_timestamp = (\<lambda>_. Inr ''0x1''), eth_get_logs = (\<lambda>_ _. logs) \<rparr>"

lemma sample_http_head: "rpc_latest_block (sample_http logs) = Inr 10"
  by (simp add: rpc_latest_block_def sample_http_def parse_hex_u64_def strip_0x_def strip_prefix_def u64_from_str_def hex_digit_def)

theorem backfill_range_covers_witness:
  "\<exists>ws s'. backfill_range sample_env (sample_http (Inr [])) 4 ''backfill'' 10 3 \<lparr> bf_processor = sample_processor, bf_windows = [] \<rparr> = Some (Inr (), s') \<and>
     concat (map window_blocks ws) = [3..<11]"
proof -
  let ?h = "sample_http (Inr [])"
  have lt: "(10 :: u64) < - 1" by simp
  obtain ws res s' where w: "backfill_range sample_env ?h 4 ''backfill'' 10 3 \<lparr> bf_processor = sample_processor, bf_windows = [] \<rparr> = Some (res, s')"
    "case res of Inr _ \<Rightarrow> concat (map window_blocks ws) = [unat (3 :: u64)..<Suc (unat (10 :: u64))]
      | Inl e \<Rightarrow> \<exists>a b. eth_get_logs ?h a b = Inl e \<and> 3 \<le> a \<and> a \<le> 10 \<and> concat (map window_blocks ws) = [unat (3 :: u64)..<unat a]"
    using backfill_range_covers [OF lt, of sample_env ?h 4 "''backfill''" 3 "\<lparr> bf_processor = sample_processor, bf_windows = [] \<rparr>"] by blast
  have "res = Inr ()" using w(2) by (cases res) (auto simp: sample_http_def)
  thus ?thesis using w by auto
qed

theorem backfill_retry_skips_range_witness:
  "\<exists>ws res s'. run_backfills sample_env \<lparr> start_block = None, initial_backfill_days = 7, backfill_batch_blocks = 4 \<rparr>
      [(save_uma_cursor 3 empty_disk, sample_http (Inl RpcTransport)), (save_uma_cursor 8 (save_uma_cursor 3 empty_disk), sample_http (Inr []))]
      \<lparr> bf_processor = sample_processor, bf_windows = [] \<rparr> = Some (res, s') \<and>
    bf_processor s' = fold (feed_window sample_env (sample_http (Inr [])) ''backfill'') ws sample_processor \<and>
    (\<forall>w\<in>set ws. \<forall>k\<in>set (window_blocks w). unat (8 :: u64) < k)"
proof -
  have e: "\<forall>a b. eth_get_logs (sample_http (Inl RpcTransport)) a b = Inl RpcTransport" by (simp add: sample_http_def)
  have l: "(3 :: u64) < 10" "(10 :: u64) < - 1" "(8 :: u64) < - 1" by simp_all
  from backfill_retry_skips_range [where d = "save_uma_cursor 3 empty_disk" and E = sample_env
      and cfg = "\<lparr> start_block = None, initial_backfill_days = 7, backfill_batch_blocks = 4 \<rparr>" and ?h2.0 = "sample_http (Inr [])"
      and s = "\<lparr> bf_processor = sample_processor, bf_windows = [] \<rparr>",
      OF uma_cursor_round_trip sample_http_head l(1,2) e sample_http_head l(2,3)]
  show ?thesis by simp
qed

end
