(* ===== verification/Spec2Isabelle.thy ===== *)
theory Spec2Isabelle
  imports Wire Hub Mempool_Feed Catalog_Sync Civil_Date Service Edge_Frame Edge_Hub Category_Rules Console_Balance Edge_Upstream Chain_Rpc
begin

text \<open>
  A verification library for \<open>rust_uma\<close>: a server that decodes the proposals and disputes of
  the UMA oracle on Polygon, enriches them from the Gamma catalog of markets and
  broadcasts them over WebSocket, a mempool feed that predicts such events, and a cluster of edge nodes with a console.
  Paths below are relative to \<open>src/src/\<close>.

  \<^bold>\<open>The program.\<close>  Chain logs arrive from several racing subscriptions and from backfills
  (\<open>uma/rpc.rs\<close>), are decoded (\<open>uma/events\<close>), deduplicated and numbered by the processor
  (\<open>pipeline.rs\<close>, \<open>hub.rs\<close>), enriched from the catalog (\<open>enrichment.rs\<close>, \<open>category.rs\<close>), withheld when
  their market is on the forfeit blocklist (\<open>forfeit.rs\<close>), written to a journal (\<open>storage.rs\<close>),
  grouped into frames (\<open>pipeline.rs\<close>, \<open>wire.rs\<close>) and sent to sessions (\<open>api.rs\<close>).  An edge node
  (\<open>edge/\<close>) keeps one session to the server and passes its frames on; the console (\<open>console/\<close>)
  tells edge nodes which clients to accept and when to release them.

  \<^bold>\<open>Foundations.\<close>  \<open>Uma_Prelude\<close>: machine integers (words that wrap, as a release build does, and the
  saturating and checked operations), results with the question-mark operator, last-\<open>n\<close> windows, big-endian numbers.  \<open>Ring_Queue\<close>: the
  interface of a bounded ring (locale \<open>bounded_ring\<close>), interpreted for the event ring and the
  frame ring of the server in \<open>Hub\<close> and for the ring of an edge node in \<open>Edge_Hub\<close>.
  \<open>Prefix_Codec\<close>: the interface of a self-delimiting encoding, interpreted for the records of the
  catalog file in \<open>Storage\<close>.

  \<^bold>\<open>The server.\<close>
  \<^item> \<open>Model\<close> (\<open>model.rs\<close>): records, enumerations, protobuf conversion, decimal numbers; round trips and the
    meaning of the decimal text.
  \<^item> \<open>Wire\<close> (\<open>wire.rs\<close>): encoding a group of events as a frame.
  \<^item> \<open>Uma_Events\<close> (\<open>uma/events\<close>): decoding a log, ABI words and ancillary text; soundness of what is accepted,
    and that 64-bit offsets read what unbounded ones would.
  \<^item> \<open>Calldata\<close>, \<open>Gate\<close>, \<open>Mempool_Feed\<close> (\<open>mempool/\<close>): decoding pending calls, deciding which are signalled, the
    feed; round trips, and that a request is signalled at most once and not after its confirmation.
  \<^item> \<open>Catalog\<close>, \<open>Catalog_Sync\<close>, \<open>Category_Rules\<close> (\<open>enrichment.rs\<close>, \<open>category.rs\<close>, \<open>config/category_rules.json\<close>): the
    catalog as a refinement of one map, the walks that keep it current, the classification
    of markets by the shipped rules.
  \<^item> \<open>Civil_Date\<close>: the conversion of day numbers against the Gregorian calendar.
  \<^item> \<open>Storage\<close>, \<open>Journal\<close> (\<open>storage.rs\<close>): catalog file, cursors, the event journal and the
    storage writer with its buffer; recovery after a crash at any point refines a list of events.
  \<^item> \<open>Hub\<close> (\<open>hub.rs\<close>): deduplication and the frame ring with its replay floor.
  \<^item> \<open>Forfeit\<close> (\<open>forfeit.rs\<close>): the blocklist as a refinement of a map from match to its ids.
  \<^item> \<open>Pipeline\<close>, \<open>Batcher\<close> (\<open>pipeline.rs\<close>): the processor as a step relation over all interleavings of the
    sources, and the batcher round by round.
  \<^item> \<open>Session\<close> (\<open>api.rs\<close>): what a client session writes.
  \<^item> \<open>Chain_Rpc\<close> (\<open>uma/rpc.rs\<close>): backfill, gap fill, the search for a first block, reconnection.
  \<^item> \<open>Service\<close> (\<open>main.rs\<close>): start-up from the journal, and the composition of journal, processor, batcher
    and frame ring as a client sees it across a restart.

  \<^bold>\<open>Edge nodes and console.\<close>
  \<^item> \<open>Edge_Frame\<close> (\<open>edge/frame.rs\<close>): the hand-written reader of frames against the protobuf wire format.
  \<^item> \<open>Edge_Hub\<close> (\<open>edge/ring.rs\<close>, \<open>edge/hub.rs\<close>): fan-out with bounded queues.
  \<^item> \<open>Edge_Upstream\<close> (\<open>edge/upstream.rs\<close>): the connection to the server and its cursor.
  \<^item> \<open>Token_Grants\<close> (\<open>console/tokens.rs\<close>, \<open>edge/auth.rs\<close>): the table of client tokens and the copy of a node.
  \<^item> \<open>Console_Registry\<close>, \<open>Console_Balance\<close> (\<open>console/registry.rs\<close> and handlers of \<open>console/server.rs\<close>): nodes, heartbeats,
    manual and automatic releases, the public list.
  \<^item> \<open>Edge_Node\<close> (\<open>edge/server.rs\<close>, \<open>edge/heartbeat.rs\<close>): handshake, directives, and drains as tasks whose atomic
    accesses are separate steps.

  \<^bold>\<open>How state and effects correspond.\<close>  A struct is a record and its methods take and return it; a lock held over a
  method makes it one step.  Where the code releases a lock or uses atomics between two
  effects (numbering and inserting an event, the two halves of an expiry, the drain task, handshake and registration), the parts are separate steps of a
  relation, and the properties quantify over all their sequences.  Errors are values of a sum type.  Hash maps that
  are iterated are lists in an unspecified order.  Channels are lists with a capacity.

  \<^bold>\<open>Parameters.\<close>  Code outside the repository is an argument: the generated protobuf enums and encoders, hashing and
  hexadecimal text, zstd, checksums, regular expressions, floating point, the Gamma server, chain nodes, the
  network and the clock.  What a property needs of them is a named hypothesis
  (\<open>pb_enums_ok\<close>, \<open>crypto_ok\<close>, \<open>wal_ok\<close>, \<open>encodes\<close>, \<open>protobuf_batches\<close>, \<open>zstd_inverse\<close>, \<open>readable\<close>),
  and each such property has a witness with a concrete instance.

  \<^bold>\<open>Termination and bounds.\<close>  All functions but one are total; loops have termination measures (lengths, 256-bit
  values, the width of a search interval) or run over the list of inputs they consume.  \<open>backfill_range\<close> is a partial function, because its
  loop does not end for the largest 64-bit block number; it is shown to return for every
  smaller one.  Bounds on counters in hypotheses (such as \<open>2 ^ 64\<close> steps) are where a counter would wrap.

  \<^bold>\<open>What the code does otherwise than it means to.\<close>  Some properties show a behaviour the comments exclude: records appended behind a
  torn journal record are lost, a frame published out of order is skipped by a session, a feed
  event during an expiry is not blocked, numbers reused after a crash are not served, a failed save leaves a
  revoked token in use, a drain can be lost, a rejected cursor is never used again, and a
  retried backfill leaves out a range.

  \<^bold>\<open>Not modelled.\<close>  Alerts and the panel of the console, health and dashboard pages, the polling of
  upstream pages, configuration from the environment, sockets, signals, logging and the binaries: they are I/O or text, and where their
  results matter they are arguments.  Sleeping and time-outs appear as steps that may
  happen at any time.
\<close>

end
